(* ===== verification/Prelude.thy ===== *)
theory Prelude
  imports Main "HOL-Library.Word"
begin

unbundle bit_operations_syntax

text \<open>
  Shared vocabulary of the development: the widths of the C++ integers, the faults an
  operation of the client can end in and the result type that carries them, checked
  writes into fixed-size memory, and the generic facts on words and lists that the
  component theories use. Facts go into the collections \<open>res_simps\<close> (sequencing of
  fallible steps) and \<open>mem_simps\<close> (checked writes).
\<close>

named_theorems res_simps \<open>sequencing of fallible steps\<close>
named_theorems mem_simps \<open>checked writes into fixed-size buffers\<close>

section \<open>Machine integers\<close>

type_synonym u8 = "8 word"
type_synonym u16 = "16 word"
type_synonym u32 = "32 word"
type_synonym u64 = "64 word"
type_synonym i32 = "32 word"

section \<open>Faults and results\<close>

text \<open>
  How an operation can fail to return normally: a failed \<^verbatim>\<open>assert\<close>, a call through a
  null \<^verbatim>\<open>shared_ptr\<close>, use of an \<^verbatim>\<open>end()\<close> or erased iterator, an access outside a
  buffer, a read of memory never written or already freed, a loop that never ends, a C++ exception.
\<close>

datatype fault =
    AssertionFailed
  | NullPointer
  | BadIterator
  | OutOfBounds
  | Uninitialised
  | UseAfterFree
  | Diverges
  | Throws string

type_synonym 'a res = "fault + 'a"

fun andThen :: "'a res \<Rightarrow> ('a \<Rightarrow> 'b res) \<Rightarrow> 'b res" where
  "andThen (Inl e) f = Inl e"
| "andThen (Inr x) f = f x"

fun_cases andThen_InrE: "andThen m f = Inr y"

fun foldRes :: "('a \<Rightarrow> 's \<Rightarrow> 's res) \<Rightarrow> 'a list \<Rightarrow> 's \<Rightarrow> 's res" where
  "foldRes f [] s = Inr s"
| "foldRes f (x # xs) s = andThen (f x s) (foldRes f xs)"

text \<open>
  The build a client is compiled in: whether \<^verbatim>\<open>NDEBUG\<close> compiles the assertions away,
  the byte order of the host, and whether the macro \<^verbatim>\<open>ENDIAN_LITTLE\<close> is defined.
\<close>

record build =
  NDEBUG :: bool
  HOST_LITTLE :: bool
  ENDIAN_LITTLE :: bool

definition assert_then :: "build \<Rightarrow> bool \<Rightarrow> 'a res \<Rightarrow> 'a res" where
  "assert_then b c k = (if c \<or> NDEBUG b then k else Inl AssertionFailed)"

section \<open>Memory\<close>

text \<open>
  A byte of allocated memory, \<open>None\<close> while it is uninitialised; the address of an object;
  the address of a member of an object.
\<close>

type_synonym cell = "u8 option"
type_synonym ptr = nat
type_synonym addr = "ptr \<times> nat"

text \<open>\<^verbatim>\<open>memcpy(buf + off, xs, |xs|)\<close> into a buffer of known size.\<close>

definition poke :: "'a list \<Rightarrow> nat \<Rightarrow> 'a list \<Rightarrow> 'a list res" where
  "poke buf off xs =
     (if off + length xs \<le> length buf
      then Inr (take off buf @ xs @ drop (off + length xs) buf)
      else Inl OutOfBounds)"

section \<open>Facts on results\<close>

lemma andThen_eq_Inr [res_simps]:
  "andThen m f = Inr y \<longleftrightarrow> (\<exists>x. m = Inr x \<and> f x = Inr y)"
  by (cases m) auto

lemma andThen_eq_Inl [res_simps]:
  "andThen m f = Inl e \<longleftrightarrow> m = Inl e \<or> (\<exists>x. m = Inr x \<and> f x = Inl e)"
  by (cases m) auto

lemma andThen_assoc: "andThen (andThen m f) g = andThen m (\<lambda>x. andThen (f x) g)"
  by (cases m) auto

lemma foldRes_append: "foldRes f (xs @ ys) s = andThen (foldRes f xs s) (foldRes f ys)"
proof (induction xs arbitrary: s)
  case Nil
  show ?case by simp
next
  case (Cons x xs)
  then show ?case by (cases "f x s") simp_all
qed

lemma foldRes_total:
  assumes "\<And>x s. x \<in> set xs \<Longrightarrow> f x s = Inr (g x s)"
  shows "foldRes f xs s = Inr (fold g xs s)"
  using assms by (induction xs arbitrary: s) auto

lemma foldRes_invariant:
  assumes "foldRes f xs s = Inr t" "P s"
    and "\<And>x s t. x \<in> set xs \<Longrightarrow> P s \<Longrightarrow> f x s = Inr t \<Longrightarrow> P t"
  shows "P t"
  using assms
proof (induction xs arbitrary: s)
  case Nil
  then show ?case by simp
next
  case (Cons x xs)
  then obtain u where u: "f x s = Inr u" "foldRes f xs u = Inr t"
    by (auto simp: res_simps)
  then have "P u" using Cons.prems by auto
  then show ?case using Cons.IH [OF u(2)] Cons.prems(3) by auto
qed

lemma assert_then_True [simp]: "assert_then b True k = k"
  by (simp add: assert_then_def)

lemma assert_then_eq_Inr:
  "assert_then b c k = Inr y \<longleftrightarrow> (c \<or> NDEBUG b) \<and> k = Inr y"
  by (simp add: assert_then_def)

section \<open>Facts on checked writes\<close>

lemma poke_ok [mem_simps]:
  "off + length xs \<le> length buf \<Longrightarrow>
     poke buf off xs = Inr (take off buf @ xs @ drop (off + length xs) buf)"
  by (simp add: poke_def)

lemma poke_length: "poke buf off xs = Inr buf' \<Longrightarrow> length buf' = length buf"
  by (auto simp: poke_def split: if_splits)

lemma poke_out_of_bounds [mem_simps]:
  "length buf < off + length xs \<Longrightarrow> poke buf off xs = Inl OutOfBounds"
  by (simp add: poke_def)

section \<open>Facts on lists\<close>

lemma take_drop_split: "n \<le> length xs \<Longrightarrow> xs = take n xs @ drop n xs"
  by simp

lemma ball_subset: "A \<subseteq> B \<Longrightarrow> \<forall>x \<in> B. P x \<Longrightarrow> \<forall>x \<in> A. P x"
  by blast

lemma ball_insert_subset: "A \<subseteq> insert y B \<Longrightarrow> P y \<Longrightarrow> \<forall>x \<in> B. P x \<Longrightarrow> \<forall>x \<in> A. P x"
  by blast

lemma filter_all_id: "(\<And>x. x \<in> set xs \<Longrightarrow> P x) \<Longrightarrow> filter P xs = xs"
  by (induction xs) auto

end
