(* ===== verification/Byte_Order.thy ===== *)
theory Byte_Order
  imports Prelude
begin

unbundle bit_operations_syntax

text \<open>
  Integers in memory and on the wire. \<open>mem_bytes\<close> is the object representation of an
  unsigned integer on the host, \<open>be_bytes\<close> its network representation; \<open>htons\<close> and
  \<open>htonl\<close> are the POSIX conversions, and \<open>mc_swap64\<close>, \<open>ntohll\<close>, \<open>htonll\<close> model
  \<^verbatim>\<open>network/HostNetConversion.cpp\<close>. The locale \<open>byte_codec\<close> states what a fixed-width
  integer codec promises; it is interpreted for the widths the wire format uses.
\<close>

section \<open>Byte sequences of integers\<close>

fun le_bytes :: "nat \<Rightarrow> 'a::len word \<Rightarrow> u8 list" where
  "le_bytes 0 w = []"
| "le_bytes (Suc n) w = ucast w # le_bytes n (drop_bit 8 w)"

fun le_word :: "u8 list \<Rightarrow> 'a::len word" where
  "le_word [] = 0"
| "le_word (b # bs) = ucast b OR push_bit 8 (le_word bs)"

definition be_bytes :: "nat \<Rightarrow> 'a::len word \<Rightarrow> u8 list" where
  "be_bytes n w = rev (le_bytes n w)"

definition be_word :: "u8 list \<Rightarrow> 'a::len word" where
  "be_word bs = le_word (rev bs)"

definition mem_bytes :: "build \<Rightarrow> nat \<Rightarrow> 'a::len word \<Rightarrow> u8 list" where
  "mem_bytes b n w = (if HOST_LITTLE b then le_bytes n w else be_bytes n w)"

definition mem_word :: "build \<Rightarrow> u8 list \<Rightarrow> 'a::len word" where
  "mem_word b bs = (if HOST_LITTLE b then le_word bs else be_word bs)"

section \<open>Conversions\<close>

definition byte_swap :: "nat \<Rightarrow> 'a::len word \<Rightarrow> 'a word" where
  "byte_swap n w = le_word (be_bytes n w)"

definition htons :: "build \<Rightarrow> u16 \<Rightarrow> u16" where
  "htons b x = (if HOST_LITTLE b then byte_swap 2 x else x)"

definition ntohs :: "build \<Rightarrow> u16 \<Rightarrow> u16" where
  "ntohs b x = (if HOST_LITTLE b then byte_swap 2 x else x)"

definition htonl :: "build \<Rightarrow> u32 \<Rightarrow> u32" where
  "htonl b x = (if HOST_LITTLE b then byte_swap 4 x else x)"

definition ntohl :: "build \<Rightarrow> u32 \<Rightarrow> u32" where
  "ntohl b x = (if HOST_LITTLE b then byte_swap 4 x else x)"

text \<open>The loop of \<^verbatim>\<open>mc_swap64\<close>: \<open>k\<close> iterations are left.\<close>

fun mc_swap64_loop :: "nat \<Rightarrow> u64 \<Rightarrow> u64 \<Rightarrow> u64" where
  "mc_swap64_loop 0 rv inn = rv"
| "mc_swap64_loop (Suc k) rv inn =
     mc_swap64_loop k (push_bit 8 rv OR (inn AND 0xff)) (drop_bit 8 inn)"

definition mc_swap64 :: "build \<Rightarrow> u64 \<Rightarrow> u64" where
  "mc_swap64 b inn = (if ENDIAN_LITTLE b then mc_swap64_loop 8 0 inn else inn)"

definition ntohll :: "build \<Rightarrow> u64 \<Rightarrow> u64" where
  "ntohll b val = mc_swap64 b val"

definition htonll :: "build \<Rightarrow> u64 \<Rightarrow> u64" where
  "htonll b val = mc_swap64 b val"

section \<open>Byte sequences: round trips\<close>

lemma length_le_bytes [simp]: "length (le_bytes n w) = n"
  by (induction n arbitrary: w) auto

lemma length_be_bytes [simp]: "length (be_bytes n w) = n"
  by (simp add: be_bytes_def)

lemma length_mem_bytes [simp]: "length (mem_bytes b n w) = n"
  by (simp add: mem_bytes_def)

lemma ucast_ucast_u8: "(ucast (ucast w :: u8) :: 'a::len word) = take_bit 8 (w :: 'a word)"
  by (rule bit_word_eqI) (auto simp: bit_simps)

lemma take_bit_8_step:
  "take_bit 8 w OR push_bit 8 (take_bit k (drop_bit 8 w)) = take_bit (8 + k) (w :: 'a::len word)"
  by (rule bit_word_eqI) (auto simp: bit_simps)

lemma le_word_le_bytes: "le_word (le_bytes n w) = take_bit (8 * n) (w :: 'a::len word)"
  by (induction n arbitrary: w) (simp_all add: ucast_ucast_u8 take_bit_8_step)

lemma low_byte_le_word:
  "8 \<le> LENGTH('a) \<Longrightarrow> ucast (ucast b OR push_bit 8 (w :: 'a::len word)) = (b :: u8)"
  by (rule bit_word_eqI) (auto simp: bit_simps)

lemma high_bytes_le_word:
  "drop_bit 8 (ucast (b :: u8) OR push_bit 8 (w :: 'a::len word)) = take_bit (LENGTH('a) - 8) w"
  by (rule bit_word_eqI) (auto simp: bit_simps dest: bit_imp_le_length)

lemma low_byte_take_bit: "8 \<le> k \<Longrightarrow> ucast (take_bit k w) = (ucast (w :: 'a::len word) :: u8)"
  by (rule bit_word_eqI) (auto simp: bit_simps)

lemma le_bytes_take_bit: "8 * n \<le> k \<Longrightarrow> le_bytes n (take_bit k w) = le_bytes n (w :: 'a::len word)"
  by (induction n arbitrary: w k) (simp_all add: low_byte_take_bit drop_bit_take_bit)

lemma le_bytes_le_word:
  "8 * length bs \<le> LENGTH('a) \<Longrightarrow> le_bytes (length bs) (le_word bs :: 'a::len word) = bs"
proof (induction bs)
  case Nil
  show ?case by simp
next
  case (Cons b bs)
  then show ?case
    by (simp add: low_byte_le_word high_bytes_le_word le_bytes_take_bit del: drop_bit_or)
qed

lemma le_word_append:
  "le_word (xs @ ys) = le_word xs OR push_bit (8 * length xs) (le_word ys :: 'a::len word)"
  by (induction xs) (simp_all add: push_bit_or push_bit_push_bit or.assoc ac_simps)

lemma le_word_inject:
  assumes "length xs = length ys" "8 * length xs \<le> LENGTH('a)"
    and "(le_word xs :: 'a::len word) = le_word ys"
  shows "xs = ys"
  using assms by (metis le_bytes_le_word)

section \<open>What a fixed-width codec promises\<close>

locale byte_codec =
  fixes enc :: "'w \<Rightarrow> u8 list"
    and dec :: "u8 list \<Rightarrow> 'w"
    and width :: nat
  assumes length_enc: "length (enc w) = width"
    and dec_enc: "dec (enc w) = w"
    and enc_dec: "length bs = width \<Longrightarrow> enc (dec bs) = bs"
begin

lemma enc_inject: "enc v = enc w \<longleftrightarrow> v = w"
  by (metis dec_enc)

lemma dec_inject: "length xs = width \<Longrightarrow> length ys = width \<Longrightarrow> dec xs = dec ys \<longleftrightarrow> xs = ys"
  by (metis enc_dec)

lemma dec_prefix: "dec (take width (enc w @ rest)) = w"
  by (simp add: length_enc dec_enc)

lemma dec_at: "length pre = off \<Longrightarrow> dec (take width (drop off (pre @ enc w @ rest))) = w"
  by (simp add: length_enc dec_enc)

end

lemma byte_codecI:
  assumes "8 * n = LENGTH('a::len)"
  shows "byte_codec (mem_bytes b n :: 'a word \<Rightarrow> _) (mem_word b) n"
    and "byte_codec (be_bytes n :: 'a word \<Rightarrow> _) be_word n"
proof -
  have le: "le_word (le_bytes n w) = (w :: 'a word)" for w
    using assms by (simp add: le_word_le_bytes)
  have el: "le_bytes n (le_word bs :: 'a word) = bs" if "length bs = n" for bs
    using that assms le_bytes_le_word [of bs, where ?'a = 'a] by simp
  show be: "byte_codec (be_bytes n :: 'a word \<Rightarrow> _) be_word n"
    by unfold_locales (simp_all add: be_bytes_def be_word_def le el)
  show "byte_codec (mem_bytes b n :: 'a word \<Rightarrow> _) (mem_word b) n"
    using be
    by unfold_locales
      (simp_all add: mem_bytes_def mem_word_def le el byte_codec.dec_enc byte_codec.enc_dec)
qed

interpretation mem16: byte_codec "mem_bytes b 2 :: u16 \<Rightarrow> u8 list" "mem_word b" 2 for b
  by (rule byte_codecI) simp

interpretation mem32: byte_codec "mem_bytes b 4 :: u32 \<Rightarrow> u8 list" "mem_word b" 4 for b
  by (rule byte_codecI) simp

interpretation mem64: byte_codec "mem_bytes b 8 :: u64 \<Rightarrow> u8 list" "mem_word b" 8 for b
  by (rule byte_codecI) simp

interpretation be16: byte_codec "be_bytes 2 :: u16 \<Rightarrow> u8 list" be_word 2
  by (rule byte_codecI) simp

interpretation be32: byte_codec "be_bytes 4 :: u32 \<Rightarrow> u8 list" be_word 4
  by (rule byte_codecI) simp

interpretation be64: byte_codec "be_bytes 8 :: u64 \<Rightarrow> u8 list" be_word 8
  by (rule byte_codecI) simp

section \<open>Conversions: the bytes on the wire\<close>

lemma le_bytes_byte_swap:
  assumes "8 * n \<le> LENGTH('a)"
  shows "le_bytes n (byte_swap n (w :: 'a::len word)) = be_bytes n w"
  using assms le_bytes_le_word [of "be_bytes n w", where ?'a = 'a]
  by (simp add: byte_swap_def)

lemma byte_swap_byte_swap:
  assumes "8 * n = LENGTH('a)"
  shows "byte_swap n (byte_swap n (w :: 'a::len word)) = w"
proof -
  have "le_word (rev (le_bytes n (byte_swap n w))) = w"
    using assms by (simp add: le_bytes_byte_swap be_bytes_def le_word_le_bytes)
  then show ?thesis by (simp add: byte_swap_def [of n "byte_swap n w"] be_bytes_def)
qed

lemma mem_htons: "mem_bytes b 2 (htons b x) = be_bytes 2 x"
  by (simp add: mem_bytes_def htons_def le_bytes_byte_swap)

lemma mem_htonl: "mem_bytes b 4 (htonl b x) = be_bytes 4 x"
  by (simp add: mem_bytes_def htonl_def le_bytes_byte_swap)

lemma ntohs_ntohs: "ntohs b (ntohs b x) = x"
  by (simp add: ntohs_def byte_swap_byte_swap)

lemma ntohs_mem: "ntohs b (mem_word b (be_bytes 2 x)) = x"
proof -
  have "mem_word b (be_bytes 2 x) = htons b x"
    using mem16.dec_enc [of b "htons b x"] by (simp add: mem_htons)
  then show ?thesis by (simp add: htons_def ntohs_def byte_swap_byte_swap)
qed

lemma ntohl_mem: "ntohl b (mem_word b (be_bytes 4 x)) = x"
proof -
  have "mem_word b (be_bytes 4 x) = htonl b x"
    using mem32.dec_enc [of b "htonl b x"] by (simp add: mem_htonl)
  then show ?thesis by (simp add: htonl_def ntohl_def byte_swap_byte_swap)
qed

lemma low_byte_mask: "w AND 0xff = (ucast (ucast w :: u8) :: u64)"
proof -
  have "(0xff :: u64) = mask 8" by (simp add: mask_eq_exp_minus_1)
  then show ?thesis by (simp add: ucast_ucast_u8 take_bit_eq_mask)
qed

lemma mc_swap64_loop_bytes:
  "mc_swap64_loop k rv inn = push_bit (8 * k) rv OR le_word (be_bytes k inn)"
proof (induction k arbitrary: rv inn)
  case 0
  show ?case by (simp add: be_bytes_def)
next
  case (Suc k)
  show ?case
    by (simp add: Suc low_byte_mask be_bytes_def le_word_append push_bit_or push_bit_push_bit
        ac_simps)
qed

text \<open>The byte-at-a-time loop computes the byte reversal of its argument.\<close>

lemma mc_swap64_byte_swap: "ENDIAN_LITTLE b \<Longrightarrow> mc_swap64 b x = byte_swap 8 x"
  by (simp add: mc_swap64_def mc_swap64_loop_bytes byte_swap_def)

lemma be_bytes_byte_swap: "be_bytes 8 (byte_swap 8 x) = le_bytes 8 (x :: u64)"
  by (simp add: be_bytes_def [of 8 "byte_swap 8 x"] le_bytes_byte_swap) (simp add: be_bytes_def)

lemma mem_htonll:
  "mem_bytes b 8 (htonll b x) =
     (if HOST_LITTLE b = ENDIAN_LITTLE b then be_bytes 8 x else le_bytes 8 x)"
proof (cases "ENDIAN_LITTLE b")
  case True
  then show ?thesis
    by (simp add: mem_bytes_def htonll_def mc_swap64_byte_swap le_bytes_byte_swap
        be_bytes_byte_swap)
next
  case False
  then show ?thesis by (simp add: mem_bytes_def htonll_def mc_swap64_def)
qed

text \<open>
  What \<^verbatim>\<open>htonll\<close> puts into memory: the network (big-endian) representation exactly when
  the macro \<^verbatim>\<open>ENDIAN_LITTLE\<close> agrees with the byte order of the host, and the little-endian
  representation otherwise. No build file defines the macro, so on a little-endian host
  64-bit fields travel in the wrong order.
\<close>

theorem htonll_wire:
  "mem_bytes b 8 (htonll b x) =
     (if HOST_LITTLE b = ENDIAN_LITTLE b then be_bytes 8 x else le_bytes 8 x)"
  by (rule mem_htonll)

text \<open>
  \<^verbatim>\<open>ntohll\<close> undoes \<^verbatim>\<open>htonll\<close> in every build, and a 64-bit value read back from its
  network representation is the value sent when the macro agrees with the host.
\<close>

theorem ntohll_htonll:
  "ntohll b (htonll b x) = x \<and>
   (HOST_LITTLE b = ENDIAN_LITTLE b \<longrightarrow> ntohll b (mem_word b (be_bytes 8 x)) = x)"
proof -
  have inv: "ntohll b (htonll b x) = x" for x
  proof (cases "ENDIAN_LITTLE b")
    case True
    then show ?thesis
      by (simp add: ntohll_def htonll_def mc_swap64_byte_swap byte_swap_byte_swap)
  next
    case False
    then show ?thesis by (simp add: ntohll_def htonll_def mc_swap64_def)
  qed
  moreover have "mem_word b (be_bytes 8 x) = htonll b x" if "HOST_LITTLE b = ENDIAN_LITTLE b"
    using that mem64.dec_enc [of b "htonll b x"] by (simp add: mem_htonll)
  ultimately show ?thesis by simp
qed

theorem ntohll_htonll_witness:
  "ntohll \<lparr>NDEBUG = False, HOST_LITTLE = True, ENDIAN_LITTLE = True\<rparr>
     (mem_word \<lparr>NDEBUG = False, HOST_LITTLE = True, ENDIAN_LITTLE = True\<rparr>
       (be_bytes 8 (0x0102030405060708 :: u64))) = 0x0102030405060708"
  using ntohll_htonll [of "\<lparr>NDEBUG = False, HOST_LITTLE = True, ENDIAN_LITTLE = True\<rparr>"
      "0x0102030405060708"] by simp

end
