(* ===== verification/Md5.thy ===== *)
theory Md5
  imports Byte_Order
begin

unbundle bit_operations_syntax

text \<open>
  \<^verbatim>\<open>utils/md5.h\<close> and \<^verbatim>\<open>utils/md5.cpp\<close>: the MD5 object that places the servers on the
  consistent-hash ring. The arrays \<^verbatim>\<open>_state\<close> and \<^verbatim>\<open>_count\<close> are a tuple and two fields,
  \<^verbatim>\<open>_buffer\<close> and \<^verbatim>\<open>_digest\<close> byte lists; writes into \<^verbatim>\<open>_buffer\<close> are checked, so an
  operation that ran over it would end in \<open>OutOfBounds\<close>. The sixty-four statements of
  \<^verbatim>\<open>transform\<close> are kept one by one. \<open>Md5_Correct\<close> holds the theorems.
\<close>

section \<open>The transformation of one block\<close>

type_synonym abcd = "u32 \<times> u32 \<times> u32 \<times> u32"

definition F :: "u32 \<Rightarrow> u32 \<Rightarrow> u32 \<Rightarrow> u32" where
  "F x y z = (x AND y) OR (NOT x AND z)"

definition G :: "u32 \<Rightarrow> u32 \<Rightarrow> u32 \<Rightarrow> u32" where
  "G x y z = (x AND z) OR (y AND NOT z)"

definition H :: "u32 \<Rightarrow> u32 \<Rightarrow> u32 \<Rightarrow> u32" where
  "H x y z = x XOR y XOR z"

definition I :: "u32 \<Rightarrow> u32 \<Rightarrow> u32 \<Rightarrow> u32" where
  "I x y z = y XOR (x OR NOT z)"

definition ROTATE_LEFT :: "u32 \<Rightarrow> nat \<Rightarrow> u32" where
  "ROTATE_LEFT x n = push_bit n x OR drop_bit (32 - n) x"

text \<open>
  The statement \<open>FF(a, b, c, d, x, s, ac)\<close> overwrites its first argument with
  \<open>FF x s ac a b c d\<close>; the other three rounds differ in the mixing function.
\<close>

definition FF :: "u32 \<Rightarrow> nat \<Rightarrow> u32 \<Rightarrow> u32 \<Rightarrow> u32 \<Rightarrow> u32 \<Rightarrow> u32 \<Rightarrow> u32" where
  "FF x s ac a b c d = ROTATE_LEFT (a + (F b c d + x + ac)) s + b"

definition GG :: "u32 \<Rightarrow> nat \<Rightarrow> u32 \<Rightarrow> u32 \<Rightarrow> u32 \<Rightarrow> u32 \<Rightarrow> u32 \<Rightarrow> u32" where
  "GG x s ac a b c d = ROTATE_LEFT (a + (G b c d + x + ac)) s + b"

definition HH :: "u32 \<Rightarrow> nat \<Rightarrow> u32 \<Rightarrow> u32 \<Rightarrow> u32 \<Rightarrow> u32 \<Rightarrow> u32 \<Rightarrow> u32" where
  "HH x s ac a b c d = ROTATE_LEFT (a + (H b c d + x + ac)) s + b"

definition II :: "u32 \<Rightarrow> nat \<Rightarrow> u32 \<Rightarrow> u32 \<Rightarrow> u32 \<Rightarrow> u32 \<Rightarrow> u32 \<Rightarrow> u32" where
  "II x s ac a b c d = ROTATE_LEFT (a + (I b c d + x + ac)) s + b"

text \<open>
  A statement whose first argument is \<open>a\<close>, \<open>d\<close>, \<open>c\<close> or \<open>b\<close>, as an update of the four
  local variables; the remaining arguments follow in the cyclic order of the source.
\<close>

fun on_a :: "(u32 \<Rightarrow> u32 \<Rightarrow> u32 \<Rightarrow> u32 \<Rightarrow> u32) \<Rightarrow> abcd \<Rightarrow> abcd" where
  "on_a f (a, b, c, d) = (f a b c d, b, c, d)"

fun on_d :: "(u32 \<Rightarrow> u32 \<Rightarrow> u32 \<Rightarrow> u32 \<Rightarrow> u32) \<Rightarrow> abcd \<Rightarrow> abcd" where
  "on_d f (a, b, c, d) = (a, b, c, f d a b c)"

fun on_c :: "(u32 \<Rightarrow> u32 \<Rightarrow> u32 \<Rightarrow> u32 \<Rightarrow> u32) \<Rightarrow> abcd \<Rightarrow> abcd" where
  "on_c f (a, b, c, d) = (a, b, f c d a b, d)"

fun on_b :: "(u32 \<Rightarrow> u32 \<Rightarrow> u32 \<Rightarrow> u32 \<Rightarrow> u32) \<Rightarrow> abcd \<Rightarrow> abcd" where
  "on_b f (a, b, c, d) = (a, f b c d a, c, d)"

definition S11 :: nat where "S11 = 7"
definition S12 :: nat where "S12 = 12"
definition S13 :: nat where "S13 = 17"
definition S14 :: nat where "S14 = 22"
definition S21 :: nat where "S21 = 5"
definition S22 :: nat where "S22 = 9"
definition S23 :: nat where "S23 = 14"
definition S24 :: nat where "S24 = 20"
definition S31 :: nat where "S31 = 4"
definition S32 :: nat where "S32 = 11"
definition S33 :: nat where "S33 = 16"
definition S34 :: nat where "S34 = 23"
definition S41 :: nat where "S41 = 6"
definition S42 :: nat where "S42 = 10"
definition S43 :: nat where "S43 = 15"
definition S44 :: nat where "S44 = 21"

definition round1 :: "u32 list \<Rightarrow> (abcd \<Rightarrow> abcd) list" where
  "round1 x =
     [on_a (FF (x ! 0) S11 0xd76aa478), on_d (FF (x ! 1) S12 0xe8c7b756),
      on_c (FF (x ! 2) S13 0x242070db), on_b (FF (x ! 3) S14 0xc1bdceee),
      on_a (FF (x ! 4) S11 0xf57c0faf), on_d (FF (x ! 5) S12 0x4787c62a),
      on_c (FF (x ! 6) S13 0xa8304613), on_b (FF (x ! 7) S14 0xfd469501),
      on_a (FF (x ! 8) S11 0x698098d8), on_d (FF (x ! 9) S12 0x8b44f7af),
      on_c (FF (x ! 10) S13 0xffff5bb1), on_b (FF (x ! 11) S14 0x895cd7be),
      on_a (FF (x ! 12) S11 0x6b901122), on_d (FF (x ! 13) S12 0xfd987193),
      on_c (FF (x ! 14) S13 0xa679438e), on_b (FF (x ! 15) S14 0x49b40821)]"

definition round2 :: "u32 list \<Rightarrow> (abcd \<Rightarrow> abcd) list" where
  "round2 x =
     [on_a (GG (x ! 1) S21 0xf61e2562), on_d (GG (x ! 6) S22 0xc040b340),
      on_c (GG (x ! 11) S23 0x265e5a51), on_b (GG (x ! 0) S24 0xe9b6c7aa),
      on_a (GG (x ! 5) S21 0xd62f105d), on_d (GG (x ! 10) S22 0x2441453),
      on_c (GG (x ! 15) S23 0xd8a1e681), on_b (GG (x ! 4) S24 0xe7d3fbc8),
      on_a (GG (x ! 9) S21 0x21e1cde6), on_d (GG (x ! 14) S22 0xc33707d6),
      on_c (GG (x ! 3) S23 0xf4d50d87), on_b (GG (x ! 8) S24 0x455a14ed),
      on_a (GG (x ! 13) S21 0xa9e3e905), on_d (GG (x ! 2) S22 0xfcefa3f8),
      on_c (GG (x ! 7) S23 0x676f02d9), on_b (GG (x ! 12) S24 0x8d2a4c8a)]"

definition round3 :: "u32 list \<Rightarrow> (abcd \<Rightarrow> abcd) list" where
  "round3 x =
     [on_a (HH (x ! 5) S31 0xfffa3942), on_d (HH (x ! 8) S32 0x8771f681),
      on_c (HH (x ! 11) S33 0x6d9d6122), on_b (HH (x ! 14) S34 0xfde5380c),
      on_a (HH (x ! 1) S31 0xa4beea44), on_d (HH (x ! 4) S32 0x4bdecfa9),
      on_c (HH (x ! 7) S33 0xf6bb4b60), on_b (HH (x ! 10) S34 0xbebfbc70),
      on_a (HH (x ! 13) S31 0x289b7ec6), on_d (HH (x ! 0) S32 0xeaa127fa),
      on_c (HH (x ! 3) S33 0xd4ef3085), on_b (HH (x ! 6) S34 0x4881d05),
      on_a (HH (x ! 9) S31 0xd9d4d039), on_d (HH (x ! 12) S32 0xe6db99e5),
      on_c (HH (x ! 15) S33 0x1fa27cf8), on_b (HH (x ! 2) S34 0xc4ac5665)]"

definition round4 :: "u32 list \<Rightarrow> (abcd \<Rightarrow> abcd) list" where
  "round4 x =
     [on_a (II (x ! 0) S41 0xf4292244), on_d (II (x ! 7) S42 0x432aff97),
      on_c (II (x ! 14) S43 0xab9423a7), on_b (II (x ! 5) S44 0xfc93a039),
      on_a (II (x ! 12) S41 0x655b59c3), on_d (II (x ! 3) S42 0x8f0ccc92),
      on_c (II (x ! 10) S43 0xffeff47d), on_b (II (x ! 1) S44 0x85845dd1),
      on_a (II (x ! 8) S41 0x6fa87e4f), on_d (II (x ! 15) S42 0xfe2ce6e0),
      on_c (II (x ! 6) S43 0xa3014314), on_b (II (x ! 13) S44 0x4e0811a1),
      on_a (II (x ! 4) S41 0xf7537e82), on_d (II (x ! 11) S42 0xbd3af235),
      on_c (II (x ! 2) S43 0x2ad7d2bb), on_b (II (x ! 9) S44 0xeb86d391)]"

definition decode :: "u8 list \<Rightarrow> u32 list" where
  "decode input = map (\<lambda>i. let j = 4 * i in
       ucast (input ! j) OR push_bit 8 (ucast (input ! (j + 1)))
         OR push_bit 16 (ucast (input ! (j + 2))) OR push_bit 24 (ucast (input ! (j + 3))))
     [0..<length input div 4]"

definition encode :: "u32 list \<Rightarrow> u8 list" where
  "encode input = concat (map (\<lambda>w.
       [ucast (w AND 0xff), ucast (drop_bit 8 w AND 0xff), ucast (drop_bit 16 w AND 0xff),
        ucast (drop_bit 24 w AND 0xff)]) input)"

fun add_abcd :: "abcd \<Rightarrow> abcd \<Rightarrow> abcd" where
  "add_abcd (a, b, c, d) (a', b', c', d') = (a + a', b + b', c + c', d + d')"

definition transform :: "u8 list \<Rightarrow> abcd \<Rightarrow> abcd" where
  "transform block state =
     (let x = decode block
      in add_abcd state
           (fold (\<lambda>stmt. stmt) (round1 x @ round2 x @ round3 x @ round4 x) state))"

section \<open>The object\<close>

record md5 =
  md_state :: abcd
  md_count0 :: u32
  md_count1 :: u32
  md_buffer :: "u8 list"
  md_digest :: "u8 list"
  md_finished :: bool

definition PADDING :: "u8 list" where
  "PADDING = 0x80 # replicate 63 0"

definition HEX :: string where
  "HEX = ''0123456789abcdef''"

definition reset :: "md5 \<Rightarrow> md5" where
  "reset m = m\<lparr>md_finished := False, md_count0 := 0, md_count1 := 0,
     md_state := (0x67452301, 0xefcdab89, 0x98badcfe, 0x10325476)\<rparr>"

text \<open>
  The loop over the whole blocks of the input. The index is a 32-bit integer and the
  length a 64-bit one, so for long inputs \<open>i + 63\<close> wraps and the loop need not end
  (the value \<open>None\<close>); a block that would be read past the input is a fault.
\<close>

partial_function (option) update_loop ::
    "u8 list \<Rightarrow> u64 \<Rightarrow> u32 \<Rightarrow> abcd \<Rightarrow> (u32 \<times> abcd) res option" where
  "update_loop input len i st =
     (if (ucast (i + 63) :: u64) < len
      then (if unat i + 64 \<le> length input
            then update_loop input len (i + 64) (transform (take 64 (drop (unat i) input)) st)
            else Some (Inl OutOfBounds))
      else Some (Inr (i, st)))"

definition update_blocks ::
    "u8 list \<Rightarrow> u64 \<Rightarrow> u32 \<Rightarrow> abcd \<Rightarrow> (u32 \<times> abcd) res" where
  "update_blocks input len i st =
     (case update_loop input len i st of None \<Rightarrow> Inl Diverges | Some r \<Rightarrow> r)"

definition update :: "md5 \<Rightarrow> u8 list \<Rightarrow> md5 res" where
  "update m input =
     (let len = (of_nat (length input) :: u64);
          len32 = (ucast len :: u32);
          index = drop_bit 3 (md_count0 m) AND 0x3f;
          c0 = md_count0 m + push_bit 3 len32;
          c1 = md_count1 m + (if c0 < push_bit 3 len32 then 1 else 0) + drop_bit 29 len32;
          m = m\<lparr>md_finished := False, md_count0 := c0, md_count1 := c1\<rparr>;
          partLen = 64 - index
      in if ucast partLen \<le> len
         then andThen (poke (md_buffer m) (unat index) (take (unat partLen) input)) (\<lambda>buf.
              andThen (update_blocks input len partLen (transform buf (md_state m))) (\<lambda>(i, st).
              andThen (poke buf 0 (take (unat (len - ucast i)) (drop (unat i) input))) (\<lambda>buf.
              Inr (m\<lparr>md_buffer := buf, md_state := st\<rparr>))))
         else andThen (poke (md_buffer m) (unat index) (take (unat len) input)) (\<lambda>buf.
              Inr (m\<lparr>md_buffer := buf\<rparr>)))"

fun abcd_list :: "abcd \<Rightarrow> u32 list" where
  "abcd_list (a, b, c, d) = [a, b, c, d]"

definition final :: "md5 \<Rightarrow> md5 res" where
  "final m =
     (let oldState = md_state m;
          oldCount0 = md_count0 m;
          oldCount1 = md_count1 m;
          bits = encode [md_count0 m, md_count1 m];
          index = drop_bit 3 (md_count0 m) AND 0x3f;
          padLen = (if index < 56 then 56 - index else 120 - index)
      in andThen (update m (take (unat padLen) PADDING)) (\<lambda>m.
         andThen (update m bits) (\<lambda>m.
         Inr (m\<lparr>md_digest := encode (abcd_list (md_state m)),
                md_state := oldState, md_count0 := oldCount0, md_count1 := oldCount1\<rparr>))))"

definition digest :: "md5 \<Rightarrow> (u8 list \<times> md5) res" where
  "digest m =
     (if \<not> md_finished m
      then andThen (final (m\<lparr>md_finished := True\<rparr>)) (\<lambda>m. Inr (md_digest m, m))
      else Inr (md_digest m, m))"

definition bytesToHexString :: "u8 list \<Rightarrow> string" where
  "bytesToHexString input =
     concat (map (\<lambda>t. [HEX ! (unat t div 16), HEX ! (unat t mod 16)]) input)"

definition toString :: "md5 \<Rightarrow> (string \<times> md5) res" where
  "toString m = andThen (digest m) (\<lambda>(d, m). Inr (bytesToHexString d, m))"

definition string_bytes :: "string \<Rightarrow> u8 list" where
  "string_bytes s = map (\<lambda>c. of_nat (of_char c)) s"

text \<open>The public overloads of \<^verbatim>\<open>update\<close> for a buffer and for a string.\<close>

definition update_buffer :: "md5 \<Rightarrow> u8 list \<Rightarrow> md5 res" where
  [simp]: "update_buffer m input = update m input"

definition update_string :: "md5 \<Rightarrow> string \<Rightarrow> md5 res" where
  [simp]: "update_string m str = update m (string_bytes str)"

definition MD5_void :: "md5 \<Rightarrow> md5" where
  "MD5_void raw = reset raw"

definition MD5_buffer :: "md5 \<Rightarrow> u8 list \<Rightarrow> md5 res" where
  "MD5_buffer raw input = update_buffer (reset raw) input"

definition MD5_string :: "md5 \<Rightarrow> string \<Rightarrow> md5 res" where
  "MD5_string raw str = update_string (reset raw) str"

text \<open>
  Reading a file: \<open>remaining\<close> is what the stream still holds. A read asks for
  \<open>BUFFER_SIZE\<close> bytes, delivers what there is, and sets \<^verbatim>\<open>eof\<close> exactly when it delivers
  less than asked for.
\<close>

definition BUFFER_SIZE :: nat where
  "BUFFER_SIZE = 1024"

function update_file_loop :: "md5 \<Rightarrow> u8 list \<Rightarrow> md5 res" where
  "update_file_loop m remaining =
     (let chunk = take BUFFER_SIZE remaining;
          m' = (if 0 < length chunk then update m chunk else Inr m)
      in if length chunk < BUFFER_SIZE then m'
         else andThen m' (\<lambda>m'. update_file_loop m' (drop BUFFER_SIZE remaining)))"
  by pat_completeness auto
termination
  by (relation "measure (\<lambda>(m, remaining). length remaining)") (auto simp: BUFFER_SIZE_def)

declare update_file_loop.simps [simp del]

definition update_file :: "md5 \<Rightarrow> bool \<Rightarrow> u8 list \<Rightarrow> md5 res" where
  "update_file m opened content = (if \<not> opened then Inr m else update_file_loop m content)"

definition MD5_file :: "md5 \<Rightarrow> bool \<Rightarrow> u8 list \<Rightarrow> md5 res" where
  "MD5_file raw opened content = update_file (reset raw) opened content"

end
