(* ===== verification/Md5_Correct.thy ===== *)
theory Md5_Correct
  imports Md5
begin

unbundle bit_operations_syntax

text \<open>
  Correctness of the MD5 object. The reference \<open>md5_spec\<close> is written from RFC 1321 and uses nothing of
  the code: it pads the whole message, compresses its 64-byte blocks with the loop over the tables
  of the RFC, and puts out the four words byte by byte; a digest of the test suite of the RFC is
  computed from it. \<open>absorbed msg m\<close> says that the object has taken in exactly \<open>msg\<close>. Every operation
  is shown against these two, the unrolled \<open>transform\<close> against the loop. The locale \<open>hash_stream\<close> is what a
  client of a streaming hash relies on.
\<close>

section \<open>Reference definitions\<close>

function blocks :: "u8 list \<Rightarrow> u8 list list" where
  "blocks xs = (if length xs < 64 then [] else take 64 xs # blocks (drop 64 xs))"
  by pat_completeness auto
termination
  by (relation "measure length") auto

declare blocks.simps [simp del]

definition md5_init :: abcd where
  "md5_init = (0x67452301, 0xefcdab89, 0x98badcfe, 0x10325476)"

definition whole :: "u8 list \<Rightarrow> u8 list" where
  "whole msg = take (64 * (length msg div 64)) msg"

definition rest :: "u8 list \<Rightarrow> u8 list" where
  "rest msg = drop (64 * (length msg div 64)) msg"

definition md5_padding :: "nat \<Rightarrow> u8 list" where
  "md5_padding n = 0x80 # replicate ((119 - n mod 64) mod 64) 0"

definition md5_length_field :: "nat \<Rightarrow> u8 list" where
  "md5_length_field n = le_bytes 8 (of_nat (8 * n) :: u64)"

definition md5_pad :: "u8 list \<Rightarrow> u8 list" where
  "md5_pad msg = (msg @ md5_padding (length msg)) @ md5_length_field (length msg)"

text \<open>
  The compression of RFC 1321: four rounds of sixteen steps. Step \<open>i\<close> mixes with the function of its
  round, takes the word \<open>i\<close>, \<open>5i+1\<close>, \<open>3i+5\<close> or \<open>7i\<close> modulo 16 of the block, rotates by the shift of the
  round and cycles the registers.
\<close>

definition md5_K :: "u32 list" where
  "md5_K =
    [0xd76aa478, 0xe8c7b756, 0x242070db, 0xc1bdceee, 0xf57c0faf, 0x4787c62a,
     0xa8304613, 0xfd469501, 0x698098d8, 0x8b44f7af, 0xffff5bb1, 0x895cd7be,
     0x6b901122, 0xfd987193, 0xa679438e, 0x49b40821, 0xf61e2562, 0xc040b340,
     0x265e5a51, 0xe9b6c7aa, 0xd62f105d, 0x2441453, 0xd8a1e681, 0xe7d3fbc8,
     0x21e1cde6, 0xc33707d6, 0xf4d50d87, 0x455a14ed, 0xa9e3e905, 0xfcefa3f8,
     0x676f02d9, 0x8d2a4c8a, 0xfffa3942, 0x8771f681, 0x6d9d6122, 0xfde5380c,
     0xa4beea44, 0x4bdecfa9, 0xf6bb4b60, 0xbebfbc70, 0x289b7ec6, 0xeaa127fa,
     0xd4ef3085, 0x4881d05, 0xd9d4d039, 0xe6db99e5, 0x1fa27cf8, 0xc4ac5665,
     0xf4292244, 0x432aff97, 0xab9423a7, 0xfc93a039, 0x655b59c3, 0x8f0ccc92,
     0xffeff47d, 0x85845dd1, 0x6fa87e4f, 0xfe2ce6e0, 0xa3014314, 0x4e0811a1,
     0xf7537e82, 0xbd3af235, 0x2ad7d2bb, 0xeb86d391]"

definition md5_S :: "nat list list" where
  "md5_S = [[7, 12, 17, 22], [5, 9, 14, 20], [4, 11, 16, 23], [6, 10, 15, 21]]"

definition ref_mix :: "nat \<Rightarrow> u32 \<Rightarrow> u32 \<Rightarrow> u32 \<Rightarrow> u32" where
  "ref_mix i x y z =
     (if i < 16 then (x AND y) OR (NOT x AND z)
      else if i < 32 then (x AND z) OR (y AND NOT z)
      else if i < 48 then x XOR y XOR z
      else y XOR (x OR NOT z))"

definition ref_word :: "nat \<Rightarrow> nat" where
  "ref_word i = (if i < 16 then i else if i < 32 then (5 * i + 1) mod 16
     else if i < 48 then (3 * i + 5) mod 16 else (7 * i) mod 16)"

fun ref_step :: "u32 list \<Rightarrow> nat \<Rightarrow> abcd \<Rightarrow> abcd" where
  "ref_step x i (a, b, c, d) =
     (d, b + word_rotl (md5_S ! (i div 16) ! (i mod 4)) (a + ref_mix i b c d + x ! ref_word i + md5_K ! i), b, c)"

definition block_words :: "u8 list \<Rightarrow> u32 list" where
  "block_words block = map (\<lambda>j. le_word (take 4 (drop (4 * j) block))) [0..<16]"

definition md5_compress :: "u8 list \<Rightarrow> abcd \<Rightarrow> abcd" where
  "md5_compress block state =
     (case (state, fold (ref_step (block_words block)) [0..<64] state) of
        ((a, b, c, d), (a', b', c', d')) \<Rightarrow> (a + a', b + b', c + c', d + d'))"

definition md5_spec :: "u8 list \<Rightarrow> u8 list" where
  "md5_spec msg =
     (case fold md5_compress (blocks (md5_pad msg)) md5_init of
        (a, b, c, d) \<Rightarrow> le_bytes 4 a @ le_bytes 4 b @ le_bytes 4 c @ le_bytes 4 d)"

definition hex_digit :: "nat \<Rightarrow> char" where
  "hex_digit n = char_of (if n < 10 then 48 + n else 87 + n)"

definition hex_string :: "u8 list \<Rightarrow> string" where
  "hex_string bs = concat (map (\<lambda>b. [hex_digit (unat b div 16), hex_digit (unat b mod 16)]) bs)"

definition absorbed :: "u8 list \<Rightarrow> md5 \<Rightarrow> bool" where
  "absorbed msg m \<longleftrightarrow>
     md_state m = fold transform (blocks msg) md5_init \<and>
     md_count0 m = of_nat (8 * length msg) \<and>
     md_count1 m = of_nat (8 * length msg div 2 ^ 32) \<and>
     length (md_buffer m) = 64 \<and>
     take (length msg mod 64) (md_buffer m) = rest msg"

definition after_final :: "u8 list \<Rightarrow> u8 list" where
  "after_final msg =
     (let r = length msg mod 64 in
      if r < 56 then msg
      else whole msg @ replicate 56 0 @ take (r - 56) (md5_length_field (length msg)))"

fun cycle :: "(u32 \<Rightarrow> u32 \<Rightarrow> u32 \<Rightarrow> u32 \<Rightarrow> u32) \<Rightarrow> abcd \<Rightarrow> abcd" where
  "cycle g (a, b, c, d) = (d, g a b c d, b, c)"

section \<open>Library lemmas\<close>

lemma blocks_short: "length xs < 64 \<Longrightarrow> blocks xs = []"
  by (simp add: blocks.simps)

lemma blocks_step: "64 \<le> length xs \<Longrightarrow> blocks xs = take 64 xs # blocks (drop 64 xs)"
  by (subst blocks.simps) simp

lemma blocks_append: "length ys = 64 * k \<Longrightarrow> blocks (ys @ zs) = blocks ys @ blocks zs"
proof (induction k arbitrary: ys)
  case 0
  then show ?case by (simp add: blocks_short)
next
  case (Suc k)
  then have "64 \<le> length ys" and "length (drop 64 ys) = 64 * k" by auto
  then show ?case
    using Suc.IH [of "drop 64 ys"] by (simp add: blocks_step [of "ys @ zs"] blocks_step [of ys])
qed

lemma length_rest: "length (rest msg) = length msg mod 64"
  by (simp add: rest_def minus_mult_div_eq_mod)

lemma whole_rest: "whole msg @ rest msg = msg"
  by (simp add: whole_def rest_def)

lemma length_whole: "length (whole msg) = 64 * (length msg div 64)"
  by (simp add: whole_def)

lemma blocks_whole_eq: "blocks (whole msg) = blocks msg"
  using blocks_append [OF length_whole, of msg "rest msg"]
  by (simp add: whole_rest blocks_short length_rest)

lemma blocks_whole: "blocks (msg @ xs) = blocks msg @ blocks (rest msg @ xs)"
proof -
  have "blocks (msg @ xs) = blocks (whole msg @ (rest msg @ xs))"
    by (simp only: append_assoc [symmetric] whole_rest)
  also have "\<dots> = blocks (whole msg) @ blocks (rest msg @ xs)"
    by (rule blocks_append, rule length_whole)
  also have "blocks (whole msg) = blocks msg" by (rule blocks_whole_eq)
  finally show ?thesis .
qed

lemma index_of_count:
  "unat (drop_bit 3 (of_nat (8 * n) :: u32) AND 0x3f) = n mod 64"
proof -
  have "(0x3f :: u32) = mask 6" by (simp add: mask_eq_exp_minus_1)
  then have "drop_bit 3 (of_nat (8 * n) :: u32) AND 0x3f = take_bit 6 (drop_bit 3 (of_nat (8 * n)))"
    by (simp add: take_bit_eq_mask)
  moreover have "unat (take_bit 6 (drop_bit 3 (of_nat (8 * n) :: u32))) = (8 * n mod 2 ^ 32 div 8) mod 64"
  proof -
    have "unat (take_bit 6 (drop_bit 3 w)) = take_bit 6 (drop_bit 3 (unat w))" for w :: u32
      by (simp add: unsigned_take_bit_eq unsigned_drop_bit_eq drop_bit_take_bit)
    then show ?thesis by (simp only: unat_of_nat) (simp add: take_bit_eq_mod drop_bit_eq_div)
  qed
  moreover have "(8 * n mod 2 ^ 32 div 8) mod 64 = n mod 64"
  proof -
    have "8 * n mod 2 ^ 32 = 8 * (n mod 2 ^ 29)" using mult_mod_right [of 8 n "2 ^ 29"] by simp
    then show ?thesis by (simp add: mod_mod_cancel)
  qed
  ultimately show ?thesis by simp
qed

lemma unat_ucast_32_64: "unat (ucast (w :: u32) :: u64) = unat w"
  by transfer simp

lemma nat_carry:
  fixes a b :: nat assumes "0 < m"
  shows "(a + b) div m = a div m + b div m + (if (a + b) mod m < b mod m then 1 else 0)"
proof -
  have "(a mod m + b mod m) div m = (if (a + b) mod m < b mod m then 1 else 0)"
  proof (cases "a mod m + b mod m < m")
    case True
    then show ?thesis by (metis add.commute add_leD1 div_less leD le_add2 mod_add_eq mod_less)
  next
    case False
    have "a mod m < m" "b mod m < m" using assms by auto
    then have "a mod m + b mod m - m < m" using False by linarith
    with False have q: "(a mod m + b mod m) div m = 1"
      and r: "(a mod m + b mod m) mod m = a mod m + b mod m - m"
      by (simp_all add: le_div_geq le_mod_geq)
    from r have "(a + b) mod m = a mod m + b mod m - m" by (simp add: mod_add_eq)
    with q \<open>a mod m < m\<close> False show ?thesis by simp
  qed
  then show ?thesis by (subst div_add1_eq) simp
qed

lemma count_carry:
  fixes L n :: nat
  assumes "n < 2 ^ 32"
  defines "c0 \<equiv> of_nat (8 * L) + push_bit 3 (of_nat n) :: u32"
  shows "c0 = of_nat (8 * (L + n))"
    and "(of_nat (8 * L div 2 ^ 32) :: u32) + (if c0 < push_bit 3 (of_nat n) then 1 else 0)
           + drop_bit 29 (of_nat n) = of_nat (8 * (L + n) div 2 ^ 32)"
proof -
  have pb: "push_bit 3 (of_nat n :: u32) = of_nat (8 * n)"
    by (simp add: push_bit_eq_mult)
  show c0: "c0 = of_nat (8 * (L + n))"
    by (simp add: c0_def pb algebra_simps)
  have less: "c0 < push_bit 3 (of_nat n) \<longleftrightarrow> (8 * L + 8 * n) mod 2 ^ 32 < 8 * n mod 2 ^ 32"
    unfolding c0 pb word_less_nat_alt unat_of_nat by (simp add: distrib_left)
  have "unat (drop_bit 29 (of_nat n :: u32)) = n div 2 ^ 29"
    unfolding unat_drop_bit_eq unat_of_nat using assms by (simp add: drop_bit_eq_div)
  then have d: "drop_bit 29 (of_nat n :: u32) = of_nat (8 * n div 2 ^ 32)"
    using assms by (simp add: word_unat_eq_iff unat_of_nat)
  show "(of_nat (8 * L div 2 ^ 32) :: u32) + (if c0 < push_bit 3 (of_nat n) then 1 else 0)
           + drop_bit 29 (of_nat n) = of_nat (8 * (L + n) div 2 ^ 32)"
    unfolding less d using nat_carry [of "2 ^ 32" "8 * L" "8 * n"]
    by (simp add: algebra_simps)
qed

lemma update_loop_blocks:
  assumes "k \<le> length input" "length input + 64 \<le> 2 ^ 32"
  shows "update_loop input (of_nat (length input)) (of_nat k) st =
     Some (Inr (of_nat (k + 64 * ((length input - k) div 64)), fold transform (blocks (drop k input)) st))"
  using assms
proof (induction "length input - k" arbitrary: k st rule: less_induct)
  case less
  have i: "unat (of_nat k :: u32) = k" using less.prems by (simp add: unat_of_nat)
  have "unat (of_nat k + 63 :: u32) = k + 63"
    using less.prems by (simp add: unat_word_ariths unat_of_nat)
  then have guard: "(ucast (of_nat k + 63 :: u32) :: u64) < of_nat (length input) \<longleftrightarrow> k + 64 \<le> length input"
    using less.prems by (auto simp: word_less_nat_alt unat_of_nat unat_ucast_32_64)
  show ?case
  proof (cases "k + 64 \<le> length input")
    case True
    have IH: "update_loop input (of_nat (length input)) (of_nat (k + 64)) st' =
      Some (Inr (of_nat (k + 64 + 64 * ((length input - (k + 64)) div 64)), fold transform (blocks (drop (k + 64) input)) st'))" for st'
      using True less by (intro less.hyps) auto
    have "(length input - k) div 64 = Suc ((length input - (k + 64)) div 64)"
      using True by (simp add: le_div_geq diff_diff_eq)
    then show ?thesis
      using True IH guard i
      by (subst update_loop.simps) (simp add: blocks_step [of "drop k input"] add.commute)
  next
    case False
    then show ?thesis
      using guard by (subst update_loop.simps) (simp add: blocks_short)
  qed
qed

lemma absorbed_index:
  "absorbed msg m \<Longrightarrow> drop_bit 3 (md_count0 m) AND 0x3f = of_nat (length msg mod 64)"
proof -
  assume "absorbed msg m"
  then have c0: "md_count0 m = of_nat (8 * length msg)" by (simp add: absorbed_def)
  show ?thesis unfolding c0 word_unat_eq_iff index_of_count unat_of_nat by simp
qed

lemma part_len:
  assumes "r < 64"
  shows "64 - of_nat r = (of_nat (64 - r) :: u32)" and "unat (of_nat (64 - r) :: u32) = 64 - r"
    and "unat (of_nat r :: u32) = r"
proof -
  show "64 - of_nat r = (of_nat (64 - r) :: u32)" using assms by (simp add: of_nat_diff)
  show "unat (of_nat (64 - r) :: u32) = 64 - r" unfolding unat_of_nat by simp
  show "unat (of_nat r :: u32) = r" using assms by (simp add: unat_of_nat)
qed

lemma part_guard:
  assumes "r < 64" "n < 2 ^ 64"
  shows "ucast (of_nat (64 - r) :: u32) \<le> (of_nat n :: u64) \<longleftrightarrow> 64 - r \<le> n"
  unfolding word_le_nat_alt unat_ucast_32_64 part_len(2) [OF assms(1)] unat_of_nat
  using assms by simp

lemma ucast_len32: "n < 2 ^ 64 \<Longrightarrow> (ucast (of_nat n :: u64) :: u32) = of_nat n"
  by (simp add: unsigned_of_nat take_bit_nat_eq_self)

lemma update_short:
  assumes ab: "absorbed msg m" and fits: "length msg mod 64 + length xs < 64"
  shows "update m xs = Inr (m\<lparr>md_finished := False,
      md_count0 := of_nat (8 * length (msg @ xs)),
      md_count1 := of_nat (8 * length (msg @ xs) div 2 ^ 32),
      md_buffer := rest msg @ xs @ drop (length msg mod 64 + length xs) (md_buffer m)\<rparr>)"
proof -
  define r where "r = length msg mod 64"
  have r: "r < 64" and n: "length xs < 2 ^ 64" "length xs < 2 ^ 32" and ng: "\<not> 64 - r \<le> length xs"
    using fits by (auto simp: r_def)
  have ul: "unat (of_nat (length xs) :: u64) = length xs" using n by (simp add: unat_of_nat)
  note cc = count_carry [OF n(2), of "length msg"]
  show ?thesis
    using ab fits cc ng
    unfolding update_def Let_def ucast_len32 [OF n(1)] absorbed_index [OF ab] r_def [symmetric]
      part_len(1) [OF r] part_guard [OF r n(1)]
    by (simp add: absorbed_def r_def [symmetric] part_len(3) [OF r] ul poke_ok)
qed

lemma whole_blocks_bound:
  fixes p n :: nat
  assumes "p \<le> n"
  shows "p + 64 * ((n - p) div 64) \<le> n" and "n - (p + 64 * ((n - p) div 64)) = (n - p) mod 64"
proof -
  have "64 * ((n - p) div 64) + (n - p) mod 64 = n - p" by simp
  with assms show "p + 64 * ((n - p) div 64) \<le> n"
    and "n - (p + 64 * ((n - p) div 64)) = (n - p) mod 64" by linarith+
qed

lemma update_long:
  assumes ab: "absorbed msg m" and fits: "64 \<le> length msg mod 64 + length xs"
    and len: "length xs + 64 \<le> 2 ^ 32"
  defines "k \<equiv> 64 - length msg mod 64 + 64 * ((length xs - (64 - length msg mod 64)) div 64)"
  shows "update m xs = Inr (m\<lparr>md_finished := False,
      md_count0 := of_nat (8 * length (msg @ xs)),
      md_count1 := of_nat (8 * length (msg @ xs) div 2 ^ 32),
      md_buffer := drop k xs @
        drop (length xs - k) (rest msg @ take (64 - length msg mod 64) xs),
      md_state := fold transform (blocks (rest msg @ xs)) (md_state m)\<rparr>)"
proof -
  define r where "r = length msg mod 64"
  define n where "n = length xs"
  have r: "r < 64" and n: "n < 2 ^ 64" "n < 2 ^ 32" and g: "64 - r \<le> n"
    using fits len by (auto simp: r_def n_def)
  have ul: "unat (of_nat n :: u64) = n" using n by (simp add: unat_of_nat)
  have k: "k \<le> n" "n - k < 64"
    unfolding k_def r_def [symmetric] n_def [symmetric] whole_blocks_bound(2) [OF g]
    by (rule whole_blocks_bound(1) [OF g], rule mod_less_divisor, simp)
  then have "k < 2 ^ 32" using n(2) by simp
  then have uk: "unat (of_nat k :: u32) = k" by (simp add: unat_of_nat)
  have dk: "unat (of_nat n - ucast (of_nat k :: u32) :: u64) = n - k"
  proof -
    have "ucast (of_nat k :: u32) \<le> (of_nat n :: u64)"
      unfolding word_le_nat_alt unat_ucast_32_64 uk ul by (rule k(1))
    from unat_sub [OF this] show ?thesis unfolding unat_ucast_32_64 uk ul .
  qed
  have buf: "length (md_buffer m) = 64" "take r (md_buffer m) = rest msg"
    using ab by (auto simp: absorbed_def r_def)
  have p1: "poke (md_buffer m) r (take (64 - r) xs) = Inr (rest msg @ take (64 - r) xs)"
    using g r buf by (simp add: poke_ok n_def)
  have full: "length (rest msg @ take (64 - r) xs) = 64"
    using g r by (simp add: length_rest n_def r_def)
  have blk: "blocks (rest msg @ xs) = (rest msg @ take (64 - r) xs) # blocks (drop (64 - r) xs)"
    using g r by (subst blocks_step) (simp_all add: length_rest n_def r_def)
  have loop: "update_blocks xs (of_nat n) (of_nat (64 - r)) st =
      Inr (of_nat k, fold transform (blocks (drop (64 - r) xs)) st)" for st
    using update_loop_blocks [of "64 - r" xs st] g len
    by (simp add: update_blocks_def n_def k_def r_def)
  have p2: "poke (rest msg @ take (64 - r) xs) 0 (take (n - k) (drop k xs)) =
      Inr (drop k xs @ drop (n - k) (rest msg @ take (64 - r) xs))"
    using k full by (subst poke_ok) (simp_all add: n_def)
  note cc = count_carry [OF n(2), of "length msg"]
  show ?thesis
    using ab cc g
    unfolding length_append update_def Let_def n_def [symmetric] ucast_len32 [OF n(1)] absorbed_index [OF ab]
      r_def [symmetric] part_len(1) [OF r] part_guard [OF r n(1)] part_len(2,3) [OF r]
    by (simp add: p1 loop uk dk p2 blk absorbed_def del: drop_append)
qed

lemma restI:
  assumes "msg = ys @ zs" "length ys = 64 * q" "length zs < 64"
  shows "rest msg = zs"
proof -
  have "length msg div 64 = q" using assms by simp
  then show ?thesis using assms by (simp add: rest_def)
qed

lemma rest_append_short:
  assumes "length msg mod 64 + length xs < 64"
  shows "rest (msg @ xs) = rest msg @ xs"
proof (rule restI)
  show "msg @ xs = whole msg @ rest msg @ xs"
    by (simp only: append_assoc [symmetric] whole_rest)
qed (use assms in \<open>simp_all add: length_whole length_rest\<close>)

lemma rest_append_long:
  assumes "64 \<le> length msg mod 64 + length xs"
  shows "rest (msg @ xs) =
    drop (64 - length msg mod 64 + 64 * ((length xs - (64 - length msg mod 64)) div 64)) xs"
    (is "_ = drop ?k xs")
proof (rule restI)
  have g: "64 - length msg mod 64 \<le> length xs" using assms by simp
  note k = whole_blocks_bound [OF g]
  show "msg @ xs = (msg @ take ?k xs) @ drop ?k xs" by simp
  show "length (drop ?k xs) < 64" unfolding length_drop k(2) by simp
  have "length (msg @ take ?k xs) = length msg + ?k" using k(1) by simp
  also have "\<dots> = 64 * (length msg div 64 + 1 + (length xs - (64 - length msg mod 64)) div 64)"
  proof -
    have "length msg = 64 * (length msg div 64) + length msg mod 64" by simp
    moreover have "length msg mod 64 + (64 - length msg mod 64) = 64" by (simp add: less_imp_le)
    ultimately show ?thesis unfolding distrib_left by linarith
  qed
  finally show "length (msg @ take ?k xs) = \<dots>" .
qed

lemma absorbedI:
  assumes "md_state m = fold transform (blocks msg) md5_init"
    and "md_count0 m = of_nat (8 * length msg)" "md_count1 m = of_nat (8 * length msg div 2 ^ 32)"
    and "md_buffer m = rest msg @ buf" "length (rest msg @ buf) = 64"
  shows "absorbed msg m"
proof -
  have "take (length (rest msg)) (md_buffer m) = rest msg" using assms(4) by simp
  then show ?thesis
    using assms unfolding absorbed_def length_rest by simp
qed

lemma update_absorbs:
  assumes ab: "absorbed msg m" and len: "length xs + 64 \<le> 2 ^ 32"
  obtains m' where "update m xs = Inr m'" "absorbed (msg @ xs) m'" "\<not> md_finished m'"
proof (cases "length msg mod 64 + length xs < 64")
  case True
  let ?buf = "drop (length msg mod 64 + length xs) (md_buffer m)"
  let ?m = "m\<lparr>md_finished := False, md_count0 := of_nat (8 * length (msg @ xs)),
      md_count1 := of_nat (8 * length (msg @ xs) div 2 ^ 32),
      md_buffer := rest msg @ xs @ ?buf\<rparr>"
  have "absorbed (msg @ xs) ?m"
  proof (rule absorbedI)
    show "md_state ?m = fold transform (blocks (msg @ xs)) md5_init"
      using ab True by (subst blocks_whole) (simp add: absorbed_def blocks_short length_rest)
    show "md_buffer ?m = rest (msg @ xs) @ ?buf" using True by (simp add: rest_append_short)
    show "length (rest (msg @ xs) @ ?buf) = 64"
      using ab True unfolding rest_append_short [OF True] length_append length_drop length_rest
        absorbed_def by linarith
  qed simp_all
  then show thesis by (rule that [OF update_short [OF ab True]]) simp
next
  case False
  then have long: "64 \<le> length msg mod 64 + length xs" by simp
  let ?k = "64 - length msg mod 64 + 64 * ((length xs - (64 - length msg mod 64)) div 64)"
  have k: "?k \<le> length xs" using whole_blocks_bound(1) long by simp
  let ?buf = "drop (length xs - ?k) (rest msg @ take (64 - length msg mod 64) xs)"
  let ?m = "m\<lparr>md_finished := False, md_count0 := of_nat (8 * length (msg @ xs)),
      md_count1 := of_nat (8 * length (msg @ xs) div 2 ^ 32), md_buffer := drop ?k xs @ ?buf,
      md_state := fold transform (blocks (rest msg @ xs)) (md_state m)\<rparr>"
  have full: "length (rest msg @ take (64 - length msg mod 64) xs) = 64"
    using long by (simp add: length_rest)
  have "absorbed (msg @ xs) ?m"
  proof (rule absorbedI)
    show "md_state ?m = fold transform (blocks (msg @ xs)) md5_init"
      using ab by (subst blocks_whole) (simp add: absorbed_def)
    show "md_buffer ?m = rest (msg @ xs) @ ?buf"
      by (simp only: rest_append_long [OF long]) simp
    have "length (rest (msg @ xs)) < 64" by (simp add: length_rest)
    moreover have "length (rest (msg @ xs)) = length xs - ?k"
      by (simp only: rest_append_long [OF long] length_drop)
    moreover have "length ?buf = 64 - (length xs - ?k)" by (simp only: length_drop full)
    ultimately show "length (rest (msg @ xs) @ ?buf) = 64"
      unfolding length_append by (metis less_imp_le le_add_diff_inverse)
  qed simp_all
  then show thesis by (rule that [OF update_long [OF ab long len]]) simp
qed

lemma encode_eq: "encode ws = concat (map (le_bytes 4) ws)"
proof -
  have "(ucast (w AND 0xff) :: u8) = ucast w" for w :: u32
  proof -
    have "(0xff :: u32) = mask 8" by (simp add: mask_eq_exp_minus_1)
    then have "w AND 0xff = take_bit 8 w" by (simp add: take_bit_eq_mask)
    then show ?thesis by (simp add: low_byte_take_bit)
  qed
  moreover have "le_bytes 4 = (\<lambda>w :: u32. [ucast w, ucast (drop_bit 8 w), ucast (drop_bit 16 w),
      ucast (drop_bit 24 w)])"
    by (rule ext) (simp add: numeral_eq_Suc drop_bit_drop_bit)
  ultimately show ?thesis by (simp add: encode_def)
qed

lemma cycle4: "cycle g4 (cycle g3 (cycle g2 (cycle g1 s))) = on_b g4 (on_c g3 (on_d g2 (on_a g1 s)))"
  by (cases s) simp

lemma ROTATE_LEFT_rotl:
  assumes "0 < n" "n < 32"
  shows "ROTATE_LEFT x n = word_rotl n x"
proof (rule bit_word_eqI)
  fix j :: nat
  assume "j < LENGTH(32)"
  then have j: "j < 32" by simp
  have "n mod 32 = n" using assms by simp
  then have rot: "bit (word_rotl n x) j \<longleftrightarrow> bit x ((j + (32 - n)) mod 32)"
    using j by (simp add: bit_word_rotl_iff)
  have left: "bit (ROTATE_LEFT x n) j \<longleftrightarrow> n \<le> j \<and> bit x (j - n) \<or> bit x (32 - n + j)"
    using j by (auto simp: ROTATE_LEFT_def bit_simps)
  show "bit (ROTATE_LEFT x n) j \<longleftrightarrow> bit (word_rotl n x) j"
  proof (cases "j < n")
    case True
    then have "(j + (32 - n)) mod 32 = 32 - n + j" using assms j by simp
    then show ?thesis unfolding rot left using True by simp
  next
    case False
    then have "(j + (32 - n)) mod 32 = j - n" using assms j by (simp add: mod_if)
    moreover have "\<not> bit x (32 - n + j)" using False assms by (auto dest: bit_imp_le_length)
    ultimately show ?thesis unfolding rot left using False by simp
  qed
qed

lemma md5_S_shift: "i < 64 \<Longrightarrow> 0 < md5_S ! (i div 16) ! (i mod 4) \<and> md5_S ! (i div 16) ! (i mod 4) < 32"
proof -
  assume "i < 64"
  then have "i div 16 \<in> {0, 1, 2, 3}" "i mod 4 \<in> {0, 1, 2, 3}" by auto
  then show ?thesis by (auto simp: md5_S_def)
qed

lemma ref_step_cycle:
  "i < 64 \<Longrightarrow> ref_step x i = cycle (\<lambda>a b c d. ROTATE_LEFT (a + (ref_mix i b c d + x ! ref_word i + md5_K ! i))
     (md5_S ! (i div 16) ! (i mod 4)) + b)"
  by (rule ext) (auto simp: ac_simps ROTATE_LEFT_rotl md5_S_shift)

lemma ref_step_round:
  "i < 16 \<Longrightarrow> ref_step x i = cycle (FF (x ! i) (md5_S ! 0 ! (i mod 4)) (md5_K ! i))"
  "16 \<le> i \<Longrightarrow> i < 32 \<Longrightarrow>
     ref_step x i = cycle (GG (x ! ((5 * i + 1) mod 16)) (md5_S ! 1 ! (i mod 4)) (md5_K ! i))"
  "32 \<le> i \<Longrightarrow> i < 48 \<Longrightarrow>
     ref_step x i = cycle (HH (x ! ((3 * i + 5) mod 16)) (md5_S ! 2 ! (i mod 4)) (md5_K ! i))"
  "48 \<le> i \<Longrightarrow> i < 64 \<Longrightarrow>
     ref_step x i = cycle (II (x ! ((7 * i) mod 16)) (md5_S ! 3 ! (i mod 4)) (md5_K ! i))"
proof -
  have div: "16 \<le> i \<Longrightarrow> i < 32 \<Longrightarrow> i div 16 = 1" "32 \<le> i \<Longrightarrow> i < 48 \<Longrightarrow> i div 16 = 2"
    "48 \<le> i \<Longrightarrow> i < 64 \<Longrightarrow> i div 16 = 3" by arith+
  show "i < 16 \<Longrightarrow> ref_step x i = cycle (FF (x ! i) (md5_S ! 0 ! (i mod 4)) (md5_K ! i))"
    by (simp add: ref_step_cycle ref_mix_def ref_word_def FF_def [abs_def] F_def)
  show "16 \<le> i \<Longrightarrow> i < 32 \<Longrightarrow>
     ref_step x i = cycle (GG (x ! ((5 * i + 1) mod 16)) (md5_S ! 1 ! (i mod 4)) (md5_K ! i))"
    by (simp add: ref_step_cycle ref_mix_def ref_word_def GG_def [abs_def] G_def div(1))
  show "32 \<le> i \<Longrightarrow> i < 48 \<Longrightarrow>
     ref_step x i = cycle (HH (x ! ((3 * i + 5) mod 16)) (md5_S ! 2 ! (i mod 4)) (md5_K ! i))"
    by (simp add: ref_step_cycle ref_mix_def ref_word_def HH_def [abs_def] H_def div(2))
  show "48 \<le> i \<Longrightarrow> i < 64 \<Longrightarrow>
     ref_step x i = cycle (II (x ! ((7 * i) mod 16)) (md5_S ! 3 ! (i mod 4)) (md5_K ! i))"
    by (simp add: ref_step_cycle ref_mix_def ref_word_def II_def [abs_def] I_def div(3))
qed

lemmas shift_defs = S11_def S12_def S13_def S14_def S21_def S22_def S23_def S24_def
  S31_def S32_def S33_def S34_def S41_def S42_def S43_def S44_def

lemma upt_rounds:
  "[0..<16] = [0, 1, 2, 3, 4, 5, 6, 7, 8, 9, 10, 11, 12, 13, 14, 15 :: nat]"
  "[16..<32] = [16, 17, 18, 19, 20, 21, 22, 23, 24, 25, 26, 27, 28, 29, 30, 31 :: nat]"
  "[32..<48] = [32, 33, 34, 35, 36, 37, 38, 39, 40, 41, 42, 43, 44, 45, 46, 47 :: nat]"
  "[48..<64] = [48, 49, 50, 51, 52, 53, 54, 55, 56, 57, 58, 59, 60, 61, 62, 63 :: nat]"
  by (simp_all add: upt_conv_Cons)

lemma upt_64: "[0..<64] = [0..<16] @ [16..<32] @ [32..<48] @ [48..<64 :: nat]"
  using upt_add_eq_append [of 0 16 48] upt_add_eq_append [of 16 32 32]
    upt_add_eq_append [of 32 48 16] by simp

lemma rounds_ref:
  "fold (\<lambda>stmt. stmt) (round1 x) s = fold (ref_step x) [0..<16] s"
  "fold (\<lambda>stmt. stmt) (round2 x) s = fold (ref_step x) [16..<32] s"
  "fold (\<lambda>stmt. stmt) (round3 x) s = fold (ref_step x) [32..<48] s"
  "fold (\<lambda>stmt. stmt) (round4 x) s = fold (ref_step x) [48..<64] s"
  by (simp_all add: upt_rounds round1_def round2_def round3_def round4_def ref_step_round
      shift_defs md5_S_def md5_K_def cycle4 del: One_nat_def)

lemma transform_ref:
  "transform block state = add_abcd state (fold (ref_step (decode block)) [0..<64] state)"
proof -
  show ?thesis
    by (simp only: transform_def Let_def upt_64 fold_append o_apply rounds_ref)
qed

lemma decode_block_words:
  assumes "length block = 64"
  shows "decode block = block_words block"
proof -
  have four: "take 4 (drop n xs) = [xs ! n, xs ! (n + 1), xs ! (n + 2), xs ! (n + 3)]"
    if "n + 4 \<le> length xs" for n and xs :: "u8 list"
    using that by (intro nth_equalityI) (auto simp: less_Suc_eq numeral_eq_Suc)
  have "(ucast (block ! (4 * i)) :: u32) OR push_bit 8 (ucast (block ! (4 * i + 1)))
      OR push_bit 16 (ucast (block ! (4 * i + 2))) OR push_bit 24 (ucast (block ! (4 * i + 3))) =
    le_word (take 4 (drop (4 * i) block))" if "i < 16" for i
    using that assms by (subst four) (simp_all add: push_bit_or push_bit_push_bit or.assoc)
  then show ?thesis using assms by (simp add: decode_def block_words_def Let_def)
qed

lemma transform_compress: "length block = 64 \<Longrightarrow> transform block state = md5_compress block state"
  by (cases state) (simp add: transform_ref md5_compress_def decode_block_words split: prod.splits)

lemma blocks_64: "block \<in> set (blocks xs) \<Longrightarrow> length block = 64"
proof (induction xs rule: blocks.induct)
  case (1 xs)
  then show ?case by (cases "length xs < 64") (auto simp: blocks_short blocks_step)
qed

lemma md5_spec_transform: "md5_spec msg = encode (abcd_list (fold transform (blocks (md5_pad msg)) md5_init))"
proof -
  have "fold transform (blocks (md5_pad msg)) md5_init = fold md5_compress (blocks (md5_pad msg)) md5_init"
    by (rule fold_cong) (auto dest: blocks_64 intro!: ext transform_compress)
  then show ?thesis by (simp add: md5_spec_def encode_eq split: prod.splits)
qed

lemma length_md5_spec [simp]: "length (md5_spec msg) = 16"
  by (simp add: md5_spec_def split: prod.splits)

lemma le_bytes_8_split:
  "le_bytes 8 (w :: u64) = le_bytes 4 (ucast w :: u32) @ le_bytes 4 (ucast (drop_bit 32 w) :: u32)"
proof -
  have low: "(ucast (drop_bit k (ucast w :: u32)) :: u8) = ucast (drop_bit k w)" if "k + 8 \<le> 32" for k and w :: u64
    using that by (intro bit_word_eqI) (auto simp: bit_simps)
  have "le_bytes 8 w = map (\<lambda>k. ucast (drop_bit k w)) [0, 8, 16, 24, 32, 40, 48, 56]"
    by (simp add: numeral_eq_Suc drop_bit_drop_bit)
  moreover have "le_bytes 4 v = map (\<lambda>k. ucast (drop_bit k v)) [0, 8, 16, 24]" for v :: u32
    by (simp add: numeral_eq_Suc drop_bit_drop_bit)
  ultimately show ?thesis using low [of 0] by (simp add: low drop_bit_drop_bit)
qed

lemma encode_count:
  "encode [of_nat n, of_nat (n div 2 ^ 32)] = le_bytes 8 (of_nat n :: u64)"
proof -
  have "(ucast (of_nat n :: u64) :: u32) = of_nat n"
    by (intro bit_word_eqI) (simp add: bit_simps)
  moreover have "(ucast (drop_bit 32 (of_nat n :: u64)) :: u32) = of_nat (n div 2 ^ 32)"
    unfolding drop_bit_eq_div [symmetric] by (intro bit_word_eqI) (simp add: bit_simps)
  ultimately show ?thesis by (simp add: le_bytes_8_split encode_eq)
qed

lemma pad_bytes:
  assumes "r < 64"
  defines "padLen \<equiv> (if (of_nat r :: u32) < 56 then 56 - of_nat r else 120 - of_nat r :: u32)"
  shows "take (unat padLen) PADDING = 0x80 # replicate ((119 - r) mod 64) 0"
proof -
  have less: "(of_nat r :: u32) < 56 \<longleftrightarrow> r < 56"
    using assms(1) by (simp add: word_less_nat_alt unat_of_nat)
  have "unat padLen = Suc ((119 - r) mod 64)"
  proof (cases "r < 56")
    case True
    then have "padLen = of_nat (56 - r)" by (simp add: padLen_def less of_nat_diff)
    then have "unat padLen = 56 - r" by (simp only: unat_of_nat) simp
    moreover have "(119 - r) mod 64 = 55 - r" using True by (simp add: le_mod_geq)
    ultimately show ?thesis using True by simp
  next
    case False
    then have "padLen = of_nat (120 - r)" using assms(1) by (simp add: padLen_def less of_nat_diff)
    then have "unat padLen = 120 - r" by (simp only: unat_of_nat) simp
    then show ?thesis using False assms(1) by simp
  qed
  then show ?thesis by (simp add: PADDING_def min_def)
qed

lemma final_unfold:
  assumes ab: "absorbed msg m"
  shows "final m = andThen (update m (md5_padding (length msg))) (\<lambda>m1.
     andThen (update m1 (md5_length_field (length msg))) (\<lambda>m2.
     Inr (m2\<lparr>md_digest := encode (abcd_list (md_state m2)), md_state := md_state m,
       md_count0 := md_count0 m, md_count1 := md_count1 m\<rparr>)))"
proof -
  have "encode [md_count0 m, md_count1 m] = md5_length_field (length msg)"
    using ab encode_count [of "8 * length msg"] by (simp add: absorbed_def md5_length_field_def)
  then show ?thesis
    unfolding final_def Let_def absorbed_index [OF ab] md5_padding_def
    by (subst pad_bytes) simp_all
qed

lemma short_fields:
  "length (md5_padding n) + 64 \<le> 2 ^ 32" "length (md5_length_field n) + 64 \<le> 2 ^ 32"
  by (simp_all add: md5_padding_def md5_length_field_def less_imp_le)

lemma final_digest:
  assumes ab: "absorbed msg m"
  obtains m' where "final m = Inr m'" "md_digest m' = md5_spec msg" "\<not> md_finished m'"
proof -
  let ?n = "length msg"
  obtain m1 where m1: "update m (md5_padding ?n) = Inr m1" "absorbed (msg @ md5_padding ?n) m1"
    using update_absorbs [OF ab short_fields(1)] by blast
  obtain m2 where m2: "update m1 (md5_length_field ?n) = Inr m2" "absorbed (md5_pad msg) m2"
      "\<not> md_finished m2"
    using update_absorbs [OF m1(2) short_fields(2)] unfolding md5_pad_def by blast
  let ?m = "m2\<lparr>md_digest := encode (abcd_list (md_state m2)), md_state := md_state m,
      md_count0 := md_count0 m, md_count1 := md_count1 m\<rparr>"
  have "final m = Inr ?m" by (simp add: final_unfold [OF ab] m1(1) m2(1))
  moreover have "md_digest ?m = md5_spec msg" using m2(2) by (simp add: md5_spec_transform absorbed_def)
  moreover have "\<not> md_finished ?m" using m2(3) by simp
  ultimately show thesis by (rule that)
qed

lemma length_padding: "length (md5_padding n) = (if n mod 64 < 56 then 56 - n mod 64 else 120 - n mod 64)"
proof -
  have "n mod 64 < 64" by simp
  then have "(119 - n mod 64) mod 64 = (if n mod 64 < 56 then 55 - n mod 64 else 119 - n mod 64)"
    by (auto simp: le_mod_geq)
  then show ?thesis using \<open>n mod 64 < 64\<close> by (simp add: md5_padding_def) arith
qed

lemma rest_padding:
  "rest (msg @ md5_padding (length msg)) =
     (if length msg mod 64 < 56 then rest msg @ md5_padding (length msg) else replicate 56 0)"
proof (cases "length msg mod 64 < 56")
  case True
  then show ?thesis by (simp add: rest_append_short length_padding)
next
  case False
  define r where "r = length msg mod 64"
  have r: "\<not> r < 56" "r < 64" using False by (simp_all add: r_def)
  then have pad: "md5_padding (length msg) = 0x80 # replicate (119 - r) 0"
    by (simp add: md5_padding_def r_def)
  have "64 - r + 64 * ((120 - r - (64 - r)) div 64) = Suc (63 - r)" using r by simp
  then have "rest (msg @ md5_padding (length msg)) = drop (Suc (63 - r)) (0x80 # replicate (119 - r) 0)"
    using r by (subst rest_append_long) (simp_all add: length_padding r_def pad Suc_diff_le)
  then show ?thesis using r False by (simp add: r_def)
qed

lemma length_mod_padded: "length (msg @ md5_padding (length msg)) mod 64 = 56"
  unfolding length_rest [symmetric] rest_padding
  by (simp add: length_rest length_padding)

lemma final_buffer:
  assumes ab: "absorbed msg m" and f: "final m = Inr m'"
  shows "md_buffer m' = rest (msg @ md5_padding (length msg)) @ md5_length_field (length msg)"
    and "md_state m' = md_state m" "md_count0 m' = md_count0 m" "md_count1 m' = md_count1 m"
proof -
  let ?n = "length msg" and ?M = "msg @ md5_padding (length msg)"
  obtain m1 where m1: "update m (md5_padding ?n) = Inr m1" "absorbed ?M m1"
    using update_absorbs [OF ab short_fields(1)] by blast
  have f8: "length (md5_length_field ?n) = 8" by (simp add: md5_length_field_def)
  have "64 \<le> length ?M mod 64 + length (md5_length_field ?n)"
    unfolding length_mod_padded f8 by simp
  note up = update_long [OF m1(2) this short_fields(2), unfolded length_mod_padded f8]
  show "md_buffer m' = rest ?M @ md5_length_field ?n"
    and "md_state m' = md_state m" "md_count0 m' = md_count0 m" "md_count1 m' = md_count1 m"
    using f unfolding final_unfold [OF ab] m1(1) andThen.simps up by (auto simp: f8)
qed

lemma final_absorbed:
  assumes ab: "absorbed msg m" and f: "final m = Inr m'"
  shows "absorbed (after_final msg) m'"
proof (cases "length msg mod 64 < 56")
  case True
  let ?buf = "md5_padding (length msg) @ md5_length_field (length msg)"
  have "md_buffer m' = rest msg @ ?buf"
    using final_buffer(1) [OF ab f] True by (simp add: rest_padding)
  moreover have "length (rest msg @ ?buf) = 64"
    using True by (simp add: length_rest length_padding md5_length_field_def)
  ultimately have "absorbed msg m'"
    using ab final_buffer(2-4) [OF ab f] by (intro absorbedI) (auto simp: absorbed_def)
  then show ?thesis using True by (simp add: after_final_def)
next
  case False
  let ?f = "md5_length_field (length msg)"
  define r where "r = length msg mod 64"
  define T where "T = replicate 56 0 @ take (r - 56) ?f"
  have r: "56 \<le> r" "r < 64" using False by (simp_all add: r_def)
  have len_f: "length ?f = 8" by (simp add: md5_length_field_def)
  have len_T: "length T = r" using r by (simp add: T_def len_f)
  have after: "after_final msg = whole msg @ T"
    using False by (simp add: after_final_def T_def r_def)
  have len: "length (after_final msg) = length msg"
    unfolding after length_append length_whole len_T r_def by simp
  have rest: "rest (after_final msg) = T"
    using after length_whole len_T r(2) by (intro restI) simp_all
  have blk: "blocks (after_final msg) = blocks msg"
    unfolding after using len_T r(2)
    by (simp add: blocks_append [OF length_whole] blocks_short blocks_whole_eq)
  show ?thesis
  proof (rule absorbedI)
    show "md_buffer m' = rest (after_final msg) @ drop (r - 56) ?f"
      using final_buffer(1) [OF ab f] False by (simp add: rest_padding rest T_def)
    show "length (rest (after_final msg) @ drop (r - 56) ?f) = 64"
      using r by (simp add: rest len_T len_f)
  qed (use ab final_buffer(2-4) [OF ab f] in \<open>simp_all add: blk len absorbed_def\<close>)
qed

section \<open>A streaming hash, as its clients see it\<close>

locale hash_stream =
  fixes upd :: "'s \<Rightarrow> u8 list \<Rightarrow> 's res"
    and holds :: "u8 list \<Rightarrow> 's \<Rightarrow> bool"
    and limit :: nat
  assumes upd_holds: "holds msg s \<Longrightarrow> length xs \<le> limit \<Longrightarrow>
    \<exists>s'. upd s xs = Inr s' \<and> holds (msg @ xs) s'"
begin

lemma upd_chunks:
  assumes "holds msg s" "\<And>c. c \<in> set chunks \<Longrightarrow> length c \<le> limit"
  shows "\<exists>s'. foldRes (\<lambda>c s. upd s c) chunks s = Inr s' \<and> holds (msg @ concat chunks) s'"
  using assms
proof (induction chunks arbitrary: msg s)
  case Nil
  then show ?case by simp
next
  case (Cons c chunks)
  then obtain s' where s': "upd s c = Inr s'" "holds (msg @ c) s'"
    using upd_holds [of msg s c] by auto
  with Cons.IH [of "msg @ c" s'] Cons.prems(2) show ?case by simp
qed

end

interpretation md5s: hash_stream update absorbed "2 ^ 32 - 64"
proof
  fix msg m xs
  assume "absorbed msg m" "length (xs :: u8 list) \<le> 2 ^ 32 - 64"
  moreover from this(2) have "length xs + 64 \<le> 2 ^ 32" by simp
  ultimately show "\<exists>m'. update m xs = Inr m' \<and> absorbed (msg @ xs) m'"
    by (metis update_absorbs)
qed

lemma absorbed_reset: "length (md_buffer raw) = 64 \<Longrightarrow> absorbed [] (reset raw)"
  by (simp add: absorbed_def reset_def md5_init_def blocks_short rest_def)

lemma update_file_loop_absorbs:
  "absorbed msg m \<Longrightarrow> \<exists>m'. update_file_loop m content = Inr m' \<and> absorbed (msg @ content) m'"
proof (induction m content arbitrary: msg rule: update_file_loop.induct)
  case (1 m content)
  let ?chunk = "take BUFFER_SIZE content"
  have "\<exists>m'. (if 0 < length ?chunk then update m ?chunk else Inr m) = Inr m' \<and> absorbed (msg @ ?chunk) m'"
    using "1.prems" md5s.upd_holds [of msg m ?chunk] by (auto simp: BUFFER_SIZE_def)
  then obtain m' where m': "(if 0 < length ?chunk then update m ?chunk else Inr m) = Inr m'"
    "absorbed (msg @ ?chunk) m'" by blast
  show ?case
  proof (cases "length ?chunk < BUFFER_SIZE")
    case True
    then have "?chunk = content" by simp
    with True m'(2) show ?thesis
      unfolding update_file_loop.simps [of m content] Let_def m'(1) by simp
  next
    case False
    with "1.IH" [OF refl refl _ m'(2)]
    have "\<exists>m''. update_file_loop m' (drop BUFFER_SIZE content) = Inr m'' \<and> absorbed (msg @ content) m''"
      by simp
    with False show ?thesis
      unfolding update_file_loop.simps [of m content] Let_def m'(1) by simp
  qed
qed

lemma digest_absorbed:
  assumes "absorbed msg m" "\<not> md_finished m"
  obtains m' where "digest m = Inr (md5_spec msg, m')" "absorbed (after_final msg) m'"
    "\<not> md_finished m'"
proof -
  have ab: "absorbed msg (m\<lparr>md_finished := True\<rparr>)" using assms(1) by (simp add: absorbed_def)
  obtain m' where m': "final (m\<lparr>md_finished := True\<rparr>) = Inr m'" "md_digest m' = md5_spec msg"
      "\<not> md_finished m'"
    by (rule final_digest [OF ab])
  show thesis
    by (rule that [of m'])
      (use m' assms(2) final_absorbed [OF ab m'(1)] in \<open>simp_all add: digest_def\<close>)
qed

section \<open>Hexadecimal output\<close>

lemma HEX_chars: "n < 16 \<Longrightarrow> HEX ! n \<in> set HEX"
  by (rule nth_mem) (simp add: HEX_def)

lemma distinct_HEX: "distinct HEX"
  by (simp add: HEX_def)

lemma length_bytesToHexString [simp]: "length (bytesToHexString bs) = 2 * length bs"
  by (induction bs) (simp_all add: bytesToHexString_def)

lemma set_bytesToHexString: "set (bytesToHexString bs) \<subseteq> set HEX"
proof -
  have "unat (b :: u8) div 16 < 16" for b
    using unsigned_less [of b, where ?'a = nat] by simp
  then show ?thesis by (auto simp: bytesToHexString_def intro: HEX_chars)
qed

lemma bytesToHexString_inject: "bytesToHexString xs = bytesToHexString ys \<longleftrightarrow> xs = ys"
proof (induction xs arbitrary: ys)
  case Nil
  show ?case by (cases ys) (simp_all add: bytesToHexString_def)
next
  case (Cons x xs)
  have nib: "unat (b :: u8) div 16 < length HEX" "unat b mod 16 < length HEX" for b
    using unsigned_less [of b, where ?'a = nat] by (simp_all add: HEX_def)
  have "unat x div 16 = unat y div 16 \<and> unat x mod 16 = unat y mod 16 \<longleftrightarrow> x = y" for y :: u8
    by (metis div_mult_mod_eq word_unat_eq_iff)
  then show ?case
    using Cons.IH
    by (cases ys) (auto simp: bytesToHexString_def nth_eq_iff_index_eq [OF distinct_HEX] nib)
qed

lemma HEX_digit: "n < 16 \<Longrightarrow> HEX ! n = hex_digit n"
proof -
  assume "n < 16"
  then have "n \<in> set [0..<16]" by simp
  moreover have "\<forall>n \<in> set [0..<16]. HEX ! n = hex_digit n" by code_simp
  ultimately show ?thesis by blast
qed

lemma bytesToHexString_hex: "bytesToHexString bs = hex_string bs"
proof -
  have "unat (b :: u8) div 16 < 16" for b
    using unsigned_less [of b, where ?'a = nat] by simp
  then show ?thesis by (simp add: bytesToHexString_def hex_string_def HEX_digit)
qed

section \<open>Byte order of the words\<close>

lemma decode_Nil: "decode [] = []"
  by (simp add: decode_def)

lemma decode_word: "decode (le_bytes 4 w @ bs) = w # decode bs"
proof -
  have upt: "[0..<Suc n] = 0 # map Suc [0..<n]" for n by (simp add: upt_conv_Cons map_Suc_upt)
  have len: "length (le_bytes 4 w @ bs) div 4 = Suc (length bs div 4)" by simp
  have four: "le_bytes 4 w = [ucast w, ucast (drop_bit 8 w), ucast (drop_bit 16 w), ucast (drop_bit 24 w)]"
    by (simp add: numeral_eq_Suc drop_bit_drop_bit)
  have "le_word (le_bytes 4 w) = w"
    using take_bit_length_eq [of w] by (simp add: le_word_le_bytes)
  then have w: "ucast (ucast w :: u8) OR push_bit 8 (ucast (ucast (drop_bit 8 w) :: u8)) OR
      push_bit 16 (ucast (ucast (drop_bit 16 w) :: u8)) OR
      push_bit 24 (ucast (ucast (drop_bit 24 w) :: u8)) = w"
    unfolding four by (simp add: push_bit_or push_bit_push_bit or.assoc)
  have at: "(le_bytes 4 w @ bs) ! (4 * Suc i + j) = bs ! (4 * i + j)" for i j
    by (simp add: nth_append)
  have at0: "(le_bytes 4 w @ bs) ! (4 * Suc i) = bs ! (4 * i)" for i
    using at [of i 0] by simp
  have first: "(le_bytes 4 w @ bs) ! 0 = ucast w" "(le_bytes 4 w @ bs) ! 1 = ucast (drop_bit 8 w)"
    "(le_bytes 4 w @ bs) ! 2 = ucast (drop_bit 16 w)"
    "(le_bytes 4 w @ bs) ! 3 = ucast (drop_bit 24 w)"
    unfolding four by simp_all
  show ?thesis
    unfolding decode_def Let_def len upt list.map map_map o_def mult_0_right add_0 first at at0 w ..
qed

lemma decode_encode: "decode (encode ws) = ws"
  by (induction ws) (simp_all add: encode_eq decode_Nil decode_word)

section \<open>Inputs the loop index cannot cover\<close>

lemma update_loop_diverges:
  assumes "2 ^ 32 + 64 \<le> length input" "unat len \<ge> 2 ^ 32"
  shows "update_loop input len i st = None"
proof (rule ccontr)
  assume "update_loop input len i st \<noteq> None"
  then obtain r where "update_loop input len i st = Some r" by blast
  then have "\<not> (2 ^ 32 + 64 \<le> length input \<and> 2 ^ 32 \<le> unat len)"
  proof (rule update_loop.raw_induct
      [where P = "\<lambda>input len i st r. \<not> (2 ^ 32 + 64 \<le> length input \<and> 2 ^ 32 \<le> unat len)", rotated])
    fix loop :: "u8 list \<Rightarrow> u64 \<Rightarrow> u32 \<Rightarrow> abcd \<Rightarrow> (u32 \<times> abcd) res option"
      and input len i st r
    assume IH: "\<And>input len i st r. loop input len i st = Some r \<Longrightarrow>
          \<not> (2 ^ 32 + 64 \<le> length input \<and> 2 ^ 32 \<le> unat len)"
      and eq: "(if (ucast (i + 63) :: u64) < len
        then (if unat i + 64 \<le> length input
              then loop input len (i + 64) (transform (take 64 (drop (unat i) input)) st)
              else Some (Inl OutOfBounds))
        else Some (Inr (i, st))) = Some r"
    have i: "unat j < 2 ^ 32" for j :: u32 using unsigned_less [of j, where ?'a = nat] by simp
    show "\<not> (2 ^ 32 + 64 \<le> length input \<and> 2 ^ 32 \<le> unat len)"
    proof
      assume big: "2 ^ 32 + 64 \<le> length input \<and> 2 ^ 32 \<le> unat len"
      then have "(ucast (i + 63) :: u64) < len" "unat i + 64 \<le> length input"
        using i [of "i + 63"] i [of i] unfolding word_less_nat_alt unat_ucast_32_64 by linarith+
      with eq have "loop input len (i + 64) (transform (take 64 (drop (unat i) input)) st) = Some r"
        by simp
      from IH [OF this] big show False by simp
    qed
  qed
  with assms show False by simp
qed

section \<open>Properties\<close>

lemma toString_absorbed:
  assumes "absorbed msg m" "\<not> md_finished m"
  shows "\<exists>m'. toString m = Inr (bytesToHexString (md5_spec msg), m')"
  by (rule digest_absorbed [OF assms]) (simp add: toString_def)

lemma MD5_string_absorbed:
  assumes "length (md_buffer raw) = 64" "length str + 64 \<le> 2 ^ 32"
  obtains m where "MD5_string raw str = Inr m" "absorbed (string_bytes str) m" "\<not> md_finished m"
  using update_absorbs [OF absorbed_reset [OF assms(1)], of "string_bytes str"] assms(2)
  by (auto simp: MD5_string_def string_bytes_def)

lemma MD5_string_toString:
  assumes "length (md_buffer raw) = 64" "length str + 64 \<le> 2 ^ 32"
  shows "\<exists>m'. andThen (MD5_string raw str) toString =
           Inr (bytesToHexString (md5_spec (string_bytes str)), m')"
proof -
  obtain m where "MD5_string raw str = Inr m" "absorbed (string_bytes str) m" "\<not> md_finished m"
    by (rule MD5_string_absorbed [OF assms])
  with toString_absorbed show ?thesis by simp
qed

definition md5_blank :: md5 where
  "md5_blank = \<lparr>md_state = (0, 0, 0, 0), md_count0 = 0, md_count1 = 0,
     md_buffer = replicate 64 0, md_digest = replicate 16 0, md_finished = False\<rparr>"

lemma length_md5_blank [simp]: "length (md_buffer md5_blank) = 64"
  by (simp add: md5_blank_def)

text \<open>
  The reference is MD5: it gives the digest of \<^verbatim>\<open>abc\<close> in the test suite of RFC 1321, computed round by
  round. The evaluation keeps words within 32 bits and rotates by shifts.
\<close>

definition abc_words :: "u32 list" where
  "abc_words = [0x80636261, 0, 0, 0, 0, 0, 0, 0, 0, 0, 0, 0, 0, 0, 24, 0]"

lemma ref_step_eval:
  assumes "i < 64"
  shows "ref_step x i (a, b, c, d) =
    (d, take_bit 32 (b + ROTATE_LEFT (take_bit 32 (a + ref_mix i b c d + x ! ref_word i + md5_K ! i))
       (md5_S ! (i div 16) ! (i mod 4))), b, c)"
proof -
  have "take_bit 32 w = w" for w :: u32
    using take_bit_length_eq [of w] by simp
  then show ?thesis using assms by (simp add: ROTATE_LEFT_rotl md5_S_shift)
qed

lemma abc_rounds:
  "fold (ref_step abc_words) [0..<16]
     (0x67452301, 0xefcdab89, 0x98badcfe, 0x10325476) =
     (0xdda9b9a6, 0x72aff2e0, 0xe396856b, 0xa1051895)"
  "fold (ref_step abc_words) [16..<32]
     (0xdda9b9a6, 0x72aff2e0, 0xe396856b, 0xa1051895) =
     (0x790a77fb, 0x726342d3, 0xa62884aa, 0x9f47e4f8)"
  "fold (ref_step abc_words) [32..<48]
     (0x790a77fb, 0x726342d3, 0xa62884aa, 0x9f47e4f8) =
     (0x7f2e507b, 0x7beb9700, 0x8fae6399, 0x99d9679d)"
  "fold (ref_step abc_words) [48..<64]
     (0x7f2e507b, 0x7beb9700, 0x8fae6399, 0x99d9679d) =
     (0x310ade8f, 0xc08226b3, 0xe484b9d8, 0x624d8cb2)"
  unfolding upt_rounds
  by (simp_all add: ref_step_eval ref_mix_def ref_word_def md5_K_def md5_S_def abc_words_def ROTATE_LEFT_def
      del: ref_step.simps)

definition abc_block :: "u8 list" where
  "abc_block =
     [0x61, 0x62, 0x63, 0x80, 0, 0, 0, 0, 0, 0, 0, 0, 0, 0, 0, 0, 0, 0, 0, 0, 0, 0, 0, 0, 0, 0, 0, 0, 0, 0, 0, 0,
      0, 0, 0, 0, 0, 0, 0, 0, 0, 0, 0, 0, 0, 0, 0, 0, 0, 0, 0, 0, 0, 0, 0, 0, 24, 0, 0, 0, 0, 0, 0, 0]"

lemma le_bytes_list:
  "le_bytes 4 w = map (\<lambda>k. ucast (drop_bit k w)) [0, 8, 16, 24]"
  "le_bytes 8 w = map (\<lambda>k. ucast (drop_bit k w)) [0, 8, 16, 24, 32, 40, 48, 56]"
  by (simp_all add: numeral_eq_Suc drop_bit_drop_bit)

lemma abc_padded: "blocks (md5_pad (string_bytes ''abc'')) = [abc_block]"
proof -
  have "md5_padding 3 = 0x80 # replicate 52 0" by (simp add: md5_padding_def)
  moreover have "md5_length_field 3 = [24, 0, 0, 0, 0, 0, 0, 0]"
    by (simp add: md5_length_field_def le_bytes_list)
  moreover have "string_bytes ''abc'' = [0x61, 0x62, 0x63]" by (simp add: string_bytes_def)
  moreover have "length [0x61, 0x62, 0x63 :: u8] = 3" by simp
  ultimately have "md5_pad (string_bytes ''abc'') =
      [0x61, 0x62, 0x63] @ (0x80 # replicate 52 0) @ [24, 0, 0, 0, 0, 0, 0, 0]"
    by (simp only: md5_pad_def append_assoc)
  also have "replicate 52 0 =
      [0, 0, 0, 0, 0, 0, 0, 0, 0, 0, 0, 0, 0, 0, 0, 0, 0, 0, 0, 0, 0, 0, 0, 0, 0, 0, 0, 0,
       0, 0, 0, 0, 0, 0, 0, 0, 0, 0, 0, 0, 0, 0, 0, 0, 0, 0, 0, 0, 0, 0, 0, 0 :: u8]"
    by (simp add: numeral_eq_Suc)
  also have "[0x61, 0x62, 0x63] @ (0x80 # \<dots>) @ [24, 0, 0, 0, 0, 0, 0, 0] = abc_block"
    by (simp add: abc_block_def)
  finally show ?thesis by (simp add: abc_block_def blocks_step blocks_short)
qed

lemma abc_block_words: "block_words abc_block = abc_words"
  unfolding block_words_def upt_rounds abc_words_def abc_block_def by simp

lemma md5_abc: "hex_string (md5_spec (string_bytes ''abc'')) = ''900150983cd24fb0d6963f7d28e17f72''"
proof -
  have "fold (ref_step abc_words) [0..<64] md5_init = (0x310ade8f, 0xc08226b3, 0xe484b9d8, 0x624d8cb2)"
    unfolding upt_64 fold_append o_apply md5_init_def abc_rounds ..
  then have "md5_spec (string_bytes ''abc'') = le_bytes 4 (0x98500190 :: u32) @ le_bytes 4 (0x1b04fd23c :: u32) @
      le_bytes 4 (0x17d3f96d6 :: u32) @ le_bytes 4 (0x727fe128 :: u32)"
    by (simp add: md5_spec_def abc_padded md5_compress_def abc_block_words) (simp add: md5_init_def)
  then show ?thesis by (simp add: hex_string_def hex_digit_def le_bytes_list char_of_eq_iff)
qed

text \<open>
  C30 Hashing a string of up to \<open>2\<^sup>3\<^sup>2 - 64\<close> bytes with a fresh object returns, and returns the
  hexadecimal form of the MD5 of the string as RFC 1321 defines it; no write leaves the 64-byte buffer.
\<close>

theorem md5_string_correct:
  assumes "length (md_buffer raw) = 64" "length str + 64 \<le> 2 ^ 32"
  shows "\<exists>m'. andThen (MD5_string raw str) toString =
           Inr (hex_string (md5_spec (string_bytes str)), m')"
  using MD5_string_toString [OF assms] by (simp add: bytesToHexString_hex)

theorem md5_string_correct_witness:
  "\<exists>m'. andThen (MD5_string md5_blank ''abc'') toString = Inr (''900150983cd24fb0d6963f7d28e17f72'', m')"
  using md5_string_correct [OF length_md5_blank, of "''abc''"] by (simp add: md5_abc)

text \<open>
  The unrolled \<open>transform\<close> is the table-driven MD5 compression: step \<open>i\<close> mixes with the
  function of its round, takes message word \<open>i\<close>, \<open>5i+1\<close>, \<open>3i+5\<close> or \<open>7i\<close> modulo 16, rotates
  by the round's shift and cycles the registers.
\<close>

theorem transform_reference:
  "transform block state = add_abcd state (fold (ref_step (decode block)) [0..<64] state)"
  by (rule transform_ref)

text \<open>
  Feeding an object that has taken in \<open>msg\<close> with a further buffer of up to
  \<open>2\<^sup>3\<^sup>2 - 64\<close> bytes returns an object that has taken in the concatenation, including the
  64-bit bit count kept in two words with a manual carry.
\<close>

theorem update_concatenates:
  assumes "absorbed msg m" "length xs + 64 \<le> 2 ^ 32"
  shows "\<exists>m'. update m xs = Inr m' \<and> absorbed (msg @ xs) m'"
  using md5s.upd_holds [OF assms(1), of xs] assms(2) by simp

theorem update_concatenates_witness:
  "\<exists>m'. update (reset md5_blank) [1, 2, 3] = Inr m' \<and> absorbed [1, 2, 3] m'"
  using update_concatenates [OF absorbed_reset [OF length_md5_blank], of "[1, 2, 3]"] by simp

text \<open>
  Hashing an opened file in pieces of 1024 bytes takes in exactly the file's contents,
  whatever its length.
\<close>

theorem md5_file_correct:
  assumes "length (md_buffer raw) = 64"
  shows "\<exists>m. MD5_file raw True content = Inr m \<and> absorbed content m"
  using update_file_loop_absorbs [OF absorbed_reset [OF assms], of content]
  by (simp add: MD5_file_def update_file_def)

theorem md5_file_correct_witness:
  "\<exists>m. MD5_file md5_blank True [7, 8, 9] = Inr m \<and> absorbed [7, 8, 9] m"
  by (rule md5_file_correct) simp

text \<open>
  Asking the same object twice. The first \<open>digest\<close> is the digest of the message; because
  \<open>final\<close> pads through \<open>update\<close>, which resets \<open>_finished\<close> and writes into \<open>_buffer\<close>, the
  second is recomputed from what \<open>final\<close> left behind: the message itself when its last
  partial block is shorter than 56 bytes, and otherwise the message with that block
  overwritten by zeros and the length field.
\<close>

theorem digest_twice:
  assumes "absorbed msg m" "\<not> md_finished m"
  shows "\<exists>m' m''. digest m = Inr (md5_spec msg, m') \<and>
           digest m' = Inr (md5_spec (after_final msg), m'')"
  by (metis assms digest_absorbed)

theorem digest_twice_witness:
  "\<exists>m' m''. digest (reset md5_blank) = Inr (md5_spec [], m') \<and>
     digest m' = Inr (md5_spec (after_final []), m'')"
  by (rule digest_twice [OF absorbed_reset [OF length_md5_blank]]) (simp add: reset_def)

text \<open>
  A single \<open>update\<close> with \<open>2\<^sup>3\<^sup>2 + 64\<close> bytes or more never returns: the 32-bit block index
  cannot reach the 64-bit length.
\<close>

theorem update_long_diverges:
  assumes "absorbed msg m" "2 ^ 32 + 64 \<le> length xs" "length xs < 2 ^ 64"
  shows "update m xs = Inl Diverges"
proof -
  define r where "r = length msg mod 64"
  have r: "r < 64" by (simp add: r_def)
  have len: "64 - r \<le> length xs" "unat (of_nat (length xs) :: u64) = length xs"
    using assms(2,3) by (simp_all add: unat_of_nat)
  have "update_blocks xs (of_nat (length xs)) i st = Inl Diverges" for i st
    using update_loop_diverges [of xs "of_nat (length xs)" i st] assms(2) len(2)
    by (simp add: update_blocks_def)
  moreover have "poke (md_buffer m) r (take (64 - r) xs) =
      Inr (take r (md_buffer m) @ take (64 - r) xs)"
    using assms(1) r len by (simp add: poke_ok absorbed_def)
  ultimately show ?thesis
    using len(1)
    unfolding update_def Let_def absorbed_index [OF assms(1)] r_def [symmetric] part_len(1) [OF r]
      part_guard [OF r assms(3)] part_len(2,3) [OF r]
    by simp
qed

theorem update_long_diverges_witness:
  "update (reset md5_blank) (replicate (2 ^ 32 + 64) 0) = Inl Diverges"
  by (rule update_long_diverges [OF absorbed_reset [OF length_md5_blank]])
    (simp_all only: length_replicate, simp_all)

text \<open>
  The hexadecimal form has two digits of \<open>0123456789abcdef\<close> per byte and determines the
  bytes.
\<close>

theorem bytesToHexString_faithful:
  "length (bytesToHexString xs) = 2 * length xs \<and> set (bytesToHexString xs) \<subseteq> set HEX \<and>
   (bytesToHexString xs = bytesToHexString ys \<longleftrightarrow> xs = ys)"
  by (simp add: set_bytesToHexString bytesToHexString_inject)

text \<open>
  \<open>decode\<close> recovers the words that \<open>encode\<close> wrote.\<close>

theorem decode_encode_roundtrip: "decode (encode ws) = ws"
  by (rule decode_encode)

end
