(* ===== verification/Md5_Object.thy ===== *)
theory Md5_Object
  imports Md5_Correct
begin

text \<open>
  The \<^verbatim>\<open>MD5\<close> object under any use of its interface, also one that mixes reading the digest with further
  updates: its arrays keep their sizes, nothing is written outside of them, and a digest has
  sixteen bytes. Nothing is assumed of the counters, which a digest restores.
\<close>

definition md5_wf :: "md5 \<Rightarrow> bool" where
  "md5_wf m \<longleftrightarrow> length (md_buffer m) = 64 \<and> length (md_digest m) = 16"

datatype md5_op =
    OpReset | OpUpdate "u8 list" | OpUpdateString string | OpUpdateFile bool "u8 list" | OpDigest | OpToString

fun md5_step :: "md5_op \<Rightarrow> md5 \<Rightarrow> md5 res" where
  "md5_step OpReset m = Inr (reset m)"
| "md5_step (OpUpdate input) m = update_buffer m input"
| "md5_step (OpUpdateString str) m = update_string m str"
| "md5_step (OpUpdateFile opened content) m = update_file m opened content"
| "md5_step OpDigest m = andThen (digest m) (\<lambda>(d, m). Inr m)"
| "md5_step OpToString m = andThen (toString m) (\<lambda>(s, m). Inr m)"

text \<open>An update takes up to \<open>2\<^sup>3\<^sup>2 - 64\<close> bytes at a time; files are read in pieces.\<close>

fun op_fits :: "md5_op \<Rightarrow> bool" where
  "op_fits (OpUpdate input) \<longleftrightarrow> length input + 64 \<le> 2 ^ 32"
| "op_fits (OpUpdateString str) \<longleftrightarrow> length str + 64 \<le> 2 ^ 32"
| "op_fits opn \<longleftrightarrow> True"

section \<open>Updates from any counter\<close>

lemma index_of_nat:
  obtains r where "r < 64" "drop_bit 3 (c :: u32) AND 0x3f = of_nat r"
proof -
  have "(0x3f :: u32) = mask 6" by (simp add: mask_eq_exp_minus_1)
  then have "drop_bit 3 c AND 0x3f = take_bit 6 (drop_bit 3 c)" by (simp add: take_bit_eq_mask)
  then have "unat (drop_bit 3 c AND 0x3f) = take_bit 6 (unat (drop_bit 3 c))"
    by (simp only: unsigned_take_bit_eq)
  then have "unat (drop_bit 3 c AND 0x3f) < 64"
    using take_bit_nat_less_exp [of 6 "unat (drop_bit 3 c)"] by (simp del: take_bit_nat_less_exp)
  moreover have "drop_bit 3 c AND 0x3f = of_nat (unat (drop_bit 3 c AND 0x3f))" by simp
  ultimately show thesis by (rule that)
qed

lemma update_total:
  assumes buf: "length (md_buffer m) = 64" and len: "length xs + 64 \<le> 2 ^ 32"
  obtains m' where "update m xs = Inr m'" "length (md_buffer m') = 64" "md_digest m' = md_digest m"
proof -
  obtain r where r: "r < 64" "drop_bit 3 (md_count0 m) AND 0x3f = (of_nat r :: u32)" by (rule index_of_nat)
  define n where "n = length xs"
  have n: "n < 2 ^ 64" "n < 2 ^ 32" using len by (simp_all add: n_def)
  have ul: "unat (of_nat n :: u64) = n" using n by (simp add: unat_of_nat)
  show thesis
  proof (cases "64 - r \<le> n")
    case True
    define k where "k = 64 - r + 64 * ((n - (64 - r)) div 64)"
    have k: "k \<le> n" "n - k < 64"
      unfolding k_def whole_blocks_bound(2) [OF True] by (rule whole_blocks_bound(1) [OF True], rule mod_less_divisor, simp)
    then have uk: "unat (of_nat k :: u32) = k" using n(2) by (simp add: unat_of_nat)
    have "ucast (of_nat k :: u32) \<le> (of_nat n :: u64)"
      unfolding word_le_nat_alt unat_ucast_32_64 uk ul by (rule k(1))
    from unat_sub [OF this] have dk: "unat (of_nat n - ucast (of_nat k :: u32) :: u64) = n - k"
      unfolding unat_ucast_32_64 uk ul .
    let ?buf = "take r (md_buffer m) @ take (64 - r) xs"
    have p1: "poke (md_buffer m) r (take (64 - r) xs) = Inr ?buf" "length ?buf = 64"
      using True r(1) buf by (simp_all add: poke_ok n_def)
    have loop: "update_blocks xs (of_nat n) (of_nat (64 - r)) st =
        Inr (of_nat k, fold transform (blocks (drop (64 - r) xs)) st)" for st
      using update_loop_blocks [of "64 - r" xs st] True len by (simp add: update_blocks_def n_def k_def)
    have "0 + length (take (n - k) (drop k xs)) \<le> length ?buf" unfolding p1(2) using k(2) by simp
    from poke_ok [OF this] obtain buf' where p2: "poke ?buf 0 (take (n - k) (drop k xs)) = Inr buf'" by blast
    moreover have "length buf' = 64" using poke_length [OF p2] p1(2) by simp
    ultimately have "poke ?buf 0 (take (n - k) (drop k xs)) = Inr buf'" "length buf' = 64" by simp_all
    then show thesis
      using True that
      unfolding update_def Let_def n_def [symmetric] ucast_len32 [OF n(1)] r(2)
        part_len(1) [OF r(1)] part_guard [OF r(1) n(1)] part_len(2,3) [OF r(1)]
      by (simp add: p1(1) loop uk dk)
  next
    case False
    have all: "take (unat (of_nat n :: u64)) xs = xs" unfolding ul by (simp add: n_def)
    have "r + length xs \<le> length (md_buffer m)" using False buf by (simp add: n_def)
    from poke_ok [OF this] obtain buf' where p: "poke (md_buffer m) r xs = Inr buf'" by blast
    then have "length buf' = 64" using poke_length [OF p] buf by simp
    with p show thesis
      using False that
      unfolding update_def Let_def n_def [symmetric] ucast_len32 [OF n(1)] r(2)
        part_len(1) [OF r(1)] part_guard [OF r(1) n(1)] part_len(2,3) [OF r(1)] all
      by simp
  qed
qed

section \<open>The interface\<close>

lemma final_total:
  assumes "length (md_buffer m) = 64"
  obtains m' where "final m = Inr m'" "md5_wf m'"
proof -
  have pad: "length (take k PADDING) + 64 \<le> 2 ^ 32" for k by (simp add: PADDING_def)
  let ?pad = "take (unat (if drop_bit 3 (md_count0 m) AND 0x3f < 56 then 56 - (drop_bit 3 (md_count0 m) AND 0x3f)
      else 120 - (drop_bit 3 (md_count0 m) AND 0x3f))) PADDING"
  obtain m1 where m1: "update m ?pad = Inr m1" "length (md_buffer m1) = 64"
    by (rule update_total [OF assms pad])
  have "length (encode [md_count0 m, md_count1 m]) + 64 \<le> 2 ^ 32" by (simp add: encode_def)
  with m1(2) obtain m2 where m2: "update m1 (encode [md_count0 m, md_count1 m]) = Inr m2" "length (md_buffer m2) = 64"
    by (rule update_total)
  have "length (encode (abcd_list st)) = 16" for st by (cases st) (simp add: encode_def)
  then show thesis
    using m1(1) m2
    by (intro that [of "m2\<lparr>md_digest := encode (abcd_list (md_state m2)), md_state := md_state m,
          md_count0 := md_count0 m, md_count1 := md_count1 m\<rparr>"]) (simp_all add: final_def md5_wf_def Let_def)
qed

lemma digest_total:
  assumes "md5_wf m"
  obtains d m' where "digest m = Inr (d, m')" "length d = 16" "md5_wf m'"
proof (cases "md_finished m")
  case True
  then show thesis using assms by (intro that [of "md_digest m" m]) (simp_all add: digest_def md5_wf_def)
next
  case False
  have "length (md_buffer (m\<lparr>md_finished := True\<rparr>)) = 64" using assms by (simp add: md5_wf_def)
  then obtain m' where "final (m\<lparr>md_finished := True\<rparr>) = Inr m'" "md5_wf m'" by (rule final_total)
  then show thesis using False by (intro that [of "md_digest m'" m']) (simp_all add: digest_def md5_wf_def)
qed

lemma update_wf:
  assumes "md5_wf m" "length xs + 64 \<le> 2 ^ 32"
  shows "\<exists>m'. update m xs = Inr m' \<and> md5_wf m'"
proof -
  have "length (md_buffer m) = 64" using assms(1) by (simp add: md5_wf_def)
  then obtain m' where "update m xs = Inr m'" "length (md_buffer m') = 64" "md_digest m' = md_digest m"
    using assms(2) by (rule update_total)
  then show ?thesis using assms(1) by (simp add: md5_wf_def)
qed

lemma update_file_loop_total: "md5_wf m \<Longrightarrow> \<exists>m'. update_file_loop m content = Inr m' \<and> md5_wf m'"
proof (induction m content rule: update_file_loop.induct)
  case (1 m content)
  let ?chunk = "take BUFFER_SIZE content"
  have "length ?chunk + 64 \<le> 2 ^ 32" by (simp add: BUFFER_SIZE_def)
  from update_wf [OF "1.prems" this]
  have "\<exists>m'. (if 0 < length ?chunk then update m ?chunk else Inr m) = Inr m' \<and> md5_wf m'"
    using "1.prems" by simp
  then obtain m' where m': "(if 0 < length ?chunk then update m ?chunk else Inr m) = Inr m'" "md5_wf m'"
    by blast
  show ?case
  proof (cases "length ?chunk < BUFFER_SIZE")
    case True
    then show ?thesis using m' by (subst update_file_loop.simps) (simp only: Let_def if_True, simp)
  next
    case False
    then have "\<exists>m''. update_file_loop m' (drop BUFFER_SIZE content) = Inr m'' \<and> md5_wf m''"
      using "1.IH" m' by blast
    then show ?thesis using False m'(1) by (subst update_file_loop.simps) (simp only: Let_def if_False andThen.simps)
  qed
qed

lemma md5_step_total:
  assumes "md5_wf m" "op_fits opn"
  shows "\<exists>m'. md5_step opn m = Inr m' \<and> md5_wf m'"
proof (cases opn)
  case OpReset
  then show ?thesis using assms by (simp add: reset_def md5_wf_def)
next
  case (OpUpdate input)
  then show ?thesis using assms update_wf by simp
next
  case (OpUpdateString str)
  then show ?thesis using assms update_wf [of m "string_bytes str"] by (simp add: string_bytes_def)
next
  case (OpUpdateFile opened content)
  then show ?thesis using assms update_file_loop_total by (simp add: update_file_def)
next
  case OpDigest
  then show ?thesis using digest_total [OF assms(1)] by (metis md5_step.simps(5) andThen.simps(2) case_prod_conv)
next
  case OpToString
  obtain d m' where "digest m = Inr (d, m')" "md5_wf m'" by (rule digest_total [OF assms(1)])
  then show ?thesis using OpToString by (simp add: toString_def)
qed

text \<open>
  C31 An \<^verbatim>\<open>MD5\<close> object keeps its shape: whatever is done to it in whatever order, as long as no single
  update has more than \<open>2^32 - 64\<close> bytes, every operation returns, the buffer and the digest keep their
  sizes, so that no write leaves them, and the digest asked for afterwards has 16 bytes and its
  string 32 digits.
\<close>

theorem md5_object_shape:
  assumes "md5_wf m" "\<forall>opn \<in> set ops. op_fits opn"
  shows "\<exists>m' d m''. foldRes md5_step ops m = Inr m' \<and> md5_wf m' \<and> digest m' = Inr (d, m'') \<and> length d = 16 \<and>
    toString m' = Inr (bytesToHexString d, m'') \<and> length (bytesToHexString d) = 32 \<and> set (bytesToHexString d) \<subseteq> set HEX"
proof -
  have "\<exists>m'. foldRes md5_step ops m = Inr m' \<and> md5_wf m'"
    using assms
  proof (induction ops arbitrary: m)
    case (Cons opn ops)
    then obtain m1 where "md5_step opn m = Inr m1" "md5_wf m1" using md5_step_total [of m opn] by auto
    then show ?case using Cons by simp
  qed simp
  then obtain m' where m': "foldRes md5_step ops m = Inr m'" "md5_wf m'" by blast
  obtain d m'' where "digest m' = Inr (d, m'')" "length d = 16" by (rule digest_total [OF m'(2)])
  then show ?thesis using m' set_bytesToHexString [of d] by (simp add: toString_def)
qed

theorem md5_object_shape_witness:
  "\<exists>m' d m''. foldRes md5_step [OpUpdateString ''a'', OpDigest, OpUpdate [1, 2], OpToString, OpReset] md5_blank = Inr m' \<and>
    md5_wf m' \<and> digest m' = Inr (d, m'') \<and> length d = 16"
  using md5_object_shape [of md5_blank "[OpUpdateString ''a'', OpDigest, OpUpdate [1, 2], OpToString, OpReset]"]
  by (auto simp: md5_wf_def md5_blank_def)

end
