(* ===== verification/Tcp_Client.thy ===== *)
theory Tcp_Client
  imports Prelude "HOL-Library.Sublist"
begin

text \<open>
  \<^verbatim>\<open>network/TcpClient.h\<close> and \<^verbatim>\<open>TcpClient.cpp\<close>: one connection, as a state machine whose
  inputs are the calls of its users and the completions \<^verbatim>\<open>boost::asio\<close> delivers. Handlers
  run one at a time (one thread runs the \<^verbatim>\<open>io_service\<close>) and posted tasks run in the order
  they were posted.

  The members of the class keep their names. The rest of the record is the environment as
  the code sees it: whether the socket is open, the tasks posted and not yet run, the
  asynchronous operations started and not yet completed (each with whether the socket was
  open when it started), the signals emitted, and the buffers written to the peer.

  \<^verbatim>\<open>OnHeader\<close>, \<^verbatim>\<open>OnBody\<close> and the memory the read buffers point to belong to the user of the
  class: they are the parameters \<open>onHeader\<close>, \<open>onBody\<close> and \<open>scatter\<close> on a state of type \<open>'w\<close>.
\<close>

section \<open>State\<close>

datatype ESocketError =
    ESocket_Connect
  | ESocket_ReadHeader
  | ESocket_ReadBody
  | ESocket_Send
  | ESocket_BodyBuffer

datatype socket_signal = OnConnected | OnError ESocketError | OnClosed

datatype tcp_task = Post_Send "cell list list" | Post_Close

datatype read_op = Reading_Header | Reading_Body

record 'a tcp_client =
  mWriteBuffers :: "cell list list"
  mPendingBuffers :: "cell list list"
  mReadBuffers :: "('a \<times> nat) list"
  mIsInWriting :: bool
  mHeaderLength :: nat
  mHeaderBuffer :: "u8 list option"
  handlersSet :: bool
  isOpen :: bool
  posted :: "tcp_task list"
  connects :: nat
  reads :: "(read_op \<times> bool) list"
  writes :: "(cell list list \<times> bool) list"
  signals :: "socket_signal list"
  written :: "cell list list"

definition TcpClient :: "nat \<Rightarrow> 'a tcp_client" where
  "TcpClient nHeaderLen =
     \<lparr>mWriteBuffers = [], mPendingBuffers = [], mReadBuffers = [], mIsInWriting = False,
      mHeaderLength = nHeaderLen, mHeaderBuffer = None, handlersSet = False, isOpen = False,
      posted = [], connects = 0, reads = [], writes = [], signals = [], written = []\<rparr>"

definition emit :: "socket_signal \<Rightarrow> 'a tcp_client \<Rightarrow> 'a tcp_client" where
  "emit e c = c\<lparr>signals := signals c @ [e]\<rparr>"

section \<open>Operations\<close>

fun SocketError2String :: "ESocketError \<Rightarrow> string" where
  "SocketError2String ESocket_Connect = ''connect''"
| "SocketError2String ESocket_ReadHeader = ''read header''"
| "SocketError2String ESocket_ReadBody = ''read body''"
| "SocketError2String ESocket_Send = ''send''"
| "SocketError2String ESocket_BodyBuffer = ''collect body buffer''"

definition Close4Error :: "ESocketError \<Rightarrow> 'a tcp_client \<Rightarrow> 'a tcp_client" where
  "Close4Error type c = emit (OnError type) (c\<lparr>isOpen := False\<rparr>)"

text \<open>
  \<^verbatim>\<open>resolves\<close> is whether the synchronous \<^verbatim>\<open>resolver.resolve\<close> finds the host; it throws when it
  does not. \<^verbatim>\<open>async_connect\<close> opens the socket.
\<close>

definition Connect :: "bool \<Rightarrow> 'a tcp_client \<Rightarrow> 'a tcp_client res" where
  "Connect resolves c =
     (if resolves then Inr (c\<lparr>isOpen := True, connects := Suc (connects c)\<rparr>)
      else Inl (Throws ''resolve''))"

definition ReadHeader :: "'a tcp_client \<Rightarrow> 'a tcp_client" where
  "ReadHeader c = c\<lparr>reads := reads c @ [(Reading_Header, isOpen c)]\<rparr>"

definition ReadBody :: "'a tcp_client \<Rightarrow> 'a tcp_client" where
  "ReadBody c = c\<lparr>reads := reads c @ [(Reading_Body, isOpen c)]\<rparr>"

definition on_connect :: "bool \<Rightarrow> 'a tcp_client \<Rightarrow> 'a tcp_client" where
  "on_connect ok c =
     (let c = c\<lparr>connects := connects c - 1\<rparr>
      in if ok then emit OnConnected (ReadHeader c) else emit (OnError ESocket_Connect) c)"

text \<open>
  The completion of a header read: \<open>Some\<close> the bytes that filled the header buffer, or an
  error. \<^verbatim>\<open>OnHeader\<close> may rewrite the header buffer and collects the body buffers.
\<close>

type_synonym ('a, 'w) header_handler =
  "u8 list \<Rightarrow> 'w \<Rightarrow> (bool \<times> u8 list \<times> ('a \<times> nat) list \<times> 'w) res"

type_synonym 'w body_handler = "u8 list \<Rightarrow> 'w \<Rightarrow> 'w res"

fun on_header_read ::
    "('a, 'w) header_handler \<Rightarrow> u8 list option \<Rightarrow> 'a tcp_client \<times> 'w \<Rightarrow> ('a tcp_client \<times> 'w) res" where
  "on_header_read onHeader (Some bytes) (c, w) =
     (let c = c\<lparr>reads := tl (reads c), mHeaderBuffer := Some bytes, mReadBuffers := []\<rparr>
      in if \<not> handlersSet c then Inl (Throws ''bad_function_call'')
         else andThen (onHeader bytes w) (\<lambda>(hasBody, header, bufs, w).
           let c = c\<lparr>mHeaderBuffer := Some header, mReadBuffers := bufs\<rparr>
           in if hasBody
              then if 0 \<noteq> length (mReadBuffers c) then Inr (ReadBody c, w)
                   else Inr (Close4Error ESocket_BodyBuffer c, w)
              else Inr (ReadHeader c, w)))"
| "on_header_read onHeader None (c, w) =
     Inr (Close4Error ESocket_ReadHeader (c\<lparr>reads := tl (reads c)\<rparr>), w)"

text \<open>
  The completion of a body read: asio has filled the buffers of \<^verbatim>\<open>mReadBuffers\<close> in turn.
\<close>

fun scatter_all :: "('a \<Rightarrow> u8 list \<Rightarrow> 'w \<Rightarrow> 'w) \<Rightarrow> ('a \<times> nat) list \<Rightarrow> u8 list \<Rightarrow> 'w \<Rightarrow> 'w" where
  "scatter_all scatter [] bytes w = w"
| "scatter_all scatter ((a, n) # bufs) bytes w =
     scatter_all scatter bufs (drop n bytes) (scatter a (take n bytes) w)"

fun on_body_read ::
    "'w body_handler \<Rightarrow> ('a \<Rightarrow> u8 list \<Rightarrow> 'w \<Rightarrow> 'w) \<Rightarrow> u8 list option \<Rightarrow> 'a tcp_client \<times> 'w
      \<Rightarrow> ('a tcp_client \<times> 'w) res" where
  "on_body_read onBody scatter (Some bytes) (c, w) =
     (let c = c\<lparr>reads := tl (reads c)\<rparr>;
          w = scatter_all scatter (mReadBuffers c) bytes w
      in if \<not> handlersSet c then Inl (Throws ''bad_function_call'')
         else (case mHeaderBuffer c of None \<Rightarrow> Inl Uninitialised
           | Some header \<Rightarrow> andThen (onBody header w) (\<lambda>w. Inr (ReadHeader c, w))))"
| "on_body_read onBody scatter None (c, w) =
     Inr (Close4Error ESocket_ReadBody (c\<lparr>reads := tl (reads c)\<rparr>), w)"

text \<open>The private \<^verbatim>\<open>Send()\<close>: the swap and the start of the write.\<close>

definition Send :: "'a tcp_client \<Rightarrow> 'a tcp_client" where
  "Send c =
     (let c = c\<lparr>mPendingBuffers := mWriteBuffers c, mWriteBuffers := mPendingBuffers c\<rparr>
      in c\<lparr>writes := writes c @ [(mWriteBuffers c, isOpen c)]\<rparr>)"

definition on_written :: "bool \<Rightarrow> 'a tcp_client \<Rightarrow> 'a tcp_client" where
  "on_written ok c =
     (let bufs = fst (hd (writes c));
          c = c\<lparr>writes := tl (writes c), mWriteBuffers := []\<rparr>
      in if ok
         then (let c = c\<lparr>written := written c @ bufs\<rparr>
               in if mPendingBuffers c \<noteq> [] then Send c else c)
         else Close4Error ESocket_Send c)"

text \<open>The public \<^verbatim>\<open>Send\<close>s post the lambda that \<open>run_send\<close> is the body of.\<close>

definition Send_buffer :: "cell list \<Rightarrow> 'a tcp_client \<Rightarrow> 'a tcp_client" where
  "Send_buffer buf c = c\<lparr>posted := posted c @ [Post_Send [buf]]\<rparr>"

definition Send_buffers :: "cell list list \<Rightarrow> 'a tcp_client \<Rightarrow> 'a tcp_client" where
  "Send_buffers vbuf c = c\<lparr>posted := posted c @ [Post_Send vbuf]\<rparr>"

definition run_send :: "cell list list \<Rightarrow> 'a tcp_client \<Rightarrow> 'a tcp_client" where
  "run_send bufs c =
     (let c = c\<lparr>mPendingBuffers := mPendingBuffers c @ bufs\<rparr>
      in if mWriteBuffers c = [] then Send c else c)"

definition Close :: "'a tcp_client \<Rightarrow> 'a tcp_client" where
  "Close c = c\<lparr>posted := posted c @ [Post_Close]\<rparr>"

definition run_close :: "'a tcp_client \<Rightarrow> 'a tcp_client" where
  "run_close c = emit OnClosed (c\<lparr>isOpen := False\<rparr>)"

definition run_posted :: "'a tcp_client \<Rightarrow> 'a tcp_client" where
  "run_posted c =
     (case posted c of [] \<Rightarrow> c
      | Post_Send bufs # ts \<Rightarrow> run_send bufs (c\<lparr>posted := ts\<rparr>)
      | Post_Close # ts \<Rightarrow> run_close (c\<lparr>posted := ts\<rparr>))"

definition destroy :: "'a tcp_client \<Rightarrow> 'a tcp_client" where
  "destroy c = c\<lparr>isOpen := False\<rparr>"

section \<open>Runs\<close>

datatype tcp_input =
    Call_Connect bool
  | Call_Send "cell list"
  | Call_Sends "cell list list"
  | Call_Close
  | Run_Posted
  | Connect_Done bool
  | Header_Done "u8 list option"
  | Body_Done "u8 list option"
  | Write_Done bool

text \<open>
  What asio may deliver: a completion of an operation under way, a success only for an
  operation started on an open socket, and then exactly the bytes the buffers hold.
\<close>

fun enabled :: "tcp_input \<Rightarrow> 'a tcp_client \<Rightarrow> bool" where
  "enabled Run_Posted c = (posted c \<noteq> [])"
| "enabled (Connect_Done ok) c = (0 < connects c)"
| "enabled (Header_Done r) c = (case reads c of (Reading_Header, opened) # _ \<Rightarrow>
     (case r of None \<Rightarrow> True | Some bytes \<Rightarrow> opened \<and> length bytes = mHeaderLength c) | _ \<Rightarrow> False)"
| "enabled (Body_Done r) c = (case reads c of (Reading_Body, opened) # _ \<Rightarrow>
     (case r of None \<Rightarrow> True
      | Some bytes \<Rightarrow> opened \<and> length bytes = sum_list (map snd (mReadBuffers c))) | _ \<Rightarrow> False)"
| "enabled (Write_Done ok) c = (writes c \<noteq> [] \<and> (ok \<longrightarrow> snd (hd (writes c))))"
| "enabled i c = True"

fun handle ::
    "('a, 'w) header_handler \<Rightarrow> 'w body_handler \<Rightarrow> ('a \<Rightarrow> u8 list \<Rightarrow> 'w \<Rightarrow> 'w) \<Rightarrow> tcp_input
      \<Rightarrow> 'a tcp_client \<times> 'w \<Rightarrow> ('a tcp_client \<times> 'w) res" where
  "handle oh ob sc (Call_Connect resolves) (c, w) = andThen (Connect resolves c) (\<lambda>c. Inr (c, w))"
| "handle oh ob sc (Call_Send buf) (c, w) = Inr (Send_buffer buf c, w)"
| "handle oh ob sc (Call_Sends vbuf) (c, w) = Inr (Send_buffers vbuf c, w)"
| "handle oh ob sc Call_Close (c, w) = Inr (Close c, w)"
| "handle oh ob sc Run_Posted (c, w) = Inr (run_posted c, w)"
| "handle oh ob sc (Connect_Done ok) (c, w) = Inr (on_connect ok c, w)"
| "handle oh ob sc (Header_Done r) (c, w) = on_header_read oh r (c, w)"
| "handle oh ob sc (Body_Done r) (c, w) = on_body_read ob sc r (c, w)"
| "handle oh ob sc (Write_Done ok) (c, w) = Inr (on_written ok c, w)"

inductive tcp_run ::
    "('a, 'w) header_handler \<Rightarrow> 'w body_handler \<Rightarrow> ('a \<Rightarrow> u8 list \<Rightarrow> 'w \<Rightarrow> 'w) \<Rightarrow> 'a tcp_client \<times> 'w
      \<Rightarrow> tcp_input list \<Rightarrow> 'a tcp_client \<times> 'w \<Rightarrow> bool"
  for oh ob sc s where
  start: "tcp_run oh ob sc s [] s"
| step: "tcp_run oh ob sc s is (c, w) \<Longrightarrow> enabled i c \<Longrightarrow> handle oh ob sc i (c, w) = Inr t \<Longrightarrow>
    tcp_run oh ob sc s (is @ [i]) t"

inductive_cases tcp_run_NilE: "tcp_run oh ob sc s [] t"
inductive_cases tcp_run_snocE: "tcp_run oh ob sc s (is @ [i]) t"

text \<open>The buffers the user has asked to send, in order.\<close>

fun submits :: "tcp_input \<Rightarrow> cell list list" where
  "submits (Call_Send buf) = [buf]"
| "submits (Call_Sends vbuf) = vbuf"
| "submits i = []"

definition submitted :: "tcp_input list \<Rightarrow> cell list list" where
  "submitted is = concat (map submits is)"

text \<open>A vector of buffers that is sent has a buffer in it.\<close>

definition sends_buffers :: "tcp_input list \<Rightarrow> bool" where
  "sends_buffers is \<longleftrightarrow> Call_Sends [] \<notin> set is"

fun task_bufs :: "tcp_task \<Rightarrow> cell list list" where
  "task_bufs (Post_Send bufs) = bufs"
| "task_bufs Post_Close = []"

definition queued :: "'a tcp_client \<Rightarrow> cell list list" where
  "queued c = concat (map task_bufs (posted c))"

definition failed_writes :: "tcp_input list \<Rightarrow> bool" where
  "failed_writes is \<longleftrightarrow> Write_Done False \<in> set is"

text \<open>
  What the user of a connection promises for a property of its own state: its two handlers
  and the memory it reads into keep it. Then every run of the connection keeps it.
\<close>

locale connection_user =
  fixes onHeader :: "('a, 'w) header_handler"
    and onBody :: "'w body_handler"
    and scatter :: "'a \<Rightarrow> u8 list \<Rightarrow> 'w \<Rightarrow> 'w"
    and keep :: "'w \<Rightarrow> bool"
  assumes header_keep: "keep w \<Longrightarrow> onHeader bytes w = Inr (ok, header, bufs, w') \<Longrightarrow> keep w'"
    and body_keep: "keep w \<Longrightarrow> onBody header w = Inr w' \<Longrightarrow> keep w'"
    and scatter_keep: "keep w \<Longrightarrow> keep (scatter a bytes w)"
begin

lemma scatter_all_keep: "keep w \<Longrightarrow> keep (scatter_all scatter bufs bytes w)"
  by (induction bufs arbitrary: bytes w) (auto simp: scatter_keep)

lemma handle_keep:
  assumes "keep w" "handle onHeader onBody scatter i (c, w) = Inr (c', w')"
  shows "keep w'"
proof (cases i)
  case (Header_Done r)
  then show ?thesis
    using assms by (cases r) (auto simp: Let_def res_simps split: if_splits dest: header_keep)
next
  case (Body_Done r)
  then show ?thesis
    using assms scatter_all_keep [OF assms(1)]
    by (cases r) (auto simp: Let_def res_simps split: if_splits option.splits dest: body_keep [rotated])
qed (use assms in \<open>auto simp: res_simps\<close>)

lemma tcp_run_keep:
  assumes "tcp_run onHeader onBody scatter (c, w) is (c', w')" "keep w"
  shows "keep w'"
  using assms
  by (induction "is" "(c', w')" arbitrary: c' w' rule: tcp_run.induct) (auto dest: handle_keep)

end

section \<open>The write side\<close>

text \<open>Everything handed to the connection and not dropped by a failed write, oldest first.\<close>

definition flow :: "'a tcp_client \<Rightarrow> cell list list" where
  "flow c = written c @ mWriteBuffers c @ mPendingBuffers c @ queued c"

definition write_side where
  "write_side c = (mWriteBuffers c, mPendingBuffers c, posted c, writes c, written c)"

definition one_write :: "'a tcp_client \<Rightarrow> bool" where
  "one_write c \<longleftrightarrow> map fst (writes c) = (if mWriteBuffers c = [] then [] else [mWriteBuffers c])"

definition write_inv :: "tcp_input list \<Rightarrow> 'a tcp_client \<Rightarrow> bool" where
  "write_inv is c \<longleftrightarrow>
     Post_Send [] \<notin> set (posted c) \<and> one_write c \<and>
     subseq (flow c) (submitted is) \<and>
     (failed_writes is \<or> flow c = submitted is \<and> (mWriteBuffers c = [] \<longrightarrow> mPendingBuffers c = []))"

lemmas write_defs = write_inv_def one_write_def flow_def queued_def submitted_def failed_writes_def

lemma submitted_snoc [simp]: "submitted (is @ [i]) = submitted is @ submits i"
  by (simp add: submitted_def)

lemma failed_writes_snoc [simp]:
  "failed_writes (is @ [i]) \<longleftrightarrow> failed_writes is \<or> i = Write_Done False"
  by (auto simp: failed_writes_def)

lemma sends_buffers_snoc [simp]:
  "sends_buffers (is @ [i]) \<longleftrightarrow> sends_buffers is \<and> i \<noteq> Call_Sends []"
  by (auto simp: sends_buffers_def)

lemma write_inv_cong: "write_side c' = write_side c \<Longrightarrow> write_inv is c' = write_inv is c"
  by (simp add: write_side_def write_defs)

lemma write_side_simps [simp]:
  "write_side (emit e c) = write_side c"
  "write_side (Close4Error type c) = write_side c"
  "write_side (ReadHeader c) = write_side c"
  "write_side (ReadBody c) = write_side c"
  "write_side (on_connect ok c) = write_side c"
  "write_side (c\<lparr>reads := rs\<rparr>) = write_side c"
  "write_side (c\<lparr>mHeaderBuffer := h\<rparr>) = write_side c"
  "write_side (c\<lparr>mReadBuffers := bs\<rparr>) = write_side c"
  "write_side (c\<lparr>isOpen := ok\<rparr>) = write_side c"
  by (simp_all add: write_side_def emit_def Close4Error_def ReadHeader_def ReadBody_def
      on_connect_def Let_def)

lemma write_side_header: "on_header_read oh r (c, w) = Inr (c', w') \<Longrightarrow> write_side c' = write_side c"
  by (cases r) (auto simp: Let_def res_simps split: if_splits)

lemma write_side_body: "on_body_read ob sc r (c, w) = Inr (c', w') \<Longrightarrow> write_side c' = write_side c"
  by (cases r) (auto simp: Let_def res_simps split: if_splits option.splits)

lemma write_side_connect: "Connect ok c = Inr c' \<Longrightarrow> write_side c' = write_side c"
  by (auto simp: Connect_def write_side_def split: if_splits)

text \<open>The completions and calls that concern reading leave the write side alone.\<close>

lemma handle_write_side:
  assumes "handle oh ob sc i (c, w) = Inr (c', w')"
    and "\<And>buf. i \<noteq> Call_Send buf" "\<And>bufs. i \<noteq> Call_Sends bufs" "i \<noteq> Call_Close"
    and "i \<noteq> Run_Posted" "\<And>ok. i \<noteq> Write_Done ok"
  shows "write_side c' = write_side c"
  using assms
  by (cases i) (auto simp: res_simps write_side_connect dest: write_side_header write_side_body)

lemma subseq_drop_middle: "subseq (xs @ ys @ zs) us \<Longrightarrow> subseq (xs @ zs) us"
  by (meson subseq_append_iff subseq_order.order_refl subseq_order.order_trans list_emb_append_mono
      subseq_rev_drop_many subseq_drop_many)

lemma write_inv_run_send:
  assumes "write_inv is c" "posted c = Post_Send bufs # ts"
  shows "write_inv (is @ [Run_Posted]) (run_send bufs (c\<lparr>posted := ts\<rparr>))"
proof -
  have "bufs \<noteq> []" using assms by (auto simp: write_inv_def)
  with assms show ?thesis by (auto simp: write_defs run_send_def Send_def Let_def)
qed

lemma write_inv_written:
  assumes "write_inv is c" "writes c \<noteq> []"
  shows "write_inv (is @ [Write_Done ok]) (on_written ok c)"
proof -
  obtain opened where wr: "writes c = [(mWriteBuffers c, opened)]" "mWriteBuffers c \<noteq> []"
    using assms by (auto simp: write_inv_def one_write_def map_eq_Cons_conv split: if_splits)
  have "subseq (written c @ mPendingBuffers c @ queued c) (submitted is)"
    using assms(1) by (auto simp: write_inv_def flow_def dest: subseq_drop_middle)
  with assms(1) wr show ?thesis
    by (cases ok; cases "mPendingBuffers c = []")
      (auto simp: write_inv_def one_write_def flow_def queued_def on_written_def Send_def
        Close4Error_def emit_def Let_def)
qed

lemma write_inv_neutral:
  assumes "write_inv is c" "write_side c' = write_side c" "submits i = []" "i \<noteq> Write_Done False"
  shows "write_inv (is @ [i]) c'"
  using assms write_inv_cong [OF assms(2), of "is @ [i]"] by (simp add: write_inv_def)

lemma Send_buffer_buffers: "Send_buffer buf c = Send_buffers [buf] c"
  by (simp add: Send_buffer_def Send_buffers_def)

lemma write_inv_Send_buffers:
  assumes "write_inv is c" "bufs \<noteq> []" "submits i = bufs"
  shows "write_inv (is @ [i]) (Send_buffers bufs c)"
proof -
  have "flow (Send_buffers bufs c) = flow c @ bufs"
    by (simp add: flow_def queued_def Send_buffers_def)
  moreover have "i \<noteq> Write_Done False" using assms by auto
  ultimately show ?thesis
    using assms by (auto simp: write_inv_def one_write_def Send_buffers_def list_emb_append_mono)
qed

lemma write_inv_run_close:
  assumes "write_inv is c" "posted c = Post_Close # ts"
  shows "write_inv (is @ [Run_Posted]) (run_close (c\<lparr>posted := ts\<rparr>))"
  using assms by (auto simp: write_defs run_close_def emit_def)

lemma write_inv_Call_Close:
  assumes "write_inv is c"
  shows "write_inv (is @ [Call_Close]) (Close c)"
  using assms by (auto simp: write_defs Close_def)

lemma write_inv_step:
  assumes "write_inv is c" "enabled i c" "handle oh ob sc i (c, w) = Inr (c', w')"
    and "i \<noteq> Call_Sends []"
  shows "write_inv (is @ [i]) c'"
proof -
  note neutral = write_inv_neutral [OF assms(1) handle_write_side [OF assms(3)]]
  show ?thesis
  proof (cases i)
    case Run_Posted
    then show ?thesis
      using assms write_inv_run_send [OF assms(1)] write_inv_run_close [OF assms(1)]
      by (auto simp: run_posted_def split: list.splits tcp_task.splits)
  next
    case (Write_Done ok)
    then show ?thesis using assms write_inv_written [OF assms(1)] by auto
  next
    case (Call_Send buf)
    then show ?thesis
      using assms(3) write_inv_Send_buffers [OF assms(1), of "[buf]" i]
      by (auto simp: Send_buffer_buffers)
  next
    case (Call_Sends bufs)
    then show ?thesis using assms(3,4) write_inv_Send_buffers [OF assms(1), of bufs i] by auto
  next
    case Call_Close
    then show ?thesis using assms(3) write_inv_Call_Close [OF assms(1)] by auto
  qed (rule neutral; simp)+
qed

lemma tcp_run_write_inv:
  assumes "tcp_run oh ob sc (TcpClient n, w) is (c, w')" "sends_buffers is"
  shows "write_inv is c"
  using assms
proof (induction "is" "(c, w')" arbitrary: c w' rule: tcp_run.induct)
  case start
  then show ?case by (simp add: write_defs TcpClient_def)
next
  case (step "is" c w i)
  then show ?case using write_inv_step by auto
qed

section \<open>The read side\<close>

fun connect_calls :: "tcp_input list \<Rightarrow> nat" where
  "connect_calls [] = 0"
| "connect_calls (Call_Connect ok # is) = Suc (connect_calls is)"
| "connect_calls (_ # is) = connect_calls is"

lemma connect_calls_append [simp]: "connect_calls (is @ js) = connect_calls is + connect_calls js"
  by (induction "is" rule: connect_calls.induct) simp_all

text \<open>The read under way and the connect under way, whichever the chain is at.\<close>

definition readers :: "'a tcp_client \<Rightarrow> nat" where
  "readers c = connects c + length (reads c)"

lemma readers_simps [simp]:
  "readers (emit e c) = readers c" "readers (Close4Error type c) = readers c"
  "readers (ReadHeader c) = Suc (readers c)" "readers (ReadBody c) = Suc (readers c)"
  "readers (c\<lparr>isOpen := ok\<rparr>) = readers c" "readers (c\<lparr>posted := ts\<rparr>) = readers c"
  "readers (c\<lparr>mHeaderBuffer := h\<rparr>) = readers c" "readers (c\<lparr>mReadBuffers := bs\<rparr>) = readers c"
  by (simp_all add: readers_def emit_def Close4Error_def ReadHeader_def ReadBody_def)

lemma readers_write [simp]:
  "readers (Send c) = readers c" "readers (run_send bufs c) = readers c"
  "readers (run_close c) = readers c" "readers (run_posted c) = readers c"
  "readers (on_written ok c) = readers c"
  by (auto simp: readers_def Send_def run_send_def run_close_def run_posted_def on_written_def
      Close4Error_def emit_def Let_def split: list.splits tcp_task.splits)

lemma readers_tl: "reads c \<noteq> [] \<Longrightarrow> Suc (readers (c\<lparr>reads := tl (reads c)\<rparr>)) = readers c"
  by (cases "reads c") (simp_all add: readers_def)

lemma readers_header:
  assumes "reads c \<noteq> []" "on_header_read oh r (c, w) = Inr (c', w')"
  shows "readers c' \<le> readers c"
  using assms readers_tl [OF assms(1)]
  by (cases r) (auto simp: Let_def res_simps split: if_splits)

lemma readers_body:
  assumes "reads c \<noteq> []" "on_body_read ob sc r (c, w) = Inr (c', w')"
  shows "readers c' \<le> readers c"
  using assms readers_tl [OF assms(1)]
  by (cases r) (auto simp: Let_def res_simps split: if_splits option.splits)

lemma readers_step:
  assumes "enabled i c" "handle oh ob sc i (c, w) = Inr (c', w')"
  shows "readers c' \<le> readers c + connect_calls [i]"
proof (cases i)
  case (Call_Connect ok)
  then show ?thesis using assms by (auto simp: res_simps Connect_def readers_def split: if_splits)
next
  case (Connect_Done ok)
  then show ?thesis
    using assms by (auto simp: on_connect_def Let_def readers_def emit_def ReadHeader_def)
next
  case (Header_Done r)
  then have "reads c \<noteq> []" using assms(1) by (auto split: list.splits)
  with Header_Done assms(2) show ?thesis using readers_header by fastforce
next
  case (Body_Done r)
  then have "reads c \<noteq> []" using assms(1) by (auto split: list.splits)
  with Body_Done assms(2) show ?thesis using readers_body by fastforce
qed (use assms in \<open>auto simp: Send_buffer_def Send_buffers_def Close_def\<close>)

lemma tcp_run_readers:
  assumes "tcp_run oh ob sc (TcpClient n, w) is (c, w')"
  shows "readers c \<le> connect_calls is"
  using assms
proof (induction "is" "(c, w')" arbitrary: c w' rule: tcp_run.induct)
  case start
  then show ?case by (simp add: readers_def TcpClient_def)
next
  case (step "is" c1 w1 i)
  then show ?case using readers_step [OF step.hyps(3,4)] by simp
qed

section \<open>Draining\<close>

lemma tcp_run_trans:
  assumes "tcp_run oh ob sc s is t" "tcp_run oh ob sc t js u"
  shows "tcp_run oh ob sc s (is @ js) u"
  using assms(2)
proof (induction js u rule: tcp_run.induct)
  case start
  show ?case using assms(1) by simp
next
  case (step js c w i t)
  then show ?case using tcp_run.step by (metis append_assoc)
qed

lemma tcp_run_one:
  assumes "enabled i c" "handle oh ob sc i (c, w) = Inr t"
  shows "tcp_run oh ob sc (c, w) [i] t"
  using tcp_run.step [OF tcp_run.start assms] by simp

definition writable :: "'a tcp_client \<Rightarrow> bool" where
  "writable c \<longleftrightarrow> isOpen c \<and> Post_Close \<notin> set (posted c) \<and> (\<forall>w \<in> set (writes c). snd w)"

lemma writable_run_posted: "writable c \<Longrightarrow> writable (run_posted c)"
  by (auto simp: writable_def run_posted_def run_send_def Send_def Let_def
      split: list.splits tcp_task.splits)

lemma writable_on_written: "writable c \<Longrightarrow> writable (on_written True c)"
  by (cases "writes c") (auto simp: writable_def on_written_def Send_def Let_def)

text \<open>How much is left to do: tasks to run and writes to complete.\<close>

definition write_work :: "'a tcp_client \<Rightarrow> nat" where
  "write_work c = 3 * length (posted c) + 2 * (if mPendingBuffers c = [] then 0 else 1) +
     length (writes c)"

lemma write_work_run_posted: "posted c \<noteq> [] \<Longrightarrow> Post_Close \<notin> set (posted c) \<Longrightarrow>
    mWriteBuffers c = [] \<longrightarrow> mPendingBuffers c = [] \<Longrightarrow> write_work (run_posted c) < write_work c"
  by (auto simp: write_work_def run_posted_def run_send_def Send_def Let_def
      split: list.splits tcp_task.splits)

lemma write_work_on_written: "writes c \<noteq> [] \<Longrightarrow> write_work (on_written True c) < write_work c"
  by (auto simp: write_work_def on_written_def Send_def Let_def)

lemma write_inv_quiescent:
  assumes "write_inv is c" "\<not> failed_writes is" "posted c = []" "writes c = []"
  shows "written c = submitted is"
  using assms by (auto simp: write_defs split: if_splits)

lemma drain:
  assumes "write_inv is c" "\<not> failed_writes is" "writable c"
  shows "\<exists>js c'. tcp_run oh ob sc (c, w) js (c', w) \<and> set js \<subseteq> {Run_Posted, Write_Done True} \<and>
    written c' = submitted is"
  using assms
proof (induction "write_work c" arbitrary: "is" c rule: less_induct)
  case less
  show ?case
  proof (cases "posted c = [] \<and> writes c = []")
    case True
    then have "written c = submitted is" using less.prems by (intro write_inv_quiescent) auto
    then show ?thesis using tcp_run.start by fastforce
  next
    case False
    define i where "i = (if posted c \<noteq> [] then Run_Posted else Write_Done True)"
    define c1 where "c1 = (if posted c \<noteq> [] then run_posted c else on_written True c)"
    have en: "enabled i c"
      using False less.prems(3) by (auto simp: i_def writable_def)
    have hd: "handle oh ob sc i (c, w) = Inr (c1, w)" by (simp add: i_def c1_def)
    have inv: "write_inv (is @ [i]) c1"
      by (rule write_inv_step [OF less.prems(1) en hd]) (simp add: i_def)
    have sub: "submitted (is @ [i]) = submitted is" by (simp add: i_def)
    have nf: "\<not> failed_writes (is @ [i])" using less.prems(2) by (simp add: i_def)
    have wr: "writable c1"
      using less.prems(3) by (simp add: c1_def writable_run_posted writable_on_written)
    have "write_work c1 < write_work c"
      using less.prems False
      by (auto simp: c1_def writable_def write_inv_def
          intro!: write_work_run_posted write_work_on_written)
    from less.hyps [OF this inv nf wr] obtain js c' where
      js: "tcp_run oh ob sc (c1, w) js (c', w)" "set js \<subseteq> {Run_Posted, Write_Done True}"
        "written c' = submitted is" using sub by auto
    have "tcp_run oh ob sc (c, w) ([i] @ js) (c', w)"
      by (rule tcp_run_trans [OF tcp_run_one [OF en hd] js(1)])
    moreover have "set ([i] @ js) \<subseteq> {Run_Posted, Write_Done True}" using js(2) by (simp add: i_def)
    ultimately show ?thesis using js(3) by blast
  qed
qed

section \<open>Properties\<close>

text \<open>
  C6 Sending keeps order and invents nothing. After any run of calls and completions, the
  buffers written to the peer, in flight, pending and posted are, in this order, a
  subsequence of the buffers submitted; and they are all of them while no write has failed.
\<close>

theorem tcp_fifo:
  assumes "tcp_run oh ob sc (TcpClient n, w) is (c, w')" "sends_buffers is"
  shows "subseq (written c @ mWriteBuffers c @ mPendingBuffers c @ queued c) (submitted is) \<and>
    (\<not> failed_writes is \<longrightarrow>
      written c @ mWriteBuffers c @ mPendingBuffers c @ queued c = submitted is)"
  using tcp_run_write_inv [OF assms] by (auto simp: write_inv_def flow_def)

definition no_header :: "(nat, unit) header_handler" where
  "no_header bytes w = Inr (False, bytes, [], w)"

definition no_body :: "unit body_handler" where
  "no_body header w = Inr w"

lemma tcp_run_two_sends:
  "tcp_run no_header no_body (\<lambda>a bs w. w) (TcpClient 24, ())
     [Call_Connect True, Call_Send [Some 1], Run_Posted, Call_Send [Some 2], Run_Posted]
     (run_posted (Send_buffer [Some 2] (run_posted (Send_buffer [Some 1]
        ((TcpClient 24)\<lparr>isOpen := True, connects := 1\<rparr>)))), ())"
proof -
  have *: "[Call_Connect True, Call_Send [Some 1], Run_Posted, Call_Send [Some 2], Run_Posted] =
    ((([Call_Connect True] @ [Call_Send [Some 1]]) @ [Run_Posted]) @ [Call_Send [Some 2]]) @ [Run_Posted]"
    by simp
  show ?thesis
    unfolding *
    by (rule tcp_run.step tcp_run_one | simp add: Connect_def TcpClient_def Send_buffer_def)+
qed

theorem tcp_fifo_witness:
  "written (run_posted (Send_buffer [Some 2] (run_posted (Send_buffer [Some 1]
      ((TcpClient 24 :: nat tcp_client)\<lparr>isOpen := True, connects := 1\<rparr>))))) @ [[Some 1]] @ [[Some 2]] =
   [[Some 1], [Some 2 :: cell]]"
  using tcp_fifo [OF tcp_run_two_sends]
  by (simp add: sends_buffers_def failed_writes_def submitted_def TcpClient_def Send_buffer_def
      run_posted_def run_send_def Send_def queued_def)

text \<open>
  C7 As long as no empty vector of buffers is sent, at most one write is under way, it writes exactly
  \<^verbatim>\<open>mWriteBuffers\<close>, and there is one whenever \<^verbatim>\<open>mWriteBuffers\<close> is not empty; with one \<^verbatim>\<open>Connect\<close>
  there is at most one read under way. So \<^verbatim>\<open>async_write\<close> and \<^verbatim>\<open>async_read\<close> are never started on
  a stream that is busy. The theorem \<open>tcp_empty_send_overlaps\<close> shows that the condition is needed.
\<close>

theorem tcp_one_operation:
  assumes "tcp_run oh ob sc (TcpClient n, w) is (c, w')" "sends_buffers is"
  shows "map fst (writes c) = (if mWriteBuffers c = [] then [] else [mWriteBuffers c]) \<and>
    connects c + length (reads c) \<le> connect_calls is"
  using tcp_run_write_inv [OF assms] tcp_run_readers [OF assms(1)]
  by (auto simp: write_inv_def one_write_def readers_def)

theorem tcp_one_operation_witness:
  "map fst (writes (run_posted (Send_buffer [Some 2] (run_posted (Send_buffer [Some 1]
      ((TcpClient 24 :: nat tcp_client)\<lparr>isOpen := True, connects := 1\<rparr>)))))) = [[[Some 1]]]"
  using tcp_one_operation [OF tcp_run_two_sends]
  by (simp add: sends_buffers_def TcpClient_def Send_buffer_def run_posted_def run_send_def Send_def)

text \<open>
  The guard on empty vectors is needed: after a \<^verbatim>\<open>Send\<close> of an empty vector a second write
  is started while the first is still under way.
\<close>

theorem tcp_empty_send_overlaps:
  "\<exists>c. tcp_run oh ob sc (TcpClient n, w) [Call_Sends [], Run_Posted, Call_Send buf, Run_Posted] (c, w) \<and>
     length (writes c) = 2"
proof -
  let ?c = "run_posted (Send_buffer buf (run_posted (Send_buffers [] (TcpClient n))))"
  have *: "[Call_Sends [], Run_Posted, Call_Send buf, Run_Posted] =
    (([Call_Sends []] @ [Run_Posted]) @ [Call_Send buf]) @ [Run_Posted]" by simp
  have "tcp_run oh ob sc (TcpClient n, w) [Call_Sends [], Run_Posted, Call_Send buf, Run_Posted] (?c, w)"
    unfolding * by (rule tcp_run.step tcp_run_one | simp add: Send_buffer_def Send_buffers_def)+
  moreover have "length (writes ?c) = 2"
    by (simp add: TcpClient_def Send_buffer_def Send_buffers_def run_posted_def run_send_def Send_def)
  ultimately show ?thesis by blast
qed

text \<open>
  C8 Nothing gets stuck. From every state reached without a failed write, on an open socket,
  running the posted tasks and completing the writes writes everything that was submitted.
\<close>

theorem tcp_drains:
  assumes "tcp_run oh ob sc (TcpClient n, w) is (c, w')" "sends_buffers is"
    and "\<not> failed_writes is" "writable c"
  shows "\<exists>js c'. tcp_run oh ob sc (TcpClient n, w) (is @ js) (c', w') \<and>
    set js \<subseteq> {Run_Posted, Write_Done True} \<and> written c' = submitted is"
  using drain [OF tcp_run_write_inv [OF assms(1,2)] assms(3,4), of oh ob sc w']
    tcp_run_trans [OF assms(1)] by blast

theorem tcp_drains_witness:
  "\<exists>js c'. tcp_run no_header no_body (\<lambda>a bs w. w) (TcpClient 24, ())
      ([Call_Connect True, Call_Send [Some 1], Run_Posted, Call_Send [Some 2], Run_Posted] @ js) (c', ()) \<and>
    set js \<subseteq> {Run_Posted, Write_Done True} \<and> written c' = [[Some 1], [Some 2]]"
  using tcp_drains [OF tcp_run_two_sends]
  by (simp add: sends_buffers_def failed_writes_def submitted_def writable_def TcpClient_def
      Send_buffer_def run_posted_def run_send_def Send_def)

end
