(* ===== verification/Shared_Buffer.thy ===== *)
theory Shared_Buffer
  imports Prelude "HOL-Library.AList"
begin

text \<open>
  \<^verbatim>\<open>network/SharedBuffer.h\<close>: a handle on a buffer (an address and a size, \<^verbatim>\<open>mutable_buffer\<close> or
  \<^verbatim>\<open>const_buffer\<close>) that lives in the static pool \<^verbatim>\<open>gBufferPool\<close> and is shared between copies of the
  handle; when the last copy goes, the deleter runs. A variable of type \<^verbatim>\<open>Buffer\<close> is a number,
  \<open>sb_handles\<close> maps the variables that exist to the pool object their \<^verbatim>\<open>mData\<close> owns. Of
  \<^verbatim>\<open>boost::shared_ptr\<close> the model has what its documentation promises: the deleter is called when
  the last owner is destroyed or reset. \<open>sb_disposed\<close> is the history of those calls. Objects a buffer wraps
  (\<open>InObject\<close>) are assumed to live as long as the buffer and to keep their size: that is up to the
  caller, no code of the header can know it.
\<close>

section \<open>Memory\<close>

text \<open>
  An address is an offset in a block of \<^verbatim>\<open>malloc\<close> or in an object that is not on the heap (a member
  of a result, the characters of a string). A pool never gives an address twice here.
\<close>

datatype data_ptr = Malloced ptr nat | InObject ptr nat

record world =
  wd_heap :: "ptr \<Rightarrow> cell list option"
  wd_next :: ptr
  wd_objects :: "ptr \<Rightarrow> cell list"
  wd_console :: "string list"

definition malloc :: "nat \<Rightarrow> world \<Rightarrow> data_ptr \<times> world" where
  "malloc n w =
     (Malloced (wd_next w) 0,
      w\<lparr>wd_heap := (wd_heap w)(wd_next w := Some (replicate n None)), wd_next := Suc (wd_next w)\<rparr>)"

text \<open>\<^verbatim>\<open>free\<close> wants the start of a block that \<^verbatim>\<open>malloc\<close> gave and nobody freed.\<close>

definition free :: "data_ptr \<Rightarrow> world \<Rightarrow> world res" where
  "free d w =
     (case d of
        Malloced r 0 \<Rightarrow> (if wd_heap w r = None then Inl UseAfterFree
                       else Inr (w\<lparr>wd_heap := (wd_heap w)(r := None)\<rparr>))
      | _ \<Rightarrow> Inl OutOfBounds)"

definition region :: "data_ptr \<Rightarrow> world \<Rightarrow> cell list res" where
  "region d w =
     (case d of
        Malloced r k \<Rightarrow> (case wd_heap w r of None \<Rightarrow> Inl UseAfterFree | Some cs \<Rightarrow> Inr (drop k cs))
      | InObject p k \<Rightarrow> Inr (drop k (wd_objects w p)))"

definition read_mem :: "data_ptr \<Rightarrow> nat \<Rightarrow> world \<Rightarrow> cell list res" where
  "read_mem d n w =
     andThen (region d w) (\<lambda>cs. if n \<le> length cs then Inr (take n cs) else Inl OutOfBounds)"

definition write_mem :: "data_ptr \<Rightarrow> cell list \<Rightarrow> world \<Rightarrow> world res" where
  "write_mem d xs w =
     (case d of
        Malloced r k \<Rightarrow>
          (case wd_heap w r of
             None \<Rightarrow> Inl UseAfterFree
           | Some cs \<Rightarrow> andThen (poke cs k xs) (\<lambda>cs. Inr (w\<lparr>wd_heap := (wd_heap w)(r := Some cs)\<rparr>)))
      | InObject p k \<Rightarrow>
          andThen (poke (wd_objects w p) k xs) (\<lambda>cs. Inr (w\<lparr>wd_objects := (wd_objects w)(p := cs)\<rparr>)))"

fun plus_ptr :: "data_ptr \<Rightarrow> nat \<Rightarrow> data_ptr" where
  "plus_ptr (Malloced r k) n = Malloced r (k + n)"
| "plus_ptr (InObject p k) n = InObject p (k + n)"

section \<open>Handles and the pool\<close>

record value_buffer =
  buffer_cast :: data_ptr
  buffer_size :: nat

text \<open>
  The functions the program passes for \<^verbatim>\<open>D\<close>: \<^verbatim>\<open>DefaultD\<close>, and the lambdas around \<^verbatim>\<open>free\<close> of the
  requests and of \<^verbatim>\<open>MemResult\<close>. The deleter of a \<^verbatim>\<open>shared_ptr\<close> is \<^verbatim>\<open>bind(Free, _1, d)\<close>, or
  \<^verbatim>\<open>DefaultD\<close> itself where the buffer is made of a string.
\<close>

datatype D = D_default | D_free

datatype deleter = BindFree D | PlainDefaultD

record buffers =
  sb_handles :: "(nat \<times> ptr option) list"
  sb_deleter :: "ptr \<Rightarrow> deleter"
  sb_next :: ptr
  gBufferPool :: "ptr \<Rightarrow> value_buffer option"
  sb_world :: world
  sb_disposed :: "ptr list"

definition construct :: "data_ptr \<Rightarrow> nat \<Rightarrow> buffers \<Rightarrow> ptr \<times> buffers" where
  "construct d n s =
     (sb_next s,
      s\<lparr>gBufferPool := (gBufferPool s)(sb_next s \<mapsto> \<lparr>buffer_cast = d, buffer_size = n\<rparr>),
        sb_next := Suc (sb_next s)\<rparr>)"

definition destroy_object :: "ptr \<Rightarrow> buffers \<Rightarrow> buffers res" where
  "destroy_object b s =
     (case gBufferPool s b of
        None \<Rightarrow> Inl UseAfterFree
      | Some vb \<Rightarrow> Inr (s\<lparr>gBufferPool := (gBufferPool s)(b := None)\<rparr>))"

definition DefaultD :: "world \<Rightarrow> world" where
  "DefaultD w = w\<lparr>wd_console := wd_console w @ [''buf freed'']\<rparr>"

fun call_D :: "D \<Rightarrow> data_ptr \<Rightarrow> world \<Rightarrow> world res" where
  "call_D D_default d w = Inr (DefaultD w)"
| "call_D D_free d w = free d w"

definition Free :: "ptr \<Rightarrow> D \<Rightarrow> buffers \<Rightarrow> buffers res" where
  "Free pBuffer d s =
     (case gBufferPool s pBuffer of
        None \<Rightarrow> Inl UseAfterFree
      | Some vb \<Rightarrow> andThen (call_D d (buffer_cast vb) (sb_world s)) (\<lambda>w.
          destroy_object pBuffer (s\<lparr>sb_world := w\<rparr>)))"

definition dispose :: "ptr \<Rightarrow> buffers \<Rightarrow> buffers res" where
  "dispose b s =
     (let s = s\<lparr>sb_disposed := sb_disposed s @ [b]\<rparr>
      in case sb_deleter s b of
           BindFree d \<Rightarrow> Free b d s
         | PlainDefaultD \<Rightarrow> Inr (s\<lparr>sb_world := DefaultD (sb_world s)\<rparr>))"

definition owned :: "buffers \<Rightarrow> ptr \<Rightarrow> bool" where
  "owned s b \<longleftrightarrow> Some b \<in> snd ` set (sb_handles s)"

text \<open>The old value of a handle that was overwritten or destroyed.\<close>

definition release :: "ptr option \<Rightarrow> buffers \<Rightarrow> buffers res" where
  "release h s =
     (case h of None \<Rightarrow> Inr s | Some b \<Rightarrow> if owned s b then Inr s else dispose b s)"

definition mData :: "buffers \<Rightarrow> nat \<Rightarrow> ptr option" where
  "mData s v = (case map_of (sb_handles s) v of None \<Rightarrow> None | Some h \<Rightarrow> h)"

definition set_handle :: "nat \<Rightarrow> ptr option \<Rightarrow> buffers \<Rightarrow> buffers" where
  "set_handle v h s = s\<lparr>sb_handles := AList.update v h (sb_handles s)\<rparr>"

section \<open>Operations\<close>

definition new_shared :: "data_ptr \<Rightarrow> nat \<Rightarrow> deleter \<Rightarrow> buffers \<Rightarrow> ptr \<times> buffers" where
  "new_shared d n del s =
     (let (b, s) = construct d n s in (b, s\<lparr>sb_deleter := (sb_deleter s)(b := del)\<rparr>))"

definition SharedBuffer :: "nat \<Rightarrow> data_ptr \<Rightarrow> nat \<Rightarrow> D \<Rightarrow> buffers \<Rightarrow> buffers" where
  "SharedBuffer v d n del s =
     (let (b, s) = new_shared d n (BindFree del) s in set_handle v (Some b) s)"

definition SharedBuffer_string :: "nat \<Rightarrow> ptr \<Rightarrow> buffers \<Rightarrow> buffers" where
  "SharedBuffer_string v str s =
     (let (b, s) = new_shared (InObject str 0) (length (wd_objects (sb_world s) str)) PlainDefaultD s
      in set_handle v (Some b) s)"

definition SharedBuffer_null :: "nat \<Rightarrow> buffers \<Rightarrow> buffers" where
  "SharedBuffer_null v s = set_handle v None s"

definition Reset :: "nat \<Rightarrow> data_ptr \<Rightarrow> nat \<Rightarrow> D \<Rightarrow> buffers \<Rightarrow> buffers res" where
  "Reset v d n del s =
     (let h = mData s v; (b, s) = new_shared d n (BindFree del) s
      in release h (set_handle v (Some b) s))"

text \<open>The copy constructor, assignment and destructor the compiler provides.\<close>

definition SharedBuffer_copy :: "nat \<Rightarrow> nat \<Rightarrow> buffers \<Rightarrow> buffers" where
  "SharedBuffer_copy v u s = set_handle v (mData s u) s"

definition SharedBuffer_assign :: "nat \<Rightarrow> nat \<Rightarrow> buffers \<Rightarrow> buffers res" where
  "SharedBuffer_assign v u s = release (mData s v) (set_handle v (mData s u) s)"

definition SharedBuffer_destroy :: "nat \<Rightarrow> buffers \<Rightarrow> buffers res" where
  "SharedBuffer_destroy v s =
     release (mData s v) (s\<lparr>sb_handles := AList.delete v (sb_handles s)\<rparr>)"

definition deref :: "nat \<Rightarrow> buffers \<Rightarrow> value_buffer res" where
  "deref v s =
     (case mData s v of
        None \<Rightarrow> Inl NullPointer
      | Some b \<Rightarrow> (case gBufferPool s b of None \<Rightarrow> Inl UseAfterFree | Some vb \<Rightarrow> Inr vb))"

definition GetHeader :: "nat \<Rightarrow> buffers \<Rightarrow> data_ptr res" where
  "GetHeader v s = andThen (deref v s) (\<lambda>vb. Inr (buffer_cast vb))"

definition GetBody :: "nat \<Rightarrow> nat \<Rightarrow> buffers \<Rightarrow> data_ptr res" where
  "GetBody sizeT v s = andThen (deref v s) (\<lambda>vb. Inr (plus_ptr (buffer_cast vb) sizeT))"

definition IsNull :: "nat \<Rightarrow> buffers \<Rightarrow> bool" where
  "IsNull v s \<longleftrightarrow> mData s v = None"

definition Size :: "nat \<Rightarrow> buffers \<Rightarrow> nat res" where
  "Size v s = andThen (deref v s) (\<lambda>vb. Inr (buffer_size vb))"

definition buffer_ToString :: "nat \<Rightarrow> buffers \<Rightarrow> cell list res" where
  "buffer_ToString v s =
     andThen (deref v s) (\<lambda>vb. read_mem (buffer_cast vb) (buffer_size vb) (sb_world s))"

text \<open>A write through an address the buffer gave.\<close>

definition write_at :: "data_ptr \<Rightarrow> cell list \<Rightarrow> buffers \<Rightarrow> buffers res" where
  "write_at d xs s = andThen (write_mem d xs (sb_world s)) (\<lambda>w. Inr (s\<lparr>sb_world := w\<rparr>))"

text \<open>
  \<^verbatim>\<open>Buffer v(malloc(n), n, free)\<close> and \<^verbatim>\<open>v.Reset(malloc(n), n, free)\<close>, as every request and
  \<^verbatim>\<open>MemResult\<close> write it.
\<close>

definition malloc_buffer :: "nat \<Rightarrow> nat \<Rightarrow> buffers \<Rightarrow> buffers" where
  "malloc_buffer v n s =
     (let (d, w) = malloc n (sb_world s) in SharedBuffer v d n D_free (s\<lparr>sb_world := w\<rparr>))"

definition malloc_reset :: "nat \<Rightarrow> nat \<Rightarrow> buffers \<Rightarrow> buffers res" where
  "malloc_reset v n s =
     (let (d, w) = malloc n (sb_world s) in Reset v d n D_free (s\<lparr>sb_world := w\<rparr>))"

section \<open>Runs\<close>

text \<open>What code that holds handles can do, one operation at a time.\<close>

datatype buffer_input =
    DoMalloc nat nat | DoWrap nat ptr nat | DoString nat ptr | DoNull nat
  | DoCopy nat nat | DoAssign nat nat | DoDestroy nat | DoReset nat nat | DoResetWrap nat ptr nat
  | DoWrite nat nat "cell list"

definition exists_handle :: "buffers \<Rightarrow> nat \<Rightarrow> bool" where
  "exists_handle s v \<longleftrightarrow> v \<in> fst ` set (sb_handles s)"

text \<open>
  A constructor makes a new variable, every other operation is on one that exists. A write stays
  within the size of its buffer, and the objects a buffer refers to have the size it was made with.
\<close>

fun buffer_enabled :: "buffer_input \<Rightarrow> buffers \<Rightarrow> bool" where
  "buffer_enabled (DoMalloc v n) s \<longleftrightarrow> \<not> exists_handle s v"
| "buffer_enabled (DoWrap v p n) s \<longleftrightarrow> \<not> exists_handle s v \<and> n \<le> length (wd_objects (sb_world s) p)"
| "buffer_enabled (DoString v p) s \<longleftrightarrow> \<not> exists_handle s v"
| "buffer_enabled (DoNull v) s \<longleftrightarrow> \<not> exists_handle s v"
| "buffer_enabled (DoCopy v u) s \<longleftrightarrow> \<not> exists_handle s v \<and> exists_handle s u"
| "buffer_enabled (DoAssign v u) s \<longleftrightarrow> exists_handle s v \<and> exists_handle s u"
| "buffer_enabled (DoDestroy v) s \<longleftrightarrow> exists_handle s v"
| "buffer_enabled (DoReset v n) s \<longleftrightarrow> exists_handle s v"
| "buffer_enabled (DoResetWrap v p n) s \<longleftrightarrow>
     exists_handle s v \<and> n \<le> length (wd_objects (sb_world s) p)"
| "buffer_enabled (DoWrite v k xs) s \<longleftrightarrow>
     exists_handle s v \<and> (case Size v s of Inl e \<Rightarrow> False | Inr n \<Rightarrow> k + length xs \<le> n)"

fun buffer_step :: "buffer_input \<Rightarrow> buffers \<Rightarrow> buffers res" where
  "buffer_step (DoMalloc v n) s = Inr (malloc_buffer v n s)"
| "buffer_step (DoWrap v p n) s = Inr (SharedBuffer v (InObject p 0) n D_default s)"
| "buffer_step (DoString v p) s = Inr (SharedBuffer_string v p s)"
| "buffer_step (DoNull v) s = Inr (SharedBuffer_null v s)"
| "buffer_step (DoCopy v u) s = Inr (SharedBuffer_copy v u s)"
| "buffer_step (DoAssign v u) s = SharedBuffer_assign v u s"
| "buffer_step (DoDestroy v) s = SharedBuffer_destroy v s"
| "buffer_step (DoReset v n) s = malloc_reset v n s"
| "buffer_step (DoResetWrap v p n) s = Reset v (InObject p 0) n D_default s"
| "buffer_step (DoWrite v k xs) s = andThen (GetBody k v s) (\<lambda>d. write_at d xs s)"

definition no_buffers :: "(ptr \<Rightarrow> cell list) \<Rightarrow> buffers" where
  "no_buffers objs =
     \<lparr>sb_handles = [], sb_deleter = (\<lambda>b. PlainDefaultD), sb_next = 0, gBufferPool = (\<lambda>b. None),
      sb_world = \<lparr>wd_heap = (\<lambda>r. None), wd_next = 0, wd_objects = objs, wd_console = []\<rparr>,
      sb_disposed = []\<rparr>"

inductive buffer_run :: "(ptr \<Rightarrow> cell list) \<Rightarrow> buffers \<Rightarrow> bool" for objs where
  start: "buffer_run objs (no_buffers objs)"
| step: "buffer_run objs s \<Longrightarrow> buffer_enabled i s \<Longrightarrow> buffer_step i s = Inr s' \<Longrightarrow> buffer_run objs s'"

section \<open>The invariant\<close>

text \<open>
  \<open>held\<close> and \<open>gone\<close> split the pool objects made so far. A pool object is freed with its deleter,
  except those made of a string. The blocks of \<^verbatim>\<open>malloc\<close> belong one to one to the objects with the
  freeing deleter that are held.
\<close>

definition held :: "buffers \<Rightarrow> ptr set" where
  "held s = {b. Some b \<in> snd ` set (sb_handles s)}"

definition gone :: "buffers \<Rightarrow> ptr set" where
  "gone s = set (sb_disposed s)"

definition held_block :: "buffers \<Rightarrow> ptr \<Rightarrow> ptr \<Rightarrow> bool" where
  "held_block s b r \<longleftrightarrow> sb_deleter s b = BindFree D_free \<and>
     (\<exists>cs. wd_heap (sb_world s) r = Some cs \<and>
       gBufferPool s b = Some \<lparr>buffer_cast = Malloced r 0, buffer_size = length cs\<rparr>)"

definition object_ok :: "buffers \<Rightarrow> ptr \<Rightarrow> bool" where
  "object_ok s b \<longleftrightarrow>
     (if sb_deleter s b = BindFree D_free then \<exists>r < wd_next (sb_world s). held_block s b r
      else \<exists>p n. n \<le> length (wd_objects (sb_world s) p) \<and>
        gBufferPool s b = Some \<lparr>buffer_cast = InObject p 0, buffer_size = n\<rparr>)"

text \<open>\<open>L\<close> are the objects whose deleter has not run.\<close>

definition pool_inv :: "ptr set \<Rightarrow> buffers \<Rightarrow> bool" where
  "pool_inv L s \<longleftrightarrow>
     L \<inter> gone s = {} \<and> L \<union> gone s = {..<sb_next s} \<and> distinct (sb_disposed s) \<and>
     (\<forall>b \<in> L. object_ok s b) \<and>
     (\<forall>b. gBufferPool s b \<noteq> None \<longrightarrow> b \<in> L \<or> b \<in> gone s \<and> sb_deleter s b = PlainDefaultD) \<and>
     (\<forall>b \<in> gone s. sb_deleter s b = PlainDefaultD \<longrightarrow> gBufferPool s b \<noteq> None) \<and>
     (\<forall>r. wd_heap (sb_world s) r \<noteq> None \<longrightarrow> (\<exists>b \<in> L. held_block s b r)) \<and>
     (\<forall>b \<in> L. \<forall>c \<in> L. \<forall>r. held_block s b r \<longrightarrow> held_block s c r \<longrightarrow> b = c)"

definition buffers_inv :: "buffers \<Rightarrow> bool" where
  "buffers_inv s \<longleftrightarrow> distinct (map fst (sb_handles s)) \<and> pool_inv (held s) s"

lemma gone_simps [simp]:
  "gone (sb_handles_update f s) = gone s" "gone (gBufferPool_update g s) = gone s"
  "gone (sb_world_update h s) = gone s" "gone (sb_next_update k s) = gone s"
  "gone (sb_deleter_update d s) = gone s"
  by (simp_all add: gone_def)

lemma held_simps [simp]:
  "held (gBufferPool_update g s) = held s" "held (sb_world_update h s) = held s"
  "held (sb_next_update k s) = held s" "held (sb_deleter_update d s) = held s"
  "held (sb_disposed_update e s) = held s"
  by (simp_all add: held_def)

lemma handles_irrelevant [simp]:
  "held_block (sb_handles_update f s) b r = held_block s b r"
  "object_ok (sb_handles_update f s) b = object_ok s b"
  "pool_inv L (sb_handles_update f s) = pool_inv L s"
  by (simp_all add: held_block_def object_ok_def pool_inv_def)

lemma pool_inv_set_handle [simp]: "pool_inv L (set_handle v h s) = pool_inv L s"
  by (simp add: set_handle_def)

lemma owned_held: "owned s b \<longleftrightarrow> b \<in> held s"
  by (simp add: owned_def held_def)

lemma held_map_of:
  "distinct (map fst (sb_handles s)) \<Longrightarrow> held s = {b. \<exists>v. map_of (sb_handles s) v = Some (Some b)}"
  by (force simp: held_def image_iff)

lemma held_set_handle:
  assumes "distinct (map fst (sb_handles s))"
  shows "held (set_handle v h s) \<union> set_option (mData s v) = held s \<union> set_option h"
proof -
  have d: "distinct (map fst (sb_handles (set_handle v h s)))"
    using assms by (simp add: set_handle_def distinct_update)
  have m: "map_of (sb_handles (set_handle v h s)) = (map_of (sb_handles s))(v \<mapsto> h)"
    by (simp add: set_handle_def update_conv')
  show ?thesis
    unfolding held_map_of [OF d] held_map_of [OF assms] m mData_def
    by (auto split: if_splits option.splits) (metis option.inject option.distinct(1))+
qed

lemma held_delete:
  assumes "distinct (map fst (sb_handles s))"
  shows "held (s\<lparr>sb_handles := AList.delete v (sb_handles s)\<rparr>) \<union> set_option (mData s v) = held s"
proof -
  let ?t = "s\<lparr>sb_handles := AList.delete v (sb_handles s)\<rparr>"
  have d: "distinct (map fst (sb_handles ?t))"
    using assms by (simp add: distinct_delete)
  have m: "map_of (sb_handles ?t) = (map_of (sb_handles s))(v := None)"
    by (simp add: delete_conv')
  show ?thesis
    unfolding held_map_of [OF d] held_map_of [OF assms] m mData_def
    by (auto split: if_splits option.splits) (metis option.inject option.distinct(1))+
qed

lemma mData_held: "mData s u = Some b \<Longrightarrow> b \<in> held s"
  by (force simp: mData_def held_def image_iff split: option.splits dest: map_of_SomeD)

lemma mData_held_option: "set_option (mData s u) \<subseteq> held s"
  using mData_held by (cases "mData s u") auto

lemma mData_fresh: "\<not> exists_handle s v \<Longrightarrow> mData s v = None"
  by (auto simp: exists_handle_def mData_def split: option.split dest!: map_of_SomeD intro: rev_image_eqI)

section \<open>Every operation keeps it\<close>

text \<open>A new object, of either kind, is live and has no deleter call behind it.\<close>

lemma pool_inv_fresh:
  assumes "pool_inv L s"
  shows "sb_next s \<notin> L" "sb_next s \<notin> gone s" "gBufferPool s (sb_next s) = None"
  using assms by (auto simp: pool_inv_def)

lemma pool_inv_insert:
  assumes inv: "pool_inv L s" and b: "b = sb_next s"
    and t: "sb_next t = Suc (sb_next s)" "sb_disposed t = sb_disposed s"
      "gBufferPool t = (gBufferPool s)(b \<mapsto> vb)" "\<And>c. c \<noteq> b \<Longrightarrow> sb_deleter t c = sb_deleter s c"
    and ok: "\<And>c. c \<in> insert b L \<Longrightarrow> object_ok t c"
    and heap: "\<And>r. wd_heap (sb_world t) r \<noteq> None \<Longrightarrow> \<exists>c \<in> insert b L. held_block t c r"
    and one: "\<And>c c' r. \<lbrakk>c \<in> insert b L; c' \<in> insert b L; held_block t c r; held_block t c' r\<rbrakk> \<Longrightarrow> c = c'"
  shows "pool_inv (insert b L) t"
proof -
  have g: "gone t = gone s" using t by (simp add: gone_def)
  note fresh = pool_inv_fresh [OF inv, folded b]
  have del: "sb_deleter t c = sb_deleter s c" if "c \<in> gone s" for c
    using t(4) fresh(2) that by metis
  have c1: "insert b L \<inter> gone t = {}" "insert b L \<union> gone t = {..<sb_next t}" "distinct (sb_disposed t)"
    using inv fresh by (auto simp: pool_inv_def g t b lessThan_Suc)
  have c2: "\<forall>c. gBufferPool t c \<noteq> None \<longrightarrow>
      c \<in> insert b L \<or> c \<in> gone t \<and> sb_deleter t c = PlainDefaultD"
    using inv del by (auto simp: pool_inv_def g t(3))
  have c3: "\<forall>c \<in> gone t. sb_deleter t c = PlainDefaultD \<longrightarrow> gBufferPool t c \<noteq> None"
    using inv del by (auto simp: pool_inv_def g t(3))
  show ?thesis
    unfolding pool_inv_def by (intro conjI c1 c2 c3) (use ok heap one in \<open>simp_all\<close>)
qed

lemma pool_inv_new_object:
  assumes inv: "pool_inv L s" and del: "del \<noteq> BindFree D_free"
    and n: "n \<le> length (wd_objects (sb_world s) p)"
    and new: "new_shared (InObject p 0) n del s = (b, t)"
  shows "pool_inv (insert b L) t" and "sb_handles t = sb_handles s"
proof -
  let ?vb = "\<lparr>buffer_cast = InObject p 0, buffer_size = n\<rparr>"
  have b: "b = sb_next s" and t: "t = s\<lparr>gBufferPool := (gBufferPool s)(b \<mapsto> ?vb),
      sb_next := Suc b, sb_deleter := (sb_deleter s)(b := del)\<rparr>"
    using new by (auto simp: new_shared_def construct_def)
  note fresh = pool_inv_fresh [OF inv, folded b]
  have blk: "held_block t c r \<longleftrightarrow> c \<noteq> b \<and> held_block s c r" for c r
    using del by (auto simp: t held_block_def)
  have ok: "object_ok t c" if "c \<in> insert b L" for c
    using that n del fresh inv by (auto simp: t pool_inv_def object_ok_def held_block_def)
  show "pool_inv (insert b L) t"
  proof (rule pool_inv_insert [OF inv b])
    show "\<exists>c \<in> insert b L. held_block t c r" if "wd_heap (sb_world t) r \<noteq> None" for r
      using that inv fresh(1) unfolding blk by (force simp: t pool_inv_def)
    show "c = c'" if "c \<in> insert b L" "c' \<in> insert b L" "held_block t c r" "held_block t c' r" for c c' r
      using that inv unfolding blk by (auto simp: pool_inv_def)
  qed (use ok in \<open>auto simp: t b\<close>)
  show "sb_handles t = sb_handles s" by (simp add: t)
qed

lemma pool_inv_heap_fresh:
  assumes "pool_inv L s"
  shows "wd_heap (sb_world s) (wd_next (sb_world s)) = None"
proof (rule ccontr)
  assume "wd_heap (sb_world s) (wd_next (sb_world s)) \<noteq> None"
  then obtain b where b: "b \<in> L" "held_block s b (wd_next (sb_world s))"
    using assms by (auto simp: pool_inv_def)
  moreover have "object_ok s b" using assms b(1) by (simp add: pool_inv_def)
  ultimately show False by (auto simp: object_ok_def held_block_def)
qed

lemma pool_inv_malloc:
  assumes inv: "pool_inv L s" and m: "malloc n (sb_world s) = (d, w)"
    and new: "new_shared d n (BindFree D_free) (s\<lparr>sb_world := w\<rparr>) = (b, t)"
  shows "pool_inv (insert b L) t" and "sb_handles t = sb_handles s"
proof -
  let ?r = "wd_next (sb_world s)"
  let ?w = "(sb_world s)\<lparr>wd_heap := (wd_heap (sb_world s))(?r \<mapsto> replicate n None), wd_next := Suc ?r\<rparr>"
  let ?vb = "\<lparr>buffer_cast = Malloced ?r 0, buffer_size = n\<rparr>"
  have b: "b = sb_next s" and t: "t = s\<lparr>sb_world := ?w, gBufferPool := (gBufferPool s)(b \<mapsto> ?vb),
      sb_next := Suc b, sb_deleter := (sb_deleter s)(b := BindFree D_free)\<rparr>"
    using new m by (auto simp: malloc_def new_shared_def construct_def)
  note fresh = pool_inv_fresh [OF inv, folded b] and heap = pool_inv_heap_fresh [OF inv]
  have new_blk: "held_block t b r \<longleftrightarrow> r = ?r" for r
    by (auto simp: t held_block_def)
  have old_blk: "held_block t c r \<longleftrightarrow> held_block s c r" if "c \<in> L" for c r
  proof -
    have "c \<noteq> b" "object_ok s c" using that fresh inv by (auto simp: pool_inv_def)
    then show ?thesis using heap by (auto simp: t object_ok_def held_block_def)
  qed
  have no_blk: "\<not> held_block s c ?r" for c
    using heap by (simp add: held_block_def)
  have ok: "object_ok t c" if c: "c \<in> insert b L" for c
  proof (cases "c = b")
    case True
    then show ?thesis using new_blk by (simp add: object_ok_def) (simp add: t)
  next
    case False
    then have "c \<in> L" "object_ok s c" using c inv by (auto simp: pool_inv_def)
    then show ?thesis using False unfolding object_ok_def old_blk [OF \<open>c \<in> L\<close>]
      by (simp add: t) (meson less_SucI)
  qed
  show "pool_inv (insert b L) t"
  proof (rule pool_inv_insert [OF inv b])
    show "\<exists>c \<in> insert b L. held_block t c r" if "wd_heap (sb_world t) r \<noteq> None" for r
      using that inv new_blk old_blk by (cases "r = ?r") (auto simp: t pool_inv_def)
    show "c = c'" if "c \<in> insert b L" "c' \<in> insert b L" "held_block t c r" "held_block t c' r" for c c' r
      using that inv new_blk old_blk no_blk by (auto simp: pool_inv_def)
  qed (use ok in \<open>auto simp: t b\<close>)
  show "sb_handles t = sb_handles s" by (simp add: t)
qed

text \<open>The deleter of an object nobody holds any more runs without a fault.\<close>

lemma pool_inv_remove:
  assumes inv: "pool_inv (insert b L) s" and b: "b \<notin> L"
    and t: "sb_next t = sb_next s" "sb_disposed t = sb_disposed s @ [b]" "sb_deleter t = sb_deleter s"
    and pool: "gBufferPool t = (if sb_deleter s b = PlainDefaultD then gBufferPool s
        else (gBufferPool s)(b := None))"
    and heap: "wd_heap (sb_world t) = (\<lambda>r. if held_block s b r then None else wd_heap (sb_world s) r)"
    and other: "wd_next (sb_world t) = wd_next (sb_world s)" "wd_objects (sb_world t) = wd_objects (sb_world s)"
  shows "pool_inv L t"
proof -
  have g: "gone t = insert b (gone s)" using t by (simp add: gone_def)
  have one: "c = c'" if "c \<in> insert b L" "c' \<in> insert b L" "held_block s c r" "held_block s c' r" for c c' r
    using inv that unfolding pool_inv_def by blast
  have blk: "held_block t c r \<longleftrightarrow> held_block s c r" if c: "c \<in> L" for c r
  proof (cases "held_block s b r")
    case True
    then have "\<not> held_block s c r" using one [of b c r] b c by auto
    then show ?thesis using True by (simp add: held_block_def [of t] heap)
  next
    case False
    then show ?thesis using b c by (auto simp: held_block_def t pool heap)
  qed
  have ok: "object_ok t c" if c: "c \<in> L" for c
  proof -
    have "object_ok s c" "c \<noteq> b" using inv c b by (auto simp: pool_inv_def)
    then show ?thesis unfolding object_ok_def blk [OF c] by (simp add: t pool other)
  qed
  have heap_blk: "\<exists>c \<in> L. held_block t c r" if "wd_heap (sb_world t) r \<noteq> None" for r
  proof -
    from that have "\<not> held_block s b r" "wd_heap (sb_world s) r \<noteq> None"
      by (auto simp: heap split: if_splits)
    then show ?thesis using inv blk by (auto simp: pool_inv_def)
  qed
  have c1: "L \<inter> gone t = {}" "L \<union> gone t = {..<sb_next t}" "distinct (sb_disposed t)"
    using inv b by (auto simp: pool_inv_def g t gone_def)
  have c2: "\<forall>c. gBufferPool t c \<noteq> None \<longrightarrow> c \<in> L \<or> c \<in> gone t \<and> sb_deleter t c = PlainDefaultD"
    using inv by (auto simp: pool_inv_def g t pool)
  have "gBufferPool s b \<noteq> None" using inv by (auto simp: pool_inv_def object_ok_def held_block_def split: if_splits)
  then have c3: "\<forall>c \<in> gone t. sb_deleter t c = PlainDefaultD \<longrightarrow> gBufferPool t c \<noteq> None"
    using inv by (auto simp: pool_inv_def g t pool)
  show ?thesis
    unfolding pool_inv_def by (intro conjI c1 c2 c3) (use ok heap_blk blk one in \<open>simp_all\<close>)
qed

lemma dispose_ok:
  assumes inv: "pool_inv (insert b L) s" and b: "b \<notin> L"
  obtains t where "dispose b s = Inr t" "pool_inv L t" "sb_handles t = sb_handles s"
    "sb_disposed t = sb_disposed s @ [b]"
proof -
  let ?s = "s\<lparr>sb_disposed := sb_disposed s @ [b]\<rparr>"
  have ok: "object_ok s b" using inv by (simp add: pool_inv_def)
  show thesis
  proof (cases "sb_deleter s b")
    case (BindFree d)
    show thesis
    proof (cases d)
      case D_free
      then obtain r cs where r: "wd_heap (sb_world s) r = Some cs"
          "gBufferPool s b = Some \<lparr>buffer_cast = Malloced r 0, buffer_size = length cs\<rparr>"
        using ok BindFree by (auto simp: object_ok_def held_block_def)
      let ?t = "?s\<lparr>sb_world := (sb_world s)\<lparr>wd_heap := (wd_heap (sb_world s))(r := None)\<rparr>,
          gBufferPool := (gBufferPool s)(b := None)\<rparr>"
      have "held_block s b = (\<lambda>q. q = r)"
        using r BindFree D_free by (auto simp: held_block_def)
      then have "pool_inv L ?t"
        using BindFree by (intro pool_inv_remove [OF inv b]) auto
      then show thesis using r BindFree D_free
        by (intro that [of ?t]) (simp_all add: dispose_def Free_def free_def destroy_object_def)
    next
      case D_default
      then obtain vb where vb: "gBufferPool s b = Some vb"
        using ok BindFree by (auto simp: object_ok_def)
      let ?t = "?s\<lparr>sb_world := DefaultD (sb_world s), gBufferPool := (gBufferPool s)(b := None)\<rparr>"
      have "held_block s b = (\<lambda>q. False)"
        using BindFree D_default by (auto simp: held_block_def)
      then have "pool_inv L ?t"
        using BindFree by (intro pool_inv_remove [OF inv b]) (auto simp: DefaultD_def)
      then show thesis using vb BindFree D_default
        by (intro that [of ?t]) (simp_all add: dispose_def Free_def destroy_object_def)
    qed
  next
    case PlainDefaultD
    let ?t = "?s\<lparr>sb_world := DefaultD (sb_world s)\<rparr>"
    have "held_block s b = (\<lambda>q. False)"
      using PlainDefaultD by (auto simp: held_block_def)
    then have "pool_inv L ?t"
      using PlainDefaultD by (intro pool_inv_remove [OF inv b]) (auto simp: DefaultD_def)
    then show thesis using PlainDefaultD
      by (intro that [of ?t]) (simp_all add: dispose_def)
  qed
qed

lemma release_ok:
  assumes dist: "distinct (map fst (sb_handles s))" and inv: "pool_inv (held s \<union> set_option h) s"
  obtains t where "release h s = Inr t" "buffers_inv t" "sb_handles t = sb_handles s"
proof (cases "\<exists>b. h = Some b \<and> b \<notin> held s")
  case True
  then obtain b where b: "h = Some b" "b \<notin> held s" by blast
  then have "pool_inv (insert b (held s)) s" using inv by simp
  then obtain t where t: "dispose b s = Inr t" "pool_inv (held s) t" "sb_handles t = sb_handles s"
    using b(2) by (rule dispose_ok)
  moreover have "held t = held s" using t(3) by (simp add: held_def)
  ultimately show thesis using b dist
    by (intro that [of t]) (simp_all add: release_def owned_held buffers_inv_def)
next
  case False
  then have "release h s = Inr s" "held s \<union> set_option h = held s"
    by (auto simp: release_def owned_held split: option.split)
  then show thesis using dist inv by (intro that [of s]) (simp_all add: buffers_inv_def)
qed

text \<open>Every operation that sets a handle sets it and releases what it held.\<close>

lemma overwrite_ok:
  assumes "distinct (map fst (sb_handles s))" "pool_inv (held s \<union> set_option h) s"
  obtains t where "release (mData s v) (set_handle v h s) = Inr t" "buffers_inv t"
proof -
  have "distinct (map fst (sb_handles (set_handle v h s)))"
    using assms(1) by (simp add: set_handle_def distinct_update)
  moreover have "pool_inv (held (set_handle v h s) \<union> set_option (mData s v)) (set_handle v h s)"
    using assms by (simp add: held_set_handle)
  ultimately show thesis by (rule release_ok) (rule that)
qed

lemma construct_ok:
  assumes "buffers_inv s" "\<not> exists_handle s v"
    and "sb_handles t = sb_handles s" "pool_inv (held s \<union> set_option h) t"
  shows "buffers_inv (set_handle v h t)"
proof -
  have eq: "held t = held s" "mData t v = None"
    using assms(3) mData_fresh [OF assms(2)] by (simp_all add: held_def mData_def)
  obtain u where "release (mData t v) (set_handle v h t) = Inr u" "buffers_inv u"
    using assms by (rule_tac overwrite_ok [of t h v]) (auto simp: buffers_inv_def eq)
  then show ?thesis by (simp add: eq release_def)
qed

lemma reset_ok:
  assumes "buffers_inv s" "sb_handles t = sb_handles s" "pool_inv (insert b (held s)) t"
  obtains u where "release (mData s v) (set_handle v (Some b) t) = Inr u" "buffers_inv u"
proof -
  have "held t = held s" "mData s v = mData t v" using assms(2) by (simp_all add: held_def mData_def)
  then show thesis using assms that overwrite_ok [of t "Some b" v] by (auto simp: buffers_inv_def)
qed

lemma held_pool:
  assumes "pool_inv L s" "b \<in> L"
  shows "\<exists>vb. gBufferPool s b = Some vb"
  using assms by (auto simp: pool_inv_def object_ok_def held_block_def split: if_splits)

lemma write_ok:
  assumes inv: "buffers_inv s" and en: "buffer_enabled (DoWrite v k xs) s"
  obtains t where "buffer_step (DoWrite v k xs) s = Inr t" "buffers_inv t"
proof -
  obtain b vb where b: "mData s v = Some b" "gBufferPool s b = Some vb" "k + length xs \<le> buffer_size vb"
    using en by (auto simp: Size_def deref_def split: option.splits sum.splits)
  then have held: "b \<in> held s" using mData_held by blast
  then have ok: "object_ok s b" using inv by (simp add: buffers_inv_def pool_inv_def)
  show thesis
  proof (cases "sb_deleter s b = BindFree D_free")
    case True
    then obtain r cs where r: "wd_heap (sb_world s) r = Some cs" "vb = \<lparr>buffer_cast = Malloced r 0, buffer_size = length cs\<rparr>"
      using ok b(2) by (auto simp: object_ok_def held_block_def)
    let ?cs = "take k cs @ xs @ drop (k + length xs) cs"
    let ?t = "s\<lparr>sb_world := (sb_world s)\<lparr>wd_heap := (wd_heap (sb_world s))(r \<mapsto> ?cs)\<rparr>\<rparr>"
    have len: "length ?cs = length cs" using b(3) r by simp
    have blk: "held_block ?t c q \<longleftrightarrow> held_block s c q" for c q
      using r(1) len by (auto simp: held_block_def)
    have obj: "object_ok ?t c \<longleftrightarrow> object_ok s c" for c
      unfolding object_ok_def blk by simp
    have "buffers_inv ?t"
      using inv r(1) unfolding buffers_inv_def pool_inv_def blk obj by simp
    then show thesis using b r
      by (intro that [of ?t]) (simp_all add: GetBody_def deref_def write_at_def write_mem_def poke_ok)
  next
    case False
    then obtain p n where p: "n \<le> length (wd_objects (sb_world s) p)" "vb = \<lparr>buffer_cast = InObject p 0, buffer_size = n\<rparr>"
      using ok b(2) by (auto simp: object_ok_def)
    let ?cs = "take k (wd_objects (sb_world s) p) @ xs @ drop (k + length xs) (wd_objects (sb_world s) p)"
    let ?t = "s\<lparr>sb_world := (sb_world s)\<lparr>wd_objects := (wd_objects (sb_world s))(p := ?cs)\<rparr>\<rparr>"
    have len: "length (wd_objects (sb_world ?t) q) = length (wd_objects (sb_world s) q)" for q
      using b(3) p by simp
    have blk: "held_block ?t c q \<longleftrightarrow> held_block s c q" for c q
      by (simp add: held_block_def)
    have obj: "object_ok ?t c \<longleftrightarrow> object_ok s c" for c
      unfolding object_ok_def blk len by simp
    have "buffers_inv ?t"
      using inv unfolding buffers_inv_def pool_inv_def blk obj by simp
    then show thesis using b p
      by (intro that [of ?t]) (simp_all add: GetBody_def deref_def write_at_def write_mem_def poke_ok)
  qed
qed

lemma malloc_object:
  assumes inv: "buffers_inv s"
  obtains b t where "pool_inv (insert b (held s)) t" "sb_handles t = sb_handles s"
    "\<And>v. malloc_buffer v n s = set_handle v (Some b) t"
    "\<And>v. malloc_reset v n s = release (mData s v) (set_handle v (Some b) t)"
proof -
  obtain d w where m: "malloc n (sb_world s) = (d, w)" by (cases "malloc n (sb_world s)")
  obtain b t where t: "new_shared d n (BindFree D_free) (s\<lparr>sb_world := w\<rparr>) = (b, t)"
    by (cases "new_shared d n (BindFree D_free) (s\<lparr>sb_world := w\<rparr>)")
  have P: "pool_inv (held s) s" using inv by (simp add: buffers_inv_def)
  show thesis
    by (rule that [OF pool_inv_malloc [OF P m t]])
      (simp_all add: malloc_buffer_def malloc_reset_def SharedBuffer_def Reset_def mData_def m t)
qed

lemma wrap_object:
  assumes inv: "buffers_inv s" and "del \<noteq> BindFree D_free" "n \<le> length (wd_objects (sb_world s) p)"
  obtains b t where "pool_inv (insert b (held s)) t" "sb_handles t = sb_handles s"
    "new_shared (InObject p 0) n del s = (b, t)"
proof -
  obtain b t where t: "new_shared (InObject p 0) n del s = (b, t)"
    by (cases "new_shared (InObject p 0) n del s")
  have P: "pool_inv (held s) s" using inv by (simp add: buffers_inv_def)
  show thesis
    by (rule that [OF pool_inv_new_object [OF P assms(2,3) t] t])
qed

lemma buffer_step_construct:
  assumes inv: "buffers_inv s" and en: "buffer_enabled i s"
    and i: "i \<in> {DoMalloc v n, DoWrap v p n, DoString v p, DoNull v, DoCopy v u}"
  obtains t where "buffer_step i s = Inr t" "buffers_inv t"
proof -
  have v: "\<not> exists_handle s v" using en i by auto
  note new = construct_ok [OF inv v]
  from i consider (malloc) "i = DoMalloc v n" | (wrap) "i = DoWrap v p n" | (str) "i = DoString v p"
    | (handle) h where "buffer_step i s = Inr (set_handle v h s)" "set_option h \<subseteq> held s"
    using mData_held_option [of s u]
    by (auto simp: SharedBuffer_null_def SharedBuffer_copy_def)
  then show thesis
  proof cases
    case malloc
    obtain b t where "pool_inv (insert b (held s)) t" "sb_handles t = sb_handles s"
      "malloc_buffer v n s = set_handle v (Some b) t" using malloc_object [OF inv] by metis
    then show thesis using that [of "set_handle v (Some b) t"] new [of t "Some b"] malloc by simp
  next
    case wrap
    then obtain b t where "pool_inv (insert b (held s)) t" "sb_handles t = sb_handles s"
      "new_shared (InObject p 0) n (BindFree D_default) s = (b, t)"
      using wrap_object [OF inv, of "BindFree D_default" n p] en by auto
    then show thesis using that [of "set_handle v (Some b) t"] new [of t "Some b"] wrap
      by (simp add: SharedBuffer_def)
  next
    case str
    then obtain b t where "pool_inv (insert b (held s)) t" "sb_handles t = sb_handles s"
      "new_shared (InObject p 0) (length (wd_objects (sb_world s) p)) PlainDefaultD s = (b, t)"
      using wrap_object [OF inv, of PlainDefaultD "length (wd_objects (sb_world s) p)" p] by auto
    then show thesis using that [of "set_handle v (Some b) t"] new [of t "Some b"] str
      by (simp add: SharedBuffer_string_def)
  next
    case handle
    then show thesis using that new [of s h] inv by (simp add: buffers_inv_def Un_absorb2)
  qed
qed

lemma buffer_step_overwrite:
  assumes inv: "buffers_inv s" and en: "buffer_enabled i s"
    and i: "i \<in> {DoAssign v u, DoDestroy v, DoReset v n, DoResetWrap v p n}"
  obtains t where "buffer_step i s = Inr t" "buffers_inv t"
proof -
  have P: "pool_inv (held s) s" and dist: "distinct (map fst (sb_handles s))"
    using inv by (simp_all add: buffers_inv_def)
  from i consider (assign) "i = DoAssign v u" | (destroy) "i = DoDestroy v" | (reset) "i = DoReset v n"
    | (resetw) "i = DoResetWrap v p n" by auto
  then show thesis
  proof cases
    case assign
    then show thesis using overwrite_ok [OF dist, of "mData s u" v] mData_held_option [of s u] P that
      by (simp add: SharedBuffer_assign_def Un_absorb2) blast
  next
    case destroy
    let ?s = "s\<lparr>sb_handles := AList.delete v (sb_handles s)\<rparr>"
    have "distinct (map fst (sb_handles ?s))" "pool_inv (held ?s \<union> set_option (mData s v)) ?s"
      using dist P by (simp_all add: distinct_delete held_delete)
    then obtain t where "release (mData s v) ?s = Inr t" "buffers_inv t" by (rule release_ok)
    then show thesis using destroy by (intro that [of t]) (simp_all add: SharedBuffer_destroy_def)
  next
    case reset
    obtain b t where t: "pool_inv (insert b (held s)) t" "sb_handles t = sb_handles s"
      "malloc_reset v n s = release (mData s v) (set_handle v (Some b) t)"
      using malloc_object [OF inv] by metis
    obtain r where "release (mData s v) (set_handle v (Some b) t) = Inr r" "buffers_inv r"
      by (rule reset_ok [OF inv t(2,1)])
    then show thesis using reset t(3) by (intro that [of r]) simp_all
  next
    case resetw
    then obtain b t where t: "pool_inv (insert b (held s)) t" "sb_handles t = sb_handles s"
      "new_shared (InObject p 0) n (BindFree D_default) s = (b, t)"
      using wrap_object [OF inv, of "BindFree D_default" n p] en by auto
    obtain r where "release (mData s v) (set_handle v (Some b) t) = Inr r" "buffers_inv r"
      by (rule reset_ok [OF inv t(2,1)])
    then show thesis using resetw t(3) by (intro that [of r]) (simp_all add: Reset_def)
  qed
qed

lemma buffer_step_ok:
  assumes inv: "buffers_inv s" and en: "buffer_enabled i s"
  obtains t where "buffer_step i s = Inr t" "buffers_inv t"
proof -
  consider (new) v n p u where "i \<in> {DoMalloc v n, DoWrap v p n, DoString v p, DoNull v, DoCopy v u}"
    | (over) v n p u where "i \<in> {DoAssign v u, DoDestroy v, DoReset v n, DoResetWrap v p n}"
    | (wr) v k xs where "i = DoWrite v k xs"
    by (cases i) auto
  then show thesis
  proof cases
    case new
    show thesis by (rule buffer_step_construct [OF inv en new]) (rule that)
  next
    case over
    show thesis by (rule buffer_step_overwrite [OF inv en over]) (rule that)
  next
    case wr
    then show thesis using write_ok [OF inv, of v k xs] en that by blast
  qed
qed

lemma buffers_inv_start: "buffers_inv (no_buffers objs)"
  by (simp add: buffers_inv_def pool_inv_def no_buffers_def held_def gone_def)

lemma buffer_run_inv: "buffer_run objs s \<Longrightarrow> buffers_inv s"
proof (induction rule: buffer_run.induct)
  case start
  show ?case by (rule buffers_inv_start)
next
  case (step s i s')
  obtain t where "buffer_step i s = Inr t" "buffers_inv t"
    using step.IH step.hyps(2) by (rule buffer_step_ok)
  with step.hyps(3) show ?case by simp
qed

lemma mData_Some: "mData s v = Some b \<longleftrightarrow> map_of (sb_handles s) v = Some (Some b)"
  by (auto simp: mData_def split: option.splits)

lemma mData_owned: "distinct (map fst (sb_handles s)) \<Longrightarrow> owned s b \<longleftrightarrow> (\<exists>v. mData s v = Some b)"
  by (simp add: owned_held held_map_of mData_Some)

lemma deref_block:
  assumes "buffers_inv s" "deref v s = Inr \<lparr>buffer_cast = Malloced r k, buffer_size = n\<rparr>"
  shows "k = 0 \<and> (\<exists>cs. wd_heap (sb_world s) r = Some cs \<and> length cs = n)"
proof -
  obtain b where b: "mData s v = Some b" "gBufferPool s b = Some \<lparr>buffer_cast = Malloced r k, buffer_size = n\<rparr>"
    using assms(2) by (auto simp: deref_def split: option.splits)
  then have "object_ok s b"
    using assms(1) mData_held [of s v b] by (simp add: buffers_inv_def pool_inv_def)
  then show ?thesis using b by (auto simp: object_ok_def held_block_def split: if_splits)
qed

lemma deref_readable:
  assumes "buffers_inv s" "\<not> IsNull v s"
  shows "\<exists>cs. buffer_ToString v s = Inr cs \<and> Size v s = Inr (length cs)"
proof -
  obtain b where b: "mData s v = Some b" using assms(2) by (auto simp: IsNull_def)
  then have "object_ok s b"
    using assms(1) mData_held [of s v b] by (simp add: buffers_inv_def pool_inv_def)
  then show ?thesis
    using b by (auto simp: object_ok_def held_block_def buffer_ToString_def Size_def deref_def read_mem_def
        region_def split: if_splits)
qed

section \<open>Properties\<close>

text \<open>
  C9 Whatever code does with its handles, no operation faults: nothing is freed twice and
  nothing freed is touched. The deleter of a buffer has run exactly when no handle owns it, and
  never twice.
\<close>

theorem shared_buffer_lifetime:
  assumes "buffer_run objs s"
  shows "(\<forall>i. buffer_enabled i s \<longrightarrow> (\<exists>t. buffer_step i s = Inr t)) \<and>
    distinct (sb_disposed s) \<and>
    (\<forall>b. b \<in> set (sb_disposed s) \<longleftrightarrow> b < sb_next s \<and> \<not> owned s b)"
proof -
  note inv = buffer_run_inv [OF assms]
  have "\<exists>t. buffer_step i s = Inr t" if "buffer_enabled i s" for i
    using buffer_step_ok [OF inv that] by blast
  moreover have "distinct (sb_disposed s)"
      "b \<in> set (sb_disposed s) \<longleftrightarrow> b < sb_next s \<and> \<not> owned s b" for b
    using inv by (auto simp: buffers_inv_def pool_inv_def owned_held gone_def)
  ultimately show ?thesis by blast
qed

definition shared_example :: buffers where
  "shared_example =
     (let s = no_buffers (\<lambda>p. [Some 65, Some 66]);
          s = SharedBuffer_copy 1 0 (malloc_buffer 0 4 s);
          s = projr (SharedBuffer_destroy 0 s);
          s = SharedBuffer_string 2 7 s
      in projr (SharedBuffer_destroy 2 s))"

lemmas shared_simps = no_buffers_def SharedBuffer_copy_def malloc_buffer_def malloc_def SharedBuffer_def
  new_shared_def construct_def set_handle_def SharedBuffer_destroy_def release_def owned_def mData_def
  SharedBuffer_string_def dispose_def DefaultD_def exists_handle_def Let_def

lemma shared_example_run: "buffer_run (\<lambda>p. [Some 65, Some 66]) shared_example"
proof -
  let ?o = "\<lambda>p::ptr. [Some (65::u8), Some 66]"
  let ?s1 = "malloc_buffer 0 4 (no_buffers ?o)"
  let ?s2 = "SharedBuffer_copy 1 0 ?s1"
  let ?s3 = "projr (SharedBuffer_destroy 0 ?s2)"
  let ?s4 = "SharedBuffer_string 2 7 ?s3"
  have "buffer_run ?o ?s1"
    by (rule buffer_run.step [OF buffer_run.start, of "DoMalloc 0 4"]) (simp_all add: shared_simps)
  then have "buffer_run ?o ?s2"
    by (rule buffer_run.step [where i = "DoCopy 1 0"]) (simp_all add: shared_simps)
  then have "buffer_run ?o ?s3"
    by (rule buffer_run.step [where i = "DoDestroy 0"]) (simp_all add: shared_simps)
  then have "buffer_run ?o ?s4"
    by (rule buffer_run.step [where i = "DoString 2 7"]) (simp_all add: shared_simps)
  then show ?thesis
    by (rule buffer_run.step [where i = "DoDestroy 2"]) (simp_all add: shared_example_def shared_simps)
qed

theorem shared_buffer_lifetime_witness:
  "sb_disposed shared_example = [1] \<and> owned shared_example 0 \<and> \<not> owned shared_example 1 \<and>
   (\<exists>t. buffer_step (DoDestroy 1) shared_example = Inr t)"
proof -
  have "buffer_enabled (DoDestroy 1) shared_example" "sb_disposed shared_example = [1]" "owned shared_example 0"
    by (simp_all add: shared_example_def shared_simps)
  moreover note lifetime = shared_buffer_lifetime [OF shared_example_run]
  moreover have "\<not> owned shared_example 1"
    using calculation(2) lifetime by (metis list.set_intros(1))
  ultimately show ?thesis by blast
qed

text \<open>
  C10 Blocks of \<^verbatim>\<open>malloc\<close> are allocated exactly while a handle refers to them: the last handle
  frees its block, an earlier one does not. Every handle that is not null can be read, over
  the whole of its size.
\<close>

theorem malloc_blocks_owned:
  assumes "buffer_run objs s"
  shows "(wd_heap (sb_world s) r = Some cs \<longrightarrow>
      (\<exists>v. deref v s = Inr \<lparr>buffer_cast = Malloced r 0, buffer_size = length cs\<rparr>)) \<and>
    (deref v s = Inr \<lparr>buffer_cast = Malloced r k, buffer_size = n\<rparr> \<longrightarrow>
      k = 0 \<and> (\<exists>cs. wd_heap (sb_world s) r = Some cs \<and> length cs = n)) \<and>
    (\<not> IsNull v s \<longrightarrow> (\<exists>cs. buffer_ToString v s = Inr cs \<and> Size v s = Inr (length cs)))"
proof -
  note inv = buffer_run_inv [OF assms]
  have "\<exists>v. deref v s = Inr \<lparr>buffer_cast = Malloced r 0, buffer_size = length cs\<rparr>"
    if "wd_heap (sb_world s) r = Some cs"
  proof -
    have "\<exists>b \<in> held s. held_block s b r"
      using inv that by (simp add: buffers_inv_def pool_inv_def)
    then obtain b where b: "b \<in> held s" "held_block s b r" by blast
    then obtain v where "mData s v = Some b"
      using inv mData_owned by (auto simp: owned_held buffers_inv_def)
    then show ?thesis using b(2) that by (intro exI [of _ v]) (auto simp: deref_def held_block_def)
  qed
  then show ?thesis using deref_block [OF inv] deref_readable [OF inv] by blast
qed

theorem malloc_blocks_owned_witness:
  "\<exists>v. deref v shared_example = Inr \<lparr>buffer_cast = Malloced 0 0, buffer_size = 4\<rparr>"
proof -
  have "wd_heap (sb_world shared_example) 0 = Some (replicate 4 None)"
    by (simp add: shared_example_def shared_simps)
  then show ?thesis using malloc_blocks_owned [OF shared_example_run, of 0 "replicate 4 None"] by simp
qed

text \<open>
  The constructor from a string gives \<^verbatim>\<open>DefaultD\<close> to the \<^verbatim>\<open>shared_ptr\<close> in place of \<^verbatim>\<open>Free\<close>: of the buffers
  nobody owns, exactly those made of a string still take their place in the pool.
\<close>

theorem string_buffer_leaks:
  assumes "buffer_run objs s" "b < sb_next s" "\<not> owned s b"
  shows "gBufferPool s b \<noteq> None \<longleftrightarrow> sb_deleter s b = PlainDefaultD"
  using buffer_run_inv [OF assms(1)] assms(2,3)
  by (auto simp: buffers_inv_def pool_inv_def owned_held)

theorem string_buffer_leaks_witness: "gBufferPool shared_example 1 \<noteq> None"
proof -
  have "1 < sb_next shared_example" "\<not> owned shared_example 1" "sb_deleter shared_example 1 = PlainDefaultD"
    by (simp_all add: shared_example_def shared_simps)
  then show ?thesis using string_buffer_leaks [OF shared_example_run, of 1] by simp
qed

text \<open>
  The way every request is made: a block of the size of header and body, the header written
  through \<^verbatim>\<open>GetHeader\<close> and the body through \<^verbatim>\<open>GetBody\<close>.
\<close>

definition fill_buffer :: "nat \<Rightarrow> cell list \<Rightarrow> cell list \<Rightarrow> buffers \<Rightarrow> buffers res" where
  "fill_buffer v hdr body s =
     (let s = malloc_buffer v (length hdr + length body) s
      in andThen (GetHeader v s) (\<lambda>d. andThen (write_at d hdr s) (\<lambda>s.
         andThen (GetBody (length hdr) v s) (\<lambda>d. write_at d body s))))"

text \<open>
  C35 Such a buffer reads as header and body, and still does through a copy when the first handle
  is gone, as it is when the connection holds the request.
\<close>

theorem request_buffer_roundtrip:
  assumes "\<not> exists_handle s v" "\<not> exists_handle s u" "u \<noteq> v"
  shows "\<exists>t t'. fill_buffer v hdr body s = Inr t \<and> buffer_ToString v t = Inr (hdr @ body) \<and>
    SharedBuffer_destroy v (SharedBuffer_copy u v t) = Inr t' \<and> IsNull v t' \<and>
    buffer_ToString u t' = Inr (hdr @ body)"
proof -
  let ?b = "sb_next s" and ?r = "wd_next (sb_world s)"
  let ?vb = "\<lparr>buffer_cast = Malloced ?r 0, buffer_size = length hdr + length body\<rparr>"
  let ?w = "(sb_world s)\<lparr>wd_heap := (wd_heap (sb_world s))(?r \<mapsto> hdr @ body), wd_next := Suc ?r\<rparr>"
  define t where "t = s\<lparr>sb_world := ?w, gBufferPool := (gBufferPool s)(?b \<mapsto> ?vb), sb_next := Suc ?b,
      sb_deleter := (sb_deleter s)(?b := BindFree D_free),
      sb_handles := AList.update v (Some ?b) (sb_handles s)\<rparr>"
  define t' where "t' = t\<lparr>sb_handles := AList.delete v (AList.update u (Some ?b) (sb_handles t))\<rparr>"
  have "fill_buffer v hdr body s = Inr t"
    by (simp add: fill_buffer_def malloc_buffer_def malloc_def SharedBuffer_def new_shared_def
        construct_def set_handle_def GetHeader_def GetBody_def deref_def mData_def update_conv'
        write_at_def write_mem_def poke_def t_def)
  moreover have read: "buffer_ToString x y = Inr (hdr @ body)"
    if "map_of (sb_handles y) x = Some (Some ?b)" "gBufferPool y = gBufferPool t" "sb_world y = sb_world t" for x y
    using that by (simp add: buffer_ToString_def deref_def mData_def read_mem_def region_def t_def)
  moreover have u: "map_of (sb_handles t') u = Some (Some ?b)"
    using assms(3) by (simp add: t'_def delete_conv' update_conv')
  moreover have "SharedBuffer_destroy v (SharedBuffer_copy u v t) = Inr t'"
  proof -
    have "owned t' ?b" using u by (force simp: owned_def dest: map_of_SomeD)
    moreover have "mData t v = Some ?b" by (simp add: mData_def t_def update_conv')
    moreover from this have "SharedBuffer_destroy v (SharedBuffer_copy u v t) = release (Some ?b) t'"
      using assms(3) by (simp add: SharedBuffer_destroy_def SharedBuffer_copy_def set_handle_def
          t'_def mData_def update_conv')
    ultimately show ?thesis by (simp add: release_def)
  qed
  moreover have "IsNull v t'"
    by (simp add: IsNull_def mData_def t'_def delete_conv')
  ultimately show ?thesis
    by (intro exI [of _ t] exI [of _ t']) (simp add: t_def t'_def update_conv')
qed


theorem request_buffer_roundtrip_witness:
  "\<exists>t t'. fill_buffer 5 [Some 0x80, Some 0] [Some 65] shared_example = Inr t \<and>
    buffer_ToString 5 t = Inr [Some 0x80, Some 0, Some 65] \<and>
    SharedBuffer_destroy 5 (SharedBuffer_copy 6 5 t) = Inr t' \<and> IsNull 5 t' \<and>
    buffer_ToString 6 t' = Inr [Some 0x80, Some 0, Some 65]"
proof -
  have "\<not> exists_handle shared_example 5" "\<not> exists_handle shared_example 6"
    by (simp_all add: shared_example_def shared_simps)
  then show ?thesis
    using request_buffer_roundtrip [of shared_example 5 6 "[Some 0x80, Some 0]" "[Some 65]"] by simp
qed

end
