(* ===== verification/Sending_Buffers.thy ===== *)
theory Sending_Buffers
  imports Tcp_Client Shared_Buffer
begin

text \<open>
  The write side of \<^verbatim>\<open>network/TcpClient\<close> with the handles it keeps. \<open>Tcp_Client\<close> takes a buffer as its bytes;
  here the lambdas that \<^verbatim>\<open>Send\<close> posts, \<^verbatim>\<open>mPendingBuffers\<close> and \<^verbatim>\<open>mWriteBuffers\<close> hold \<^verbatim>\<open>ConstBuffer\<close>s, which
  are copied and destroyed as the code does it, beside a program with handles of its own.
  The copies asio may make of \<^verbatim>\<open>mWriteBuffers\<close> are left out: the ones of the vector are enough.
\<close>

section \<open>What a buffer holds\<close>

definition object_bytes :: "buffers \<Rightarrow> ptr \<Rightarrow> cell list res" where
  "object_bytes s b =
     (case gBufferPool s b of None \<Rightarrow> Inl UseAfterFree
      | Some vb \<Rightarrow> read_mem (buffer_cast vb) (buffer_size vb) (sb_world s))"

lemma buffer_ToString_object:
  "buffer_ToString v s = (case mData s v of None \<Rightarrow> Inl NullPointer | Some b \<Rightarrow> object_bytes s b)"
  by (auto simp: buffer_ToString_def deref_def object_bytes_def split: option.splits)

lemma object_bytes_simps [simp]:
  "object_bytes (set_handle v h s) b = object_bytes s b"
  "object_bytes (s\<lparr>sb_handles := hs\<rparr>) b = object_bytes s b"
  by (simp_all add: object_bytes_def set_handle_def split: option.split)

lemma mData_simps [simp]:
  "mData (set_handle v h s) x = (if x = v then h else mData s x)"
  "mData (s\<lparr>sb_handles := AList.delete v (sb_handles s)\<rparr>) x = (if x = v then None else mData s x)"
  by (auto simp: mData_def set_handle_def update_conv' delete_conv')

lemma exists_handle_map_of: "exists_handle s x \<longleftrightarrow> map_of (sb_handles s) x \<noteq> None"
  by (simp add: exists_handle_def map_of_eq_None_iff)

lemma exists_handle_simps [simp]:
  "exists_handle (set_handle v h s) x \<longleftrightarrow> x = v \<or> exists_handle s x"
  "exists_handle (s\<lparr>sb_handles := AList.delete v (sb_handles s)\<rparr>) x \<longleftrightarrow> x \<noteq> v \<and> exists_handle s x"
  by (auto simp: exists_handle_map_of set_handle_def update_conv' delete_conv')

lemma same_handles:
  assumes "sb_handles t = sb_handles s"
  shows "mData t x = mData s x" "exists_handle t x = exists_handle s x" "held t = held s"
  using assms by (simp_all add: mData_def exists_handle_def held_def)

text \<open>The deleter of one object leaves what the others hold alone.\<close>

lemma dispose_frame:
  assumes inv: "pool_inv (insert b L) s" "b \<notin> L" and "dispose b s = Inr t" "c \<in> L"
  shows "object_bytes t c = object_bytes s c"
proof -
  have ok: "object_ok s b" "object_ok s c" "c \<noteq> b" using assms by (auto simp: pool_inv_def)
  have one: "\<not> held_block s c r" if "held_block s b r" for r
    using that inv assms(4) ok(3) unfolding pool_inv_def by blast
  show ?thesis
  proof (cases "sb_deleter s b = BindFree D_free")
    case True
    then obtain r cs where r: "wd_heap (sb_world s) r = Some cs" "held_block s b r"
      "gBufferPool s b = Some \<lparr>buffer_cast = Malloced r 0, buffer_size = length cs\<rparr>"
      using ok(1) by (auto simp: object_ok_def held_block_def)
    then have t: "t = s\<lparr>sb_disposed := sb_disposed s @ [b],
        sb_world := (sb_world s)\<lparr>wd_heap := (wd_heap (sb_world s))(r := None)\<rparr>,
        gBufferPool := (gBufferPool s)(b := None)\<rparr>"
      using assms(3) True by (auto simp: dispose_def Free_def free_def destroy_object_def)
    show ?thesis
    proof (cases "sb_deleter s c = BindFree D_free")
      case True
      then obtain q ds where q: "wd_heap (sb_world s) q = Some ds" "held_block s c q"
        "gBufferPool s c = Some \<lparr>buffer_cast = Malloced q 0, buffer_size = length ds\<rparr>"
        using ok(2) by (auto simp: object_ok_def held_block_def)
      then have "q \<noteq> r" using one [OF r(2)] by auto
      then show ?thesis using q ok(3) by (simp add: t object_bytes_def read_mem_def region_def)
    next
      case False
      then show ?thesis using ok(2,3) by (auto simp: t object_ok_def object_bytes_def read_mem_def region_def)
    qed
  next
    case False
    then obtain vb where "gBufferPool s b = Some vb" using ok(1) by (auto simp: object_ok_def)
    then show ?thesis
      using assms(3) False ok(3)
      by (cases "sb_deleter s b"; cases "case sb_deleter s b of BindFree d \<Rightarrow> d | PlainDefaultD \<Rightarrow> D_default")
        (auto simp: dispose_def Free_def destroy_object_def DefaultD_def object_bytes_def read_mem_def region_def
          split: data_ptr.splits option.splits)
  qed
qed

lemma release_frame:
  assumes "pool_inv (held s \<union> set_option h) s" "release h s = Inr t" "b \<in> held s"
  shows "object_bytes t b = object_bytes s b"
proof (cases "\<exists>c. h = Some c \<and> c \<notin> held s")
  case True
  then obtain c where c: "h = Some c" "c \<notin> held s" by blast
  then have "dispose c s = Inr t" using assms(2) by (simp add: release_def owned_held)
  then show ?thesis using dispose_frame [of c "held s" s t b] assms c by simp
next
  case False
  then show ?thesis using assms(2) by (auto simp: release_def owned_held split: option.splits)
qed

text \<open>A new object, and the block it may have, are nobody else's.\<close>

lemma new_object_frame:
  assumes "pool_inv L s" "c \<in> L" "new_shared d n del s = (b, t)"
  shows "object_bytes t c = object_bytes s c"
proof -
  have "c \<noteq> sb_next s" using pool_inv_fresh(1) [OF assms(1)] assms(2) by blast
  then show ?thesis using assms(3) by (auto simp: new_shared_def construct_def object_bytes_def split: option.split)
qed

lemma malloc_frame:
  assumes "buffers_inv s" "c \<in> held s" "malloc n (sb_world s) = (d, w)" "new_shared d n (BindFree D_free) (s\<lparr>sb_world := w\<rparr>) = (b, t)"
  shows "object_bytes t c = object_bytes s c"
proof -
  have P: "pool_inv (held s) s" using assms(1) by (simp add: buffers_inv_def)
  have c: "c \<noteq> sb_next s" using pool_inv_fresh(1) [OF P] assms(2) by blast
  have "object_ok s c" using P assms(2) by (simp add: pool_inv_def)
  then have "region d' w = region d' (sb_world s)"
    if "gBufferPool s c = Some vb" "d' = buffer_cast vb" for vb d'
    using that assms(3) by (auto simp: object_ok_def held_block_def malloc_def region_def split: if_splits)
  then have "object_bytes (s\<lparr>sb_world := w\<rparr>) c = object_bytes s c"
    by (auto simp: object_bytes_def read_mem_def split: option.splits)
  then show ?thesis using c assms(4) by (auto simp: new_shared_def construct_def object_bytes_def split: option.split)
qed


section \<open>What an operation on one handle does to the others\<close>

fun target :: "buffer_input \<Rightarrow> nat" where
  "target (DoMalloc v n) = v" | "target (DoWrap v p n) = v" | "target (DoString v p) = v"
| "target (DoNull v) = v" | "target (DoCopy v u) = v" | "target (DoAssign v u) = v" | "target (DoDestroy v) = v"
| "target (DoReset v n) = v" | "target (DoResetWrap v p n) = v" | "target (DoWrite v k xs) = v"

fun is_write :: "buffer_input \<Rightarrow> bool" where
  "is_write (DoWrite v k xs) = True"
| "is_write i = False"

text \<open>\<open>x\<close> is the same handle in \<open>t\<close> as in \<open>s\<close> and reads the same.\<close>

definition same_handle :: "buffers \<Rightarrow> buffers \<Rightarrow> nat \<Rightarrow> bool" where
  "same_handle s t x \<longleftrightarrow> exists_handle t x = exists_handle s x \<and> mData t x = mData s x \<and>
     buffer_ToString x t = buffer_ToString x s"

lemma same_handleI:
  assumes "sb_handles t = sb_handles s \<or> exists_handle t x = exists_handle s x \<and> mData t x = mData s x"
    and "\<And>b. b \<in> held s \<Longrightarrow> mData s x = Some b \<Longrightarrow> object_bytes t b = object_bytes s b"
  shows "same_handle s t x"
  using assms mData_held [of s x] same_handles [of t s]
  by (cases "mData s x") (auto simp: same_handle_def buffer_ToString_object)

lemma same_handle_trans: "same_handle s t x \<Longrightarrow> same_handle t u x \<Longrightarrow> same_handle s u x"
  by (simp add: same_handle_def)

lemma release_handles: 
  assumes "release h s = Inr t" 
  shows "sb_handles t = sb_handles s"
  using assms
  by (auto simp: release_def dispose_def Free_def destroy_object_def Let_def res_simps split: option.splits if_splits deleter.splits)

lemma same_handle_set: "x \<noteq> v \<Longrightarrow> same_handle s (set_handle v h s) x"
  by (rule same_handleI) simp_all

lemma same_handle_release:
  assumes "pool_inv (held s \<union> set_option h) s" "release h s = Inr t"
  shows "same_handle s t x"
  using release_frame [OF assms] release_handles [OF assms(2)] by (intro same_handleI) auto

lemma same_handle_overwrite:
  assumes "distinct (map fst (sb_handles s))" "pool_inv (held s \<union> set_option h) s"
    and "release (mData s v) (set_handle v h s) = Inr t" "x \<noteq> v"
  shows "same_handle s t x"
proof -
  have "pool_inv (held (set_handle v h s) \<union> set_option (mData s v)) (set_handle v h s)"
    using assms by (simp add: held_set_handle)
  then show ?thesis
    using same_handle_release [OF _ assms(3)] same_handle_set [OF assms(4)] same_handle_trans by blast
qed

lemma new_object_same:
  assumes "buffers_inv s" "new_shared d n del s = (b, t)"
  shows "same_handle s t x" "sb_handles t = sb_handles s"
proof -
  show h: "sb_handles t = sb_handles s" using assms(2) by (auto simp: new_shared_def construct_def)
  show "same_handle s t x"
    using new_object_frame [OF _ _ assms(2)] assms(1) h by (intro same_handleI) (auto simp: buffers_inv_def)
qed

lemma malloc_object_same:
  assumes "buffers_inv s"
  obtains b t where "pool_inv (insert b (held s)) t" "sb_handles t = sb_handles s" "\<And>x. same_handle s t x"
    "\<And>v. malloc_buffer v n s = set_handle v (Some b) t"
    "\<And>v. malloc_reset v n s = release (mData s v) (set_handle v (Some b) t)"
proof -
  obtain d w where m: "malloc n (sb_world s) = (d, w)" by (cases "malloc n (sb_world s)")
  obtain b t where t: "new_shared d n (BindFree D_free) (s\<lparr>sb_world := w\<rparr>) = (b, t)"
    by (cases "new_shared d n (BindFree D_free) (s\<lparr>sb_world := w\<rparr>)")
  have h: "pool_inv (insert b (held s)) t" "sb_handles t = sb_handles s"
    using pool_inv_malloc [of "held s", OF _ m t] assms by (simp_all add: buffers_inv_def)
  have "same_handle s t x" for x
    using malloc_frame [OF assms _ m t] h(2) by (intro same_handleI) auto
  moreover have "malloc_buffer v n s = set_handle v (Some b) t"
    "malloc_reset v n s = release (mData s v) (set_handle v (Some b) t)" for v
    using m t by (simp_all add: malloc_buffer_def SharedBuffer_def malloc_reset_def Reset_def mData_def)
  ultimately show thesis using h that by blast
qed

lemma same_handle_reset:
  assumes "buffers_inv s" "pool_inv (insert b (held s)) t" "sb_handles t = sb_handles s" "same_handle s t x"
    and "release (mData s v) (set_handle v (Some b) t) = Inr u" "x \<noteq> v"
  shows "same_handle s u x"
proof -
  have "distinct (map fst (sb_handles t))" "pool_inv (held t \<union> set_option (Some b)) t"
    "release (mData t v) (set_handle v (Some b) t) = Inr u"
    using assms by (simp_all add: buffers_inv_def same_handles [OF assms(3)])
  from same_handle_overwrite [OF this assms(6)] assms(4) show ?thesis by (rule same_handle_trans [rotated])
qed

lemma construct_same:
  assumes "buffers_inv s" "i \<in> {DoMalloc v n, DoWrap v p n, DoString v p, DoNull v, DoCopy v u}"
    and "buffer_step i s = Inr t" "x \<noteq> v"
  shows "same_handle s t x"
proof -
  from assms(2) consider "i = DoMalloc v n" | (new) d m del where "buffer_step i s =
      Inr (let (b, s) = new_shared d m del s in set_handle v (Some b) s)"
    | (handle) h where "buffer_step i s = Inr (set_handle v h s)"
    by (auto simp: SharedBuffer_def SharedBuffer_string_def SharedBuffer_null_def SharedBuffer_copy_def)
  then show ?thesis
  proof cases
    case 1
    obtain b t' where t': "pool_inv (insert b (held s)) t'" "sb_handles t' = sb_handles s" "\<And>x. same_handle s t' x"
      "\<And>v. malloc_buffer v n s = set_handle v (Some b) t'"
      "\<And>v. malloc_reset v n s = release (mData s v) (set_handle v (Some b) t')"
      by (rule malloc_object_same [OF assms(1), where n = n]) (rule that)
    then show ?thesis
      using assms(3,4) same_handle_set 1 by (auto intro: same_handle_trans [OF t'(3)])
  next
    case new
    obtain b t' where t': "new_shared d m del s = (b, t')" by (cases "new_shared d m del s")
    then have "t = set_handle v (Some b) t'" using assms(3) new by simp
    then show ?thesis
      using new_object_same(1) [OF assms(1) t'] same_handle_set [OF assms(4)] same_handle_trans by blast
  next
    case handle
    then show ?thesis using assms(3,4) same_handle_set by auto
  qed
qed

lemma destroy_same:
  assumes "buffers_inv s" "SharedBuffer_destroy v s = Inr t" "x \<noteq> v"
  shows "same_handle s t x"
proof -
  let ?s = "s\<lparr>sb_handles := AList.delete v (sb_handles s)\<rparr>"
  have "pool_inv (held ?s \<union> set_option (mData s v)) ?s"
    using assms(1) by (simp add: buffers_inv_def held_delete)
  then have "same_handle ?s t x"
    using same_handle_release assms(2) by (simp add: SharedBuffer_destroy_def)
  moreover have "same_handle s ?s x" using assms(3) by (intro same_handleI) simp_all
  ultimately show ?thesis using same_handle_trans by blast
qed

lemma buffer_step_same:
  assumes inv: "buffers_inv s" and en: "buffer_enabled i s" and step: "buffer_step i s = Inr t"
    and x: "x \<noteq> target i" "\<not> is_write i"
  shows "same_handle s t x"
proof -
  consider (new) v n p u where "i \<in> {DoMalloc v n, DoWrap v p n, DoString v p, DoNull v, DoCopy v u}" "target i = v"
    | (assign) v u where "i = DoAssign v u" | (destroy) v where "i = DoDestroy v"
    | (reset) v n where "i = DoReset v n" | (wrap) v p n where "i = DoResetWrap v p n"
    using x(2) by (cases i) auto
  then show ?thesis
  proof cases
    case new
    then show ?thesis using construct_same [OF inv new(1) step] x(1) by simp
  next
    case assign
    have "pool_inv (held s \<union> set_option (mData s u)) s" "distinct (map fst (sb_handles s))"
      using inv mData_held_option [of s u] by (simp_all add: buffers_inv_def Un_absorb2)
    then show ?thesis
      using same_handle_overwrite step x(1) assign by (simp add: SharedBuffer_assign_def)
  next
    case destroy
    then show ?thesis using destroy_same [OF inv] step x(1) by simp
  next
    case reset
    obtain b t' where t': "pool_inv (insert b (held s)) t'" "sb_handles t' = sb_handles s" "\<And>x. same_handle s t' x"
      "\<And>v. malloc_buffer v n s = set_handle v (Some b) t'"
      "\<And>v. malloc_reset v n s = release (mData s v) (set_handle v (Some b) t')"
      by (rule malloc_object_same [OF inv, where n = n]) (rule that)
    then show ?thesis using same_handle_reset [OF inv t'(1-3)] step x(1) reset by simp
  next
    case wrap
    then obtain b t' where "pool_inv (insert b (held s)) t'" "sb_handles t' = sb_handles s"
      and new: "new_shared (InObject p 0) n (BindFree D_default) s = (b, t')"
      using wrap_object [OF inv, of "BindFree D_default" n p] en by auto
    then show ?thesis
      using same_handle_reset [OF inv _ _ new_object_same(1) [OF inv new]] step x(1) wrap by (simp add: Reset_def)
  qed
qed


section \<open>The handles of a connection\<close>

text \<open>A variable nothing is called by, copies of handles, and the end of their lives.\<close>

definition fresh_handle :: "buffers \<Rightarrow> nat" where
  "fresh_handle s = Suc (fold max (map fst (sb_handles s)) 0)"

fun copy_handles :: "nat list \<Rightarrow> buffers \<Rightarrow> nat list \<times> buffers" where
  "copy_handles [] s = ([], s)"
| "copy_handles (v # vs) s =
     (let x = fresh_handle s; (xs, s) = copy_handles vs (SharedBuffer_copy x v s) in (x # xs, s))"

definition destroy_handles :: "nat list \<Rightarrow> buffers \<Rightarrow> buffers res" where
  "destroy_handles = foldRes SharedBuffer_destroy"

fun read_handles :: "nat list \<Rightarrow> buffers \<Rightarrow> cell list list res" where
  "read_handles [] s = Inr []"
| "read_handles (v # vs) s =
     andThen (buffer_ToString v s) (\<lambda>bytes. andThen (read_handles vs s) (\<lambda>bufs. Inr (bytes # bufs)))"

text \<open>\<^verbatim>\<open>sd_posted\<close> is what the posted lambdas captured, \<open>None\<close> for the one of \<^verbatim>\<open>Close\<close>.\<close>

record sending =
  sd_posted :: "nat list option list"
  sd_pending :: "nat list"
  sd_writing :: "nat list"

definition nothing_to_send :: sending where
  "nothing_to_send = \<lparr>sd_posted = [], sd_pending = [], sd_writing = []\<rparr>"

definition swap_buffers :: "sending \<Rightarrow> sending" where
  "swap_buffers sd = sd\<lparr>sd_pending := sd_writing sd, sd_writing := sd_pending sd\<rparr>"

definition post_send :: "nat list \<Rightarrow> sending \<times> buffers \<Rightarrow> sending \<times> buffers" where
  "post_send vs sds =
     (let (sd, s) = sds; (xs, s) = copy_handles vs s in (sd\<lparr>sd_posted := sd_posted sd @ [Some xs]\<rparr>, s))"

definition append_pending :: "nat list \<Rightarrow> sending \<times> buffers \<Rightarrow> (sending \<times> buffers) res" where
  "append_pending xs sds =
     (let (sd, s) = sds; (ys, s) = copy_handles xs s;
          sd = sd\<lparr>sd_pending := sd_pending sd @ ys\<rparr>;
          sd = (if sd_writing sd = [] then swap_buffers sd else sd)
      in andThen (destroy_handles xs s) (\<lambda>s. Inr (sd, s)))"

definition run_task :: "sending \<times> buffers \<Rightarrow> (sending \<times> buffers) res" where
  "run_task sds =
     (let (sd, s) = sds
      in case sd_posted sd of
        [] \<Rightarrow> Inr (sd, s)
      | None # ts \<Rightarrow> Inr (sd\<lparr>sd_posted := ts\<rparr>, s)
      | Some xs # ts \<Rightarrow> append_pending xs (sd\<lparr>sd_posted := ts\<rparr>, s))"

definition write_done :: "bool \<Rightarrow> sending \<times> buffers \<Rightarrow> (sending \<times> buffers) res" where
  "write_done ok sds =
     (let (sd, s) = sds
      in andThen (destroy_handles (sd_writing sd) s) (\<lambda>s.
           let sd = sd\<lparr>sd_writing := []\<rparr>
           in Inr (if ok \<and> sd_pending sd \<noteq> [] then swap_buffers sd else sd, s)))"

fun keep_handles :: "tcp_input \<Rightarrow> sending \<times> buffers \<Rightarrow> (sending \<times> buffers) res" where
  "keep_handles Run_Posted sds = run_task sds"
| "keep_handles (Write_Done ok) sds = write_done ok sds"
| "keep_handles Call_Close (sd, s) = Inr (sd\<lparr>sd_posted := sd_posted sd @ [None]\<rparr>, s)"
| "keep_handles i sds = Inr sds"

fun captured :: "nat list option list \<Rightarrow> nat list" where
  "captured [] = []"
| "captured (None # ts) = captured ts"
| "captured (Some xs # ts) = xs @ captured ts"

definition conn_handles :: "sending \<Rightarrow> nat list" where
  "conn_handles sd = captured (sd_posted sd) @ sd_pending sd @ sd_writing sd"

section \<open>A program and a connection\<close>

datatype send_input = Program buffer_input | Submit "nat list" | Connection tcp_input

type_synonym ('a, 'w) sender = "(sending \<times> buffers) \<times> 'a tcp_client \<times> 'w"

text \<open>
  The program works on its own handles, submits buffers that are not null, and does not write into what it
  has submitted. A vector that is submitted has a buffer in it and is not changed afterwards.
\<close>

fun send_enabled :: "send_input \<Rightarrow> ('a, 'w) sender \<Rightarrow> bool" where
  "send_enabled (Program i) ((sd, s), c, w) \<longleftrightarrow>
     buffer_enabled i s \<and> target i \<notin> set (conn_handles sd) \<and>
     (is_write i \<longrightarrow> (case buffer_step i s of Inl e \<Rightarrow> True
       | Inr t \<Rightarrow> \<forall>x \<in> set (conn_handles sd). buffer_ToString x t = buffer_ToString x s))"
| "send_enabled (Submit vs) ((sd, s), c, w) \<longleftrightarrow>
     vs \<noteq> [] \<and> (\<forall>v \<in> set vs. exists_handle s v \<and> \<not> IsNull v s)"
| "send_enabled (Connection i) ((sd, s), c, w) \<longleftrightarrow> enabled i c \<and> submits i = [] \<and> i \<noteq> Call_Sends []"

fun send_step ::
    "('a, 'w) header_handler \<Rightarrow> 'w body_handler \<Rightarrow> ('a \<Rightarrow> u8 list \<Rightarrow> 'w \<Rightarrow> 'w) \<Rightarrow> send_input
      \<Rightarrow> ('a, 'w) sender \<Rightarrow> ('a, 'w) sender res" where
  "send_step oh ob sc (Program i) ((sd, s), c, w) = andThen (buffer_step i s) (\<lambda>s. Inr ((sd, s), c, w))"
| "send_step oh ob sc (Submit vs) ((sd, s), c, w) =
     andThen (read_handles vs s) (\<lambda>bufs. Inr (post_send vs (sd, s), Send_buffers bufs c, w))"
| "send_step oh ob sc (Connection i) (sds, c, w) =
     andThen (keep_handles i sds) (\<lambda>sds. andThen (handle oh ob sc i (c, w)) (\<lambda>cw. Inr (sds, cw)))"

inductive send_run ::
    "('a, 'w) header_handler \<Rightarrow> 'w body_handler \<Rightarrow> ('a \<Rightarrow> u8 list \<Rightarrow> 'w \<Rightarrow> 'w) \<Rightarrow> (ptr \<Rightarrow> cell list) \<Rightarrow> nat \<Rightarrow> 'w
      \<Rightarrow> ('a, 'w) sender \<Rightarrow> bool"
  for oh ob sc objs n w where
  start: "send_run oh ob sc objs n w ((nothing_to_send, no_buffers objs), TcpClient n, w)"
| step: "send_run oh ob sc objs n w t \<Longrightarrow> send_enabled i t \<Longrightarrow> send_step oh ob sc i t = Inr u \<Longrightarrow>
    send_run oh ob sc objs n w u"

section \<open>Copies and destruction\<close>

lemma fresh_handle: "\<not> exists_handle s (fresh_handle s)"
proof -
  have "v \<le> fold max (map fst hs) k" if "v \<in> fst ` set hs \<or> v \<le> k" for v k and hs :: "(nat \<times> ptr option) list"
    using that by (induction hs arbitrary: k) (auto simp: le_max_iff_disj)
  then show ?thesis unfolding exists_handle_def fresh_handle_def by (meson Suc_n_not_le_n)
qed

lemma read_handles_cong:
  "(\<And>x. x \<in> set xs \<Longrightarrow> buffer_ToString x t = buffer_ToString x s) \<Longrightarrow> read_handles xs t = read_handles xs s"
  by (induction xs) simp_all

lemma read_handles_append: "read_handles (xs @ ys) s =
    andThen (read_handles xs s) (\<lambda>as. andThen (read_handles ys s) (\<lambda>bs. Inr (as @ bs)))"
  by (induction xs) (auto simp: andThen_assoc; cases "read_handles ys s"; simp)+

lemma read_handles_length: "read_handles xs s = Inr bufs \<Longrightarrow> length bufs = length xs"
  by (induction xs arbitrary: bufs) (auto simp: res_simps)

lemma copy_one:
  assumes inv: "buffers_inv s" and u: "exists_handle s u" and x: "x = fresh_handle s"
  defines "t \<equiv> SharedBuffer_copy x u s"
  shows "buffers_inv t" "exists_handle t x" "buffer_ToString x t = buffer_ToString u s"
    "y \<noteq> x \<Longrightarrow> same_handle s t y"
proof -
  have en: "buffer_enabled (DoCopy x u) s" using u x fresh_handle by simp
  show "buffers_inv t" by (rule buffer_step_ok [OF inv en]) (simp add: t_def)
  show "exists_handle t x" "buffer_ToString x t = buffer_ToString u s"
    by (simp_all add: t_def SharedBuffer_copy_def buffer_ToString_object split: option.split)
  show "same_handle s t y" if "y \<noteq> x" by (rule buffer_step_same [OF inv en]) (use that in \<open>simp_all add: t_def\<close>)
qed

lemma copies:
  assumes "buffers_inv s" "\<forall>v \<in> set vs. exists_handle s v" "copy_handles vs s = (xs, t)"
  shows "buffers_inv t \<and> distinct xs \<and> (\<forall>x \<in> set xs. exists_handle t x \<and> \<not> exists_handle s x) \<and>
    read_handles xs t = read_handles vs s \<and> (\<forall>y. exists_handle s y \<longrightarrow> same_handle s t y)"
  using assms
proof (induction vs arbitrary: s xs)
  case Nil
  then show ?case by (simp add: same_handle_def)
next
  case (Cons v vs)
  let ?x = "fresh_handle s"
  let ?s = "SharedBuffer_copy ?x v s"
  obtain ys where ys: "copy_handles vs ?s = (ys, t)" "xs = ?x # ys"
    using Cons.prems(3) by (auto simp: Let_def split: prod.splits)
  note one = copy_one [OF Cons.prems(1) _ refl, of v]
  have vs: "\<forall>u \<in> set vs. exists_handle ?s u" using Cons.prems(2) by (simp add: SharedBuffer_copy_def)
  have old: "same_handle s ?s y" if "exists_handle s y" for y
    by (rule one(4)) (use that fresh_handle [of s] Cons.prems(2) in auto)
  have IH: "buffers_inv t \<and> distinct ys \<and> (\<forall>x \<in> set ys. exists_handle t x \<and> \<not> exists_handle ?s x) \<and>
    read_handles ys t = read_handles vs ?s \<and> (\<forall>y. exists_handle ?s y \<longrightarrow> same_handle ?s t y)"
    using Cons.IH [OF _ vs ys(1)] one(1) Cons.prems(2) by simp
  have x: "exists_handle ?s ?x" "buffer_ToString ?x ?s = buffer_ToString v s" using one Cons.prems(2) by simp_all
  have "read_handles vs ?s = read_handles vs s"
    by (rule read_handles_cong) (use old Cons.prems(2) in \<open>auto simp: same_handle_def\<close>)
  moreover have "\<not> exists_handle s y" if "\<not> exists_handle ?s y" for y
    using that by (simp add: SharedBuffer_copy_def)
  moreover have "same_handle s t y" if "exists_handle s y" for y
    using old [OF that] IH that by (meson same_handle_def same_handle_trans)
  ultimately show ?case
    using IH x fresh_handle [of s] unfolding ys(2) by (auto simp: same_handle_def)
qed

lemma destroyed:
  assumes "buffers_inv s" "distinct xs" "\<forall>x \<in> set xs. exists_handle s x"
  shows "\<exists>t. destroy_handles xs s = Inr t \<and> buffers_inv t \<and> (\<forall>y. y \<notin> set xs \<longrightarrow> same_handle s t y)"
  using assms
proof (induction xs arbitrary: s)
  case Nil
  then show ?case by (simp add: destroy_handles_def same_handle_def)
next
  case (Cons x xs)
  have en: "buffer_enabled (DoDestroy x) s" using Cons.prems(3) by simp
  obtain u where u: "SharedBuffer_destroy x s = Inr u" "buffers_inv u"
    using buffer_step_ok [OF Cons.prems(1) en] by auto
  have same: "same_handle s u y" if "y \<noteq> x" for y using destroy_same [OF Cons.prems(1) u(1) that] .
  then have "\<forall>y \<in> set xs. exists_handle u y"
    using Cons.prems(2,3) unfolding same_handle_def by (metis distinct.simps(2) list.set_intros(2))
  then obtain t where "destroy_handles xs u = Inr t" "buffers_inv t" "\<forall>y. y \<notin> set xs \<longrightarrow> same_handle u t y"
    using Cons.IH [OF u(2)] Cons.prems(2) by auto
  then show ?case
    using u(1) same by (auto simp: destroy_handles_def intro: same_handle_trans)
qed


section \<open>What the handles of the connection read as\<close>

lemma captured_append [simp]: "captured (ts @ us) = captured ts @ captured us"
  by (induction ts rule: captured.induct) simp_all

lemma captured_member: "Some xs \<in> set ts \<Longrightarrow> set xs \<subseteq> set (captured ts)"
  by (induction ts rule: captured.induct) auto

fun task_reads :: "buffers \<Rightarrow> nat list option \<Rightarrow> tcp_task \<Rightarrow> bool" where
  "task_reads s None task \<longleftrightarrow> task = Post_Close"
| "task_reads s (Some xs) task \<longleftrightarrow> (\<exists>bufs. task = Post_Send bufs \<and> read_handles xs s = Inr bufs)"

definition reads_as :: "sending \<Rightarrow> buffers \<Rightarrow> 'a tcp_client \<Rightarrow> bool" where
  "reads_as sd s c \<longleftrightarrow> read_handles (sd_writing sd) s = Inr (mWriteBuffers c) \<and>
     read_handles (sd_pending sd) s = Inr (mPendingBuffers c) \<and> list_all2 (task_reads s) (sd_posted sd) (posted c)"

definition handles_ok :: "sending \<Rightarrow> buffers \<Rightarrow> bool" where
  "handles_ok sd s \<longleftrightarrow> buffers_inv s \<and> distinct (conn_handles sd) \<and> (\<forall>x \<in> set (conn_handles sd). exists_handle s x)"

lemma reads_as_cong:
  assumes "\<And>x. x \<in> set (conn_handles sd) \<Longrightarrow> buffer_ToString x t = buffer_ToString x s"
    and "mWriteBuffers c' = mWriteBuffers c" "mPendingBuffers c' = mPendingBuffers c" "posted c' = posted c"
  shows "reads_as sd t c' = reads_as sd s c"
proof -
  have "task_reads t task = task_reads s task" if "task \<in> set (sd_posted sd)" for task
  proof (cases task)
    case (Some xs)
    then have "read_handles xs t = read_handles xs s"
      using that by (intro read_handles_cong assms(1)) (use captured_member in \<open>auto simp: conn_handles_def\<close>)
    then show ?thesis using Some by (simp add: fun_eq_iff)
  qed (simp add: fun_eq_iff)
  then have "list_all2 (task_reads t) (sd_posted sd) (posted c) = list_all2 (task_reads s) (sd_posted sd) (posted c)"
    by (intro list.rel_cong) simp_all
  moreover have "read_handles (sd_writing sd) t = read_handles (sd_writing sd) s"
    "read_handles (sd_pending sd) t = read_handles (sd_pending sd) s"
    by (intro read_handles_cong assms(1); simp add: conn_handles_def)+
  ultimately show ?thesis using assms(2-4) by (simp add: reads_as_def)
qed

lemma handles_ok_same:
  assumes "handles_ok sd s" "buffers_inv t" "\<And>x. x \<in> set (conn_handles sd) \<Longrightarrow> same_handle s t x"
  shows "handles_ok sd t" "reads_as sd t c = reads_as sd s c"
  using assms reads_as_cong [of sd t s c c] by (auto simp: handles_ok_def same_handle_def)

lemma read_Nil: "read_handles xs s = Inr bufs \<Longrightarrow> bufs = [] \<longleftrightarrow> xs = []"
  using read_handles_length by fastforce

lemma post_send_reads:
  assumes ok: "handles_ok sd s" "reads_as sd s c" and vs: "\<forall>v \<in> set vs. exists_handle s v" "read_handles vs s = Inr bufs"
    and "post_send vs (sd, s) = (sd', s')"
  shows "handles_ok sd' s' \<and> reads_as sd' s' (Send_buffers bufs c)"
proof -
  obtain xs where xs: "copy_handles vs s = (xs, s')" "sd' = sd\<lparr>sd_posted := sd_posted sd @ [Some xs]\<rparr>"
    using assms(5) by (auto simp: post_send_def split: prod.splits)
  have "buffers_inv s" using ok(1) by (simp add: handles_ok_def)
  note c = copies [OF this vs(1) xs(1)]
  have same: "same_handle s s' x" if "x \<in> set (conn_handles sd)" for x
    using c ok(1) that by (auto simp: handles_ok_def)
  have "handles_ok sd s'" "reads_as sd s' c"
    using handles_ok_same(1) [OF ok(1) _ same] handles_ok_same(2) [OF ok(1) _ same, of c] c ok(2) by simp_all
  moreover have "set xs \<inter> set (conn_handles sd) = {}" using c ok(1) by (auto simp: handles_ok_def)
  ultimately show ?thesis
    using c vs(2) by (auto simp: handles_ok_def reads_as_def conn_handles_def xs(2) Send_buffers_def
        intro: list_all2_appendI)
qed

lemma append_pending_reads:
  assumes ok: "handles_ok sd s" "reads_as sd s c" and t: "sd_posted sd = Some xs # ts" "posted c = Post_Send bufs # tasks"
  shows "\<exists>sd' s'. append_pending xs (sd\<lparr>sd_posted := ts\<rparr>, s) = Inr (sd', s') \<and> handles_ok sd' s' \<and>
    reads_as sd' s' (run_send bufs (c\<lparr>posted := tasks\<rparr>))"
proof -
  obtain ys s1 where ys: "copy_handles xs s = (ys, s1)" by (cases "copy_handles xs s")
  have inv: "buffers_inv s" "\<forall>x \<in> set xs. exists_handle s x" "distinct xs"
    using ok(1) t(1) by (auto simp: handles_ok_def conn_handles_def)
  note cp = copies [OF inv(1,2) ys]
  have same: "same_handle s s1 x" if "x \<in> set (conn_handles sd)" for x
    using cp ok(1) that by (auto simp: handles_ok_def)
  have ok1: "handles_ok sd s1" "reads_as sd s1 c"
    using handles_ok_same(1) [OF ok(1) _ same] handles_ok_same(2) [OF ok(1) _ same, of c] cp ok(2) by simp_all
  have new: "set ys \<inter> set (conn_handles sd) = {}" using cp ok(1) by (auto simp: handles_ok_def)
  have "\<forall>x \<in> set xs. exists_handle s1 x" using ok1(1) t(1) by (auto simp: handles_ok_def conn_handles_def)
  then obtain s2 where s2: "destroy_handles xs s1 = Inr s2" "buffers_inv s2" "\<forall>y. y \<notin> set xs \<longrightarrow> same_handle s1 s2 y"
    using destroyed [of s1 xs] cp inv(3) by blast
  let ?sd = "sd\<lparr>sd_posted := ts\<rparr>"
  have sub: "set (conn_handles ?sd) \<inter> set xs = {}" "distinct (conn_handles ?sd)" "set ys \<inter> set xs = {}"
    "set (conn_handles ?sd) \<subseteq> set (conn_handles sd)"
    using ok(1) t(1) new by (auto simp: handles_ok_def conn_handles_def)
  have "handles_ok ?sd s1" "reads_as ?sd s1 (c\<lparr>posted := tasks\<rparr>)"
    using ok1 t sub(2,4) by (auto simp: handles_ok_def reads_as_def)
  then have ok2: "handles_ok ?sd s2" "reads_as ?sd s2 (c\<lparr>posted := tasks\<rparr>)"
    using handles_ok_same [of ?sd s1 s2] s2(2,3) sub(1) by blast+
  have bufs: "read_handles ys s2 = Inr bufs"
  proof -
    have "read_handles ys s2 = read_handles ys s1"
      by (rule read_handles_cong) (use s2(3) sub(3) in \<open>auto simp: same_handle_def\<close>)
    then show ?thesis using cp ok(2) t by (simp add: reads_as_def)
  qed
  have ex: "\<forall>y \<in> set ys. exists_handle s2 y" using cp s2(3) sub(3) by (auto simp: same_handle_def)
  let ?sd1 = "?sd\<lparr>sd_pending := sd_pending sd @ ys\<rparr>"
  have ok3: "handles_ok ?sd1 s2" "read_handles (sd_pending ?sd1) s2 = Inr (mPendingBuffers c @ bufs)"
    using ok2 cp ex bufs new sub(4) by (auto simp: handles_ok_def reads_as_def conn_handles_def read_handles_append)
  have empty: "sd_writing sd = [] \<longleftrightarrow> mWriteBuffers c = []"
    using ok(2) read_Nil by (auto simp: reads_as_def)
  have "append_pending xs (?sd, s) = Inr (if sd_writing sd = [] then swap_buffers ?sd1 else ?sd1, s2)"
    using ys s2(1) by (simp add: append_pending_def)
  moreover have "handles_ok (if sd_writing sd = [] then swap_buffers ?sd1 else ?sd1) s2"
    using ok3(1) by (auto simp: handles_ok_def swap_buffers_def conn_handles_def)
  moreover have "reads_as (if sd_writing sd = [] then swap_buffers ?sd1 else ?sd1) s2 (run_send bufs (c\<lparr>posted := tasks\<rparr>))"
    using ok2(2) ok3(2) empty by (simp add: reads_as_def run_send_def Send_def swap_buffers_def Let_def)
  ultimately show ?thesis by blast
qed

lemma run_task_reads:
  assumes ok: "handles_ok sd s" "reads_as sd s c" and en: "posted c \<noteq> []"
  shows "\<exists>sd' s'. run_task (sd, s) = Inr (sd', s') \<and> handles_ok sd' s' \<and> reads_as sd' s' (run_posted c)"
proof -
  obtain xo ts task tasks where t: "sd_posted sd = xo # ts" "posted c = task # tasks" "task_reads s xo task"
    using ok(2) en by (cases "sd_posted sd"; cases "posted c") (auto simp: reads_as_def)
  show ?thesis
  proof (cases xo)
    case None
    then have "run_task (sd, s) = Inr (sd\<lparr>sd_posted := ts\<rparr>, s)" "task = Post_Close"
      using t by (simp_all add: run_task_def)
    moreover have "handles_ok (sd\<lparr>sd_posted := ts\<rparr>) s" using ok(1) t(1) None by (simp add: handles_ok_def conn_handles_def)
    ultimately show ?thesis
      using ok(2) t by (auto simp: reads_as_def run_posted_def run_close_def emit_def)
  next
    case (Some xs)
    then obtain bufs where "task = Post_Send bufs" using t(3) by auto
    then show ?thesis
      using append_pending_reads [OF ok, of xs ts bufs tasks] t Some by (simp add: run_task_def run_posted_def)
  qed
qed

lemma write_done_reads:
  assumes ok: "handles_ok sd s" "reads_as sd s c"
  shows "\<exists>sd' s'. write_done success (sd, s) = Inr (sd', s') \<and> handles_ok sd' s' \<and> reads_as sd' s' (on_written success c)"
proof -
  obtain t where t: "destroy_handles (sd_writing sd) s = Inr t" "buffers_inv t"
    "\<forall>y. y \<notin> set (sd_writing sd) \<longrightarrow> same_handle s t y"
    using destroyed [of s "sd_writing sd"] ok(1) by (auto simp: handles_ok_def conn_handles_def)
  let ?sd = "sd\<lparr>sd_writing := []\<rparr>"
  have dis: "set (conn_handles ?sd) \<inter> set (sd_writing sd) = {}" using ok(1) by (auto simp: handles_ok_def conn_handles_def)
  have "handles_ok ?sd s" "reads_as ?sd s (c\<lparr>mWriteBuffers := []\<rparr>)"
    using ok by (auto simp: handles_ok_def reads_as_def conn_handles_def)
  then have "handles_ok ?sd t" "reads_as ?sd t (c\<lparr>mWriteBuffers := []\<rparr>)"
    using handles_ok_same [of ?sd s t] t(2,3) dis by blast+
  moreover have "sd_pending sd = [] \<longleftrightarrow> mPendingBuffers c = []" using ok(2) read_Nil by (auto simp: reads_as_def)
  ultimately show ?thesis
    using t(1) by (auto simp: write_done_def handles_ok_def reads_as_def swap_buffers_def conn_handles_def on_written_def
        Send_def Close4Error_def emit_def Let_def)
qed

lemma keep_handles_reads:
  assumes ok: "handles_ok sd s" "reads_as sd s c" and en: "send_enabled (Connection i) ((sd, s), c, w)"
    and step: "handle oh ob sc i (c, w) = Inr (c', w')"
  shows "\<exists>sd' s'. keep_handles i (sd, s) = Inr (sd', s') \<and> handles_ok sd' s' \<and> reads_as sd' s' c'"
proof (cases "i = Run_Posted \<or> (\<exists>ok. i = Write_Done ok) \<or> i = Call_Close")
  case True
  have "handles_ok (sd\<lparr>sd_posted := sd_posted sd @ [None]\<rparr>) s"
    "reads_as (sd\<lparr>sd_posted := sd_posted sd @ [None]\<rparr>) s (Close c)"
    using ok by (auto simp: handles_ok_def reads_as_def conn_handles_def Close_def intro: list_all2_appendI)
  then show ?thesis
    using run_task_reads [OF ok] write_done_reads [OF ok] en step True by auto
next
  case False
  then have "write_side c' = write_side c"
    using en step by (intro handle_write_side [OF step]) auto
  then have "reads_as sd s c'" using ok(2) reads_as_cong [of sd s s c' c] by (simp add: write_side_def)
  moreover have "keep_handles i (sd, s) = Inr (sd, s)" using False by (cases i) auto
  ultimately show ?thesis using ok(1) by blast
qed

lemma program_reads:
  assumes ok: "handles_ok sd s" "reads_as sd s c" and en: "send_enabled (Program i) ((sd, s), c, w)"
    and step: "buffer_step i s = Inr t"
  shows "handles_ok sd t \<and> reads_as sd t c"
proof -
  have inv: "buffers_inv s" and en: "buffer_enabled i s" "target i \<notin> set (conn_handles sd)"
    "is_write i \<Longrightarrow> x \<in> set (conn_handles sd) \<Longrightarrow> buffer_ToString x t = buffer_ToString x s" for x
    using ok(1) en step by (auto simp: handles_ok_def)
  have "buffers_inv t" by (rule buffer_step_ok [OF inv en(1)]) (use step in simp)
  moreover have same: "same_handle s t x" if "x \<in> set (conn_handles sd)" for x
  proof (cases "is_write i")
    case True
    then obtain v k xs where "i = DoWrite v k xs" by (cases i) auto
    then have "sb_handles t = sb_handles s" using step by (auto simp: write_at_def res_simps)
    from same_handles [OF this] show ?thesis using en(3) [OF True that] by (simp add: same_handle_def)
  next
    case False
    then show ?thesis using buffer_step_same [OF inv en(1) step] en(2) that by metis
  qed
  ultimately show ?thesis
    using handles_ok_same(1) [OF ok(1) _ same] handles_ok_same(2) [OF ok(1) _ same, of c] ok(2) by simp
qed

lemma submit_bytes:
  assumes "buffers_inv s" "\<forall>v \<in> set vs. \<not> IsNull v s"
  shows "\<exists>bufs. read_handles vs s = Inr bufs"
  using assms(2)
proof (induction vs)
  case (Cons v vs)
  then show ?case using deref_readable [OF assms(1), of v] by fastforce
qed simp

lemma send_run_ok:
  assumes "send_run oh ob sc objs n w0 ((sd, s), c, w)"
  shows "handles_ok sd s \<and> reads_as sd s c \<and> (\<exists>is. tcp_run oh ob sc (TcpClient n, w0) is (c, w) \<and> sends_buffers is)"
  using assms
proof (induction "((sd, s), c, w)" arbitrary: sd s c w rule: send_run.induct)
  case start
  have "tcp_run oh ob sc (TcpClient n, w0) [] (TcpClient n, w0)" by (rule tcp_run.start)
  then show ?case
    using buffers_inv_start by (fastforce simp: handles_ok_def reads_as_def conn_handles_def nothing_to_send_def
        TcpClient_def sends_buffers_def)
next
  case (step t i)
  obtain sd0 s0 c0 w1 where t: "t = ((sd0, s0), c0, w1)" by (cases t) auto
  obtain "is" where IH: "handles_ok sd0 s0" "reads_as sd0 s0 c0" "tcp_run oh ob sc (TcpClient n, w0) is (c0, w1)"
    "sends_buffers is" using step.hyps(2) [OF t] by blast
  note run = tcp_run.step [OF IH(3)]
  show ?case
  proof (cases i)
    case (Program j)
    then have "buffer_step j s0 = Inr s" "sd = sd0" "c = c0" "w = w1"
      using step.hyps(4) t by (auto simp: res_simps)
    moreover have "send_enabled (Program j) ((sd0, s0), c0, w1)" using step.hyps(3) t Program by simp
    ultimately show ?thesis using program_reads [OF IH(1,2), of j w1 s] IH(3,4) by auto
  next
    case (Submit vs)
    then obtain bufs where bufs: "read_handles vs s0 = Inr bufs" "post_send vs (sd0, s0) = (sd, s)"
      "c = Send_buffers bufs c0" "w = w1"
      using step.hyps(4) t by (auto simp: res_simps)
    have "vs \<noteq> []" "\<forall>v \<in> set vs. exists_handle s0 v" using step.hyps(3) t Submit by simp_all
    then have "handles_ok sd s \<and> reads_as sd s c" "bufs \<noteq> []"
      using post_send_reads [OF IH(1,2) _ bufs(1,2)] bufs(3) read_Nil [OF bufs(1)] by simp_all
    then show ?thesis
      using run [of "Call_Sends bufs" "(c, w)"] IH(4) bufs(3,4)
      by (intro conjI exI [of _ "is @ [Call_Sends bufs]"]) auto
  next
    case (Connection j)
    have j: "keep_handles j (sd0, s0) = Inr (sd, s)" "handle oh ob sc j (c0, w1) = Inr (c, w)"
      using step.hyps(4) t Connection by (auto simp: res_simps)
    have en: "send_enabled (Connection j) ((sd0, s0), c0, w1)" using step.hyps(3) t Connection by simp
    then have "handles_ok sd s \<and> reads_as sd s c" using keep_handles_reads [OF IH(1,2) en j(2)] j(1) by auto
    then show ?thesis
      using run [OF _ j(2)] en IH(4) by (intro conjI exI [of _ "is @ [j]"]) auto
  qed
qed

section \<open>Properties\<close>

text \<open>
  C11 What the client theories take for granted of buffers: in every run of a program and a connection that
  shares handles with it, the connection runs as it does on bytes, and the handles it keeps read as those
  bytes although the program may have given up its own; the deleter of a buffer runs once, when
  neither has a handle. Nothing faults when the connection goes on, and once it has nothing
  more to write, no write having failed, it keeps no handle.
\<close>

theorem connection_holds_buffers:
  assumes "send_run oh ob sc objs n w0 ((sd, s), c, w)"
  shows "(\<forall>bufs opened. (bufs, opened) \<in> set (writes c) \<longrightarrow> read_handles (sd_writing sd) s = Inr bufs) \<and>
    read_handles (sd_pending sd) s = Inr (mPendingBuffers c) \<and>
    distinct (sb_disposed s) \<and> (\<forall>b. b \<in> set (sb_disposed s) \<longleftrightarrow> b < sb_next s \<and> \<not> owned s b) \<and>
    (\<forall>i. send_enabled i ((sd, s), c, w) \<longrightarrow> i \<in> {Connection Run_Posted, Connection (Write_Done success), Submit vs} \<longrightarrow>
      (\<exists>t. send_step oh ob sc i ((sd, s), c, w) = Inr t)) \<and>
    (\<exists>is. tcp_run oh ob sc (TcpClient n, w0) is (c, w) \<and> sends_buffers is \<and>
      (\<not> failed_writes is \<longrightarrow> posted c = [] \<longrightarrow> writes c = [] \<longrightarrow> conn_handles sd = []))"
proof -
  obtain "is" where ok: "handles_ok sd s" "reads_as sd s c" "tcp_run oh ob sc (TcpClient n, w0) is (c, w)" "sends_buffers is"
    using send_run_ok [OF assms] by blast
  have wi: "write_inv is c" by (rule tcp_run_write_inv [OF ok(3,4)])
  have inv: "buffers_inv s" using ok(1) by (simp add: handles_ok_def)
  have "read_handles (sd_writing sd) s = Inr bufs" if "(bufs, opened) \<in> set (writes c)" for bufs opened
  proof -
    have "bufs \<in> set (map fst (writes c))" using that by force
    then have "bufs = mWriteBuffers c" using wi by (auto simp: write_inv_def one_write_def split: if_splits)
    then show ?thesis using ok(2) by (simp add: reads_as_def)
  qed
  moreover have "read_handles (sd_pending sd) s = Inr (mPendingBuffers c)" using ok(2) by (simp add: reads_as_def)
  moreover have "distinct (sb_disposed s)" "b \<in> set (sb_disposed s) \<longleftrightarrow> b < sb_next s \<and> \<not> owned s b" for b
    using inv by (auto simp: buffers_inv_def pool_inv_def owned_held gone_def)
  moreover have "\<exists>t. send_step oh ob sc i ((sd, s), c, w) = Inr t"
    if "send_enabled i ((sd, s), c, w)" "i \<in> {Connection Run_Posted, Connection (Write_Done success), Submit vs}" for i
    using that run_task_reads [OF ok(1,2)] write_done_reads [OF ok(1,2), of success] submit_bytes [OF inv, of vs]
    by (auto simp: res_simps)
  moreover have "conn_handles sd = []" if idle: "\<not> failed_writes is" "posted c = []" "writes c = []"
  proof -
    have "mWriteBuffers c = []" "mPendingBuffers c = []"
      using wi idle by (auto simp: write_inv_def one_write_def split: if_splits)
    then show ?thesis
      using ok(2) idle(2) read_Nil by (auto simp: reads_as_def conn_handles_def)
  qed
  ultimately show ?thesis using ok(3,4) by blast
qed

text \<open>A program that submits a buffer and destroys its own handle before the task of \<^verbatim>\<open>Send\<close> has run.\<close>

lemma send_example:
  "\<exists>sd s c. send_run (\<lambda>b w. Inr (False, b, [], w)) (\<lambda>h w. Inr w) (\<lambda>a b w. w) (\<lambda>p. []) 24 ()
      ((sd, s), c :: unit tcp_client, ()) \<and>
    writes c = [([[None, None]], False)] \<and> sb_disposed s = [] \<and> mData s 0 = None"
proof -
  let ?run = "send_run (\<lambda>b w. Inr (False, b, [], w)) (\<lambda>h w. Inr w) (\<lambda>a b w. w) (\<lambda>p. []) 24 ()
      :: (unit, unit) sender \<Rightarrow> bool"
  let ?c = "TcpClient 24 :: unit tcp_client"
  define s1 where "s1 = malloc_buffer 0 2 (no_buffers (\<lambda>p. []))"
  define s2 where "s2 = SharedBuffer_copy 1 0 s1"
  define s3 where "s3 = s2\<lparr>sb_handles := [(1, Some 0)]\<rparr>"
  define s4 where "s4 = s3\<lparr>sb_handles := [(2, Some 0)]\<rparr>"
  note defs = s1_def s2_def s3_def s4_def shared_simps
  have "?run ((nothing_to_send, s1), ?c, ())"
    by (rule send_run.step [OF send_run.start, where i = "Program (DoMalloc 0 2)"])
      (simp_all add: s1_def exists_handle_def no_buffers_def conn_handles_def nothing_to_send_def)
  then have "?run ((\<lparr>sd_posted = [Some [1]], sd_pending = [], sd_writing = []\<rparr>, s2), Send_buffers [[None, None]] ?c, ())"
    by (rule send_run.step [where i = "Submit [0]"])
      (simp_all add: defs IsNull_def buffer_ToString_def deref_def read_mem_def region_def post_send_def fresh_handle_def
        nothing_to_send_def numeral_2_eq_2)
  then have "?run ((\<lparr>sd_posted = [Some [1]], sd_pending = [], sd_writing = []\<rparr>, s3), Send_buffers [[None, None]] ?c, ())"
    by (rule send_run.step [where i = "Program (DoDestroy 0)"]) (simp_all add: defs conn_handles_def)
  then have "?run ((\<lparr>sd_posted = [], sd_pending = [], sd_writing = [2]\<rparr>, s4),
      run_send [[None, None]] ?c, ())"
    by (rule send_run.step [where i = "Connection Run_Posted"])
      (simp_all add: defs Send_buffers_def TcpClient_def run_task_def append_pending_def fresh_handle_def swap_buffers_def
        destroy_handles_def run_posted_def)
  then show ?thesis
    by (intro exI conjI) (assumption, simp_all add: defs run_send_def Send_def TcpClient_def)
qed

theorem connection_holds_buffers_witness:
  "\<exists>(sd :: sending) (s :: buffers). read_handles (sd_writing sd) s = Inr [[None, None]] \<and> sb_disposed s = [] \<and> IsNull 0 s"
proof -
  obtain sd s and c :: "unit tcp_client" where run: "send_run (\<lambda>b w. Inr (False, b, [], w)) (\<lambda>h w. Inr w)
      (\<lambda>a b w. w) (\<lambda>p. []) 24 () ((sd, s), c, ())"
    and c: "writes c = [([[None, None]], False)]" "sb_disposed s = []" "mData s 0 = None"
    using send_example by blast
  have "([[None, None]], False) \<in> set (writes c)" using c(1) by simp
  then have "read_handles (sd_writing sd) s = Inr [[None, None]]"
    using connection_holds_buffers [OF run] by blast
  then show ?thesis using c(2,3) unfolding IsNull_def by blast
qed

end
