(* ===== verification/Server_Item.thy ===== *)
theory Server_Item
  imports Tcp_Client
begin

text \<open>
  \<^verbatim>\<open>serverManager/ServerItem.h\<close> and \<^verbatim>\<open>ServerItem.cpp\<close>. A \<^verbatim>\<open>ServerItem::Ptr\<close> is an address
  (\<open>ptr\<close>) and the objects live in a store, because the code compares servers by address
  and shares them between the server list, the distribution algorithms and the client.
  \<^verbatim>\<open>boost::lexical_cast\<close> is the parameter \<open>lexcast\<close>; \<open>decimal_cast\<close> states what its
  documentation promises for integers.
\<close>

record server_item =
  si_host :: string
  si_port :: int
  si_weight :: i32
  si_pending :: "i32 list"
  si_socket :: "addr tcp_client"

type_synonym store = "ptr \<Rightarrow> server_item"

definition ServerItem :: "string \<Rightarrow> int \<Rightarrow> i32 \<Rightarrow> server_item" where
  "ServerItem host port weight =
     \<lparr>si_host = host, si_port = port, si_weight = weight, si_pending = [],
      si_socket = TcpClient 24\<rparr>"

definition ToString :: "(int \<Rightarrow> string) \<Rightarrow> string \<Rightarrow> int \<Rightarrow> string" where
  "ToString lexcast host port = host @ lexcast port"

definition item_ToString :: "(int \<Rightarrow> string) \<Rightarrow> server_item \<Rightarrow> string" where
  "item_ToString lexcast s = ToString lexcast (si_host s) (si_port s)"

text \<open>Requests waiting for their answer, and the connection they are written to.\<close>

definition SendRequest :: "i32 \<Rightarrow> cell list \<Rightarrow> server_item \<Rightarrow> server_item" where
  "SendRequest requestId buf s =
     (let s = s\<lparr>si_pending := si_pending s @ [requestId]\<rparr>
      in s\<lparr>si_socket := Send_buffer buf (si_socket s)\<rparr>)"

definition SendRequests :: "i32 \<Rightarrow> cell list list \<Rightarrow> server_item \<Rightarrow> server_item" where
  "SendRequests requestId bufs s =
     (let s = s\<lparr>si_pending := si_pending s @ [requestId]\<rparr>
      in s\<lparr>si_socket := Send_buffers bufs (si_socket s)\<rparr>)"

text \<open>The decimal form of an integer.\<close>

definition digit_char :: "nat \<Rightarrow> char" where
  "digit_char d = char_of (48 + d)"

fun decimal_nat :: "nat \<Rightarrow> string" where
  "decimal_nat n =
     (if n < 10 then [digit_char n] else decimal_nat (n div 10) @ [digit_char (n mod 10)])"

declare decimal_nat.simps [simp del]

definition decimal :: "int \<Rightarrow> string" where
  "decimal n = (if n < 0 then CHR ''-'' # decimal_nat (nat (- n)) else decimal_nat (nat n))"

definition decimal_cast :: "(int \<Rightarrow> string) \<Rightarrow> bool" where
  "decimal_cast lexcast \<longleftrightarrow> (\<forall>n. lexcast n = decimal n)"

section \<open>Decimal strings\<close>

lemma of_char_digit: "d < 10 \<Longrightarrow> (of_char (digit_char d) :: nat) = 48 + d"
  by (simp add: digit_char_def of_char_of)

lemma digit_char_inject: "c < 10 \<Longrightarrow> d < 10 \<Longrightarrow> digit_char c = digit_char d \<longleftrightarrow> c = d"
  by (metis of_char_digit add_left_cancel)

lemma decimal_nat_nonempty: "decimal_nat n \<noteq> []"
  by (subst decimal_nat.simps) simp

lemma decimal_nat_length: "length (decimal_nat n) \<le> Suc n"
proof (induction n rule: decimal_nat.induct)
  case (1 n)
  show ?case
  proof (cases "n < 10")
    case True
    then show ?thesis by (subst decimal_nat.simps) simp
  next
    case False
    then have "length (decimal_nat (n div 10)) \<le> Suc (n div 10)" using "1.IH" by simp
    with False show ?thesis by (subst decimal_nat.simps) simp
  qed
qed

lemma decimal_nat_length_less: "n < 10 ^ Suc k \<Longrightarrow> length (decimal_nat n) \<le> Suc k"
proof (induction k arbitrary: n)
  case 0
  then show ?case by (subst decimal_nat.simps) simp
next
  case (Suc k)
  show ?case
  proof (cases "n < 10")
    case True
    then show ?thesis by (subst decimal_nat.simps) simp
  next
    case False
    have "n div 10 < 10 ^ Suc k" using Suc.prems by (simp add: less_mult_imp_div_less mult.commute)
    then have "length (decimal_nat (n div 10)) \<le> Suc k" by (rule Suc.IH)
    with False show ?thesis by (subst decimal_nat.simps) simp
  qed
qed

lemma decimal_nat_inject: "decimal_nat m = decimal_nat n \<Longrightarrow> m = n"
proof (induction m arbitrary: n rule: decimal_nat.induct)
  case (1 m)
  show ?case
  proof (cases "m < 10")
    case True
    then have m: "decimal_nat m = [digit_char m]" by (subst decimal_nat.simps) simp
    have "n < 10"
    proof (rule ccontr)
      assume "\<not> n < 10"
      then have "decimal_nat n = decimal_nat (n div 10) @ [digit_char (n mod 10)]"
        by (subst decimal_nat.simps) simp
      with m "1.prems" show False by (simp add: decimal_nat_nonempty)
    qed
    then have "decimal_nat n = [digit_char n]" by (subst decimal_nat.simps) simp
    with m "1.prems" True \<open>n < 10\<close> show ?thesis by (simp add: digit_char_inject)
  next
    case False
    then have m: "decimal_nat m = decimal_nat (m div 10) @ [digit_char (m mod 10)]"
      by (subst decimal_nat.simps) simp
    have "\<not> n < 10"
    proof
      assume "n < 10"
      then have "decimal_nat n = [digit_char n]" by (subst decimal_nat.simps) simp
      with m "1.prems" show False using decimal_nat_nonempty [of "m div 10"] by simp
    qed
    then have "decimal_nat n = decimal_nat (n div 10) @ [digit_char (n mod 10)]"
      by (subst decimal_nat.simps) simp
    with m "1.prems" have "decimal_nat (m div 10) = decimal_nat (n div 10)"
      "m mod 10 = n mod 10" by (simp_all add: digit_char_inject)
    with "1.IH" [OF False] show ?thesis by (metis div_mult_mod_eq)
  qed
qed

lemma digit_char_not_minus: "d < 10 \<Longrightarrow> digit_char d \<noteq> CHR ''-''"
proof
  assume "d < 10" "digit_char d = CHR ''-''"
  then have "(of_char CHR ''-'' :: nat) = 48 + d" using of_char_digit by metis
  then show False by simp
qed

lemma hd_decimal_nat: "hd (decimal_nat n) \<noteq> CHR ''-''"
proof (induction n rule: decimal_nat.induct)
  case (1 n)
  then show ?case
    by (subst decimal_nat.simps) (simp add: digit_char_not_minus decimal_nat_nonempty)
qed

lemma decimal_inject: "decimal m = decimal n \<Longrightarrow> m = n"
  using hd_decimal_nat [of "nat m"] hd_decimal_nat [of "nat n"]
  by (auto simp: decimal_def dest!: decimal_nat_inject split: if_splits) (metis list.sel(1))+

end
