(* ===== verification/Distribute.thy ===== *)
theory Distribute
  imports Server_Item
begin

text \<open>
  \<^verbatim>\<open>serverManager/DistributeAlgorithm.h\<close>: the interface between the server list and the
  algorithm that chooses a server for a key hash, as the locale \<open>distribute_algorithm\<close>,
  with the lemmas a client needs proved once; and \<^verbatim>\<open>ModuloDistri\<close>, the simplest
  implementation.

  \<open>servers d\<close> is the set of servers \<^verbatim>\<open>Get\<close> may return. \<^verbatim>\<open>Clear\<close> is only promised to add no
  server; \<open>clearing_algorithm\<close> extends the contract by what the name says, and
  \<^verbatim>\<open>ModuloDistri\<close>, whose \<^verbatim>\<open>Clear\<close> has an empty body, does not meet it.
\<close>

section \<open>The interface\<close>

locale distribute_algorithm =
  fixes add :: "store \<Rightarrow> 'd \<Rightarrow> ptr \<Rightarrow> 'd res"
    and remove :: "'d \<Rightarrow> ptr \<Rightarrow> 'd"
    and get :: "build \<Rightarrow> store \<Rightarrow> 'd \<Rightarrow> u64 \<Rightarrow> ('d \<times> ptr option) res"
    and clear :: "'d \<Rightarrow> 'd"
    and servers :: "'d \<Rightarrow> ptr set"
    and invar :: "'d \<Rightarrow> bool"
    and addable :: "'d \<Rightarrow> store \<Rightarrow> ptr \<Rightarrow> bool"
  assumes add_ok: "invar d \<Longrightarrow> addable d st p \<Longrightarrow> p \<notin> servers d \<Longrightarrow>
      \<exists>d'. add st d p = Inr d' \<and> invar d' \<and> p \<in> servers d' \<and>
        servers d' \<subseteq> insert p (servers d) \<and> addable d' = addable d"
    and remove_ok: "invar d \<Longrightarrow>
      invar (remove d p) \<and> servers (remove d p) = servers d - {p} \<and> addable (remove d p) = addable d"
    and get_ok: "invar d \<Longrightarrow> servers d \<noteq> {} \<Longrightarrow>
      \<exists>d' p. get b st d h = Inr (d', Some p) \<and> p \<in> servers d \<and> invar d' \<and>
        servers d' = servers d \<and> addable d' = addable d \<and> get b st d' h = Inr (d', Some p)"
    and get_empty: "invar d \<Longrightarrow> servers d = {} \<Longrightarrow>
      get b st d h = (if NDEBUG b then Inr (d, None) else Inl AssertionFailed)"
    and clear_ok: "invar d \<Longrightarrow> invar (clear d) \<and> servers (clear d) \<subseteq> servers d"
begin

text \<open>Every answer is a registered server.\<close>

lemma get_sound:
  assumes "invar d" "get b st d h = Inr (d', r)"
  shows "(case r of None \<Rightarrow> servers d = {} | Some p \<Rightarrow> p \<in> servers d)"
    and "invar d'" "servers d' = servers d" "addable d' = addable d"
proof -
  have "(case r of None \<Rightarrow> servers d = {} | Some p \<Rightarrow> p \<in> servers d) \<and> invar d' \<and>
    servers d' = servers d \<and> addable d' = addable d"
  proof (cases "servers d = {}")
    case True
    then show ?thesis
      using assms get_empty [OF assms(1) True, of b st h] by (auto split: if_splits)
  next
    case False
    then show ?thesis using assms get_ok [OF assms(1) False, of b st h] by auto
  qed
  then show "case r of None \<Rightarrow> servers d = {} | Some p \<Rightarrow> p \<in> servers d"
    and "invar d'" "servers d' = servers d" "addable d' = addable d" by simp_all
qed

lemma get_after_remove:
  assumes "invar d" "get b st (remove d p) h = Inr (d', Some q)"
  shows "q \<noteq> p" and "q \<in> servers d"
  using get_sound(1) [OF _ assms(2)] remove_ok [OF assms(1)] by auto

text \<open>Registering a list of distinct new servers.\<close>

lemma add_all:
  assumes "invar d" "distinct ps" "set ps \<inter> servers d = {}"
    and "\<And>p. p \<in> set ps \<Longrightarrow> addable d st p"
  shows "\<exists>d'. foldRes (\<lambda>p d. add st d p) ps d = Inr d' \<and> invar d' \<and>
    servers d' \<subseteq> set ps \<union> servers d \<and> (ps \<noteq> [] \<longrightarrow> servers d' \<noteq> {}) \<and> addable d' = addable d"
  using assms
proof (induction ps arbitrary: d)
  case Nil
  then show ?case by simp
next
  case (Cons p ps)
  then obtain d1 where d1: "add st d p = Inr d1" "invar d1" "p \<in> servers d1"
    "servers d1 \<subseteq> insert p (servers d)" "addable d1 = addable d"
    using add_ok [of d st p] by auto
  have "\<exists>d'. foldRes (\<lambda>p d. add st d p) ps d1 = Inr d' \<and> invar d' \<and>
    servers d' \<subseteq> set ps \<union> servers d1 \<and> (ps \<noteq> [] \<longrightarrow> servers d' \<noteq> {}) \<and> addable d' = addable d1"
    using Cons.prems d1 by (intro Cons.IH) auto
  then obtain d' where d': "foldRes (\<lambda>p d. add st d p) ps d1 = Inr d'" "invar d'"
    "servers d' \<subseteq> set ps \<union> servers d1" "ps \<noteq> [] \<longrightarrow> servers d' \<noteq> {}" "addable d' = addable d1"
    by blast
  have "servers d' \<noteq> {}" using d'(1,4) d1(3) by (cases ps) auto
  moreover have "servers d' \<subseteq> set (p # ps) \<union> servers d" using d'(3) d1(4) by auto
  ultimately show ?case using d' d1 by simp
qed

end

locale clearing_algorithm = distribute_algorithm +
  assumes clear_empty: "invar d \<Longrightarrow> servers (clear d) = {}"
begin

lemma get_after_clear:
  "invar d \<Longrightarrow> get b st (clear d) h = (if NDEBUG b then Inr (clear d, None) else Inl AssertionFailed)"
  using clear_ok clear_empty get_empty by blast

end

section \<open>Modulo distribution\<close>

record modulo_distri =
  mServers :: "ptr list"

definition Modulo_Add :: "store \<Rightarrow> modulo_distri \<Rightarrow> ptr \<Rightarrow> modulo_distri res" where
  "Modulo_Add st d p = Inr (d\<lparr>mServers := mServers d @ [p]\<rparr>)"

definition Modulo_Remove :: "modulo_distri \<Rightarrow> ptr \<Rightarrow> modulo_distri" where
  "Modulo_Remove d p = d\<lparr>mServers := remove1 p (mServers d)\<rparr>"

definition Modulo_Get ::
    "build \<Rightarrow> store \<Rightarrow> modulo_distri \<Rightarrow> u64 \<Rightarrow> (modulo_distri \<times> ptr option) res" where
  "Modulo_Get b st d h =
     assert_then b (mServers d \<noteq> [])
       (if mServers d \<noteq> []
        then Inr (d, Some (mServers d ! (unat h mod length (mServers d))))
        else Inr (d, None))"

definition Modulo_Clear :: "modulo_distri \<Rightarrow> modulo_distri" where
  "Modulo_Clear d = d"

definition modulo_servers :: "modulo_distri \<Rightarrow> ptr set" where
  "modulo_servers d = set (mServers d)"

definition modulo_invar :: "modulo_distri \<Rightarrow> bool" where
  "modulo_invar d \<longleftrightarrow> distinct (mServers d)"

lemmas modulo_defs = Modulo_Add_def Modulo_Remove_def Modulo_Get_def Modulo_Clear_def
  modulo_servers_def modulo_invar_def assert_then_def

interpretation modulo: distribute_algorithm Modulo_Add Modulo_Remove Modulo_Get Modulo_Clear
  modulo_servers modulo_invar "\<lambda>d st p. True"
  by unfold_locales (auto simp: modulo_defs)

text \<open>
  Modulo distribution: with servers registered, \<^verbatim>\<open>Get\<close> returns the server at index
  \<open>hash mod n\<close>, in either build and without changing the state; the servers whose hashes
  agree modulo \<open>n\<close> share a server.
\<close>

theorem modulo_get:
  assumes "mServers d \<noteq> []"
  shows "Modulo_Get b st d h = Inr (d, Some (mServers d ! (unat h mod length (mServers d)))) \<and>
    mServers d ! (unat h mod length (mServers d)) \<in> modulo_servers d"
  using assms by (simp add: modulo_defs)

theorem modulo_get_witness:
  "Modulo_Get \<lparr>NDEBUG = False, HOST_LITTLE = True, ENDIAN_LITTLE = False\<rparr>
     (\<lambda>_. ServerItem ''a'' 1 1) \<lparr>mServers = [7, 8, 9]\<rparr> 10 = Inr (\<lparr>mServers = [7, 8, 9]\<rparr>, Some 8)"
  using modulo_get [of "\<lparr>mServers = [7, 8, 9]\<rparr>"
      "\<lparr>NDEBUG = False, HOST_LITTLE = True, ENDIAN_LITTLE = False\<rparr>" "\<lambda>_. ServerItem ''a'' 1 1" 10]
  by simp

text \<open>
  \<^verbatim>\<open>ModuloDistri::Clear\<close> has an empty body, so \<^verbatim>\<open>ModuloDistri\<close> does not meet the contract
  of an algorithm that can be cleared.
\<close>

theorem modulo_not_clearing:
  "\<not> clearing_algorithm Modulo_Add Modulo_Remove Modulo_Get Modulo_Clear
     modulo_servers modulo_invar (\<lambda>d st p. True)"
proof
  assume "clearing_algorithm Modulo_Add Modulo_Remove Modulo_Get Modulo_Clear
     modulo_servers modulo_invar (\<lambda>d st p. True)"
  then have "modulo_servers (Modulo_Clear \<lparr>mServers = [0]\<rparr>) = {}"
    by (rule clearing_algorithm.clear_empty) (simp add: modulo_defs)
  then show False by (simp add: modulo_defs)
qed

end
