(* ===== verification/Std_Map.thy ===== *)
theory Std_Map
  imports Prelude
begin

text \<open>
  The part of \<^verbatim>\<open>std::map\<close> the sources use, as association lists sorted by key:
  assignment through \<^verbatim>\<open>operator[]\<close>, \<^verbatim>\<open>find\<close>, \<^verbatim>\<open>upper_bound\<close>, \<^verbatim>\<open>begin\<close> and \<^verbatim>\<open>erase\<close>.
  The locale \<open>ring_map\<close> states what a client that walks the keys as a ring relies on, and
  proves once how the owner of a position changes when points are put on the ring or
  taken off it.
\<close>

type_synonym ('k, 'v) omap = "('k \<times> 'v) list"

fun om_put :: "'k::linorder \<Rightarrow> 'v \<Rightarrow> ('k, 'v) omap \<Rightarrow> ('k, 'v) omap" where
  "om_put k v [] = [(k, v)]"
| "om_put k v ((j, w) # m) =
     (if k < j then (k, v) # (j, w) # m
      else if k = j then (k, v) # m
      else (j, w) # om_put k v m)"

fun om_find :: "('k::linorder, 'v) omap \<Rightarrow> 'k \<Rightarrow> 'v option" where
  "om_find [] k = None"
| "om_find ((j, w) # m) k = (if k = j then Some w else om_find m k)"

fun om_upper_bound :: "('k::linorder, 'v) omap \<Rightarrow> 'k \<Rightarrow> ('k \<times> 'v) option" where
  "om_upper_bound [] k = None"
| "om_upper_bound ((j, w) # m) k = (if k < j then Some (j, w) else om_upper_bound m k)"

fun om_begin :: "('k, 'v) omap \<Rightarrow> ('k \<times> 'v) option" where
  "om_begin [] = None"
| "om_begin (p # m) = Some p"

definition om_erase :: "'k \<Rightarrow> ('k, 'v) omap \<Rightarrow> ('k, 'v) omap" where
  "om_erase k m = filter (\<lambda>(j, w). j \<noteq> k) m"

definition om_sorted :: "('k::linorder, 'v) omap \<Rightarrow> bool" where
  "om_sorted m \<longleftrightarrow> sorted_wrt (<) (map fst m)"

text \<open>The loop that collects the iterators of one value and then erases them.\<close>

definition om_erase_value :: "'v \<Rightarrow> ('k, 'v) omap \<Rightarrow> ('k, 'v) omap" where
  "om_erase_value v m =
     (let needRemoveList = filter (\<lambda>(k, w). w = v) m
      in fold (\<lambda>(k, w). om_erase k) needRemoveList m)"

section \<open>Lookup and order\<close>

lemma om_sorted_Nil [simp]: "om_sorted []"
  by (simp add: om_sorted_def)

lemma om_sorted_Cons [simp]:
  "om_sorted ((k, v) # m) \<longleftrightarrow> (\<forall>j \<in> fst ` set m. k < j) \<and> om_sorted m"
  by (auto simp: om_sorted_def)

lemma fst_om_put [simp]: "fst ` set (om_put k v m) = insert k (fst ` set m)"
  by (induction k v m rule: om_put.induct) auto

lemma om_sorted_put: "om_sorted m \<Longrightarrow> om_sorted (om_put k v m)"
  by (induction k v m rule: om_put.induct) auto

lemma om_find_put: "om_find (om_put k v m) j = (if j = k then Some v else om_find m j)"
  by (induction k v m rule: om_put.induct) auto

lemma om_find_None: "om_find m k = None \<longleftrightarrow> k \<notin> fst ` set m"
  by (induction m k rule: om_find.induct) auto

lemma om_find_Some: "om_sorted m \<Longrightarrow> om_find m k = Some v \<longleftrightarrow> (k, v) \<in> set m"
  by (induction m k rule: om_find.induct) force+

lemma om_sorted_filter: "om_sorted m \<Longrightarrow> om_sorted (filter P m)"
  by (induction m) auto

lemma om_find_filter:
  "om_sorted m \<Longrightarrow>
     om_find (filter (\<lambda>(k, w). P w) m) k = (case om_find m k of None \<Rightarrow> None
       | Some w \<Rightarrow> if P w then Some w else None)"
  by (induction m k rule: om_find.induct) (auto simp: om_find_None split: option.splits)

lemma om_upper_bound_Some:
  "om_sorted m \<Longrightarrow> om_upper_bound m k = Some (j, w) \<longleftrightarrow>
     (j, w) \<in> set m \<and> k < j \<and> (\<forall>i \<in> fst ` set m. k < i \<longrightarrow> j \<le> i)"
  by (induction m k rule: om_upper_bound.induct) auto

lemma om_upper_bound_None: "om_upper_bound m k = None \<longleftrightarrow> (\<forall>i \<in> fst ` set m. i \<le> k)"
  by (induction m k rule: om_upper_bound.induct) auto

lemma om_begin_Some:
  "om_sorted m \<Longrightarrow> om_begin m = Some (j, w) \<longleftrightarrow> (j, w) \<in> set m \<and> (\<forall>i \<in> fst ` set m. j \<le> i)"
  by (cases m) (auto, fastforce+)

lemma om_begin_None: "om_begin m = None \<longleftrightarrow> m = []"
  by (cases m) auto

lemma fold_om_erase: "fold (\<lambda>(k, w). om_erase k) ks m = filter (\<lambda>(j, w). j \<notin> fst ` set ks) m"
  by (induction ks arbitrary: m) (auto simp: om_erase_def intro: filter_cong)

lemma om_erase_value_filter:
  assumes "om_sorted m"
  shows "om_erase_value v m = filter (\<lambda>(k, w). w \<noteq> v) m"
proof -
  have "w = v" if "(j, w) \<in> set m" "(j, v) \<in> set m" for j w
    using that assms om_find_Some by (metis option.inject)
  then show ?thesis
    unfolding om_erase_value_def Let_def fold_om_erase
    by (intro filter_cong) (auto simp: image_iff)
qed

section \<open>The ring\<close>

locale ring_map =
  fixes put :: "'k::linorder \<Rightarrow> 'v \<Rightarrow> 'm \<Rightarrow> 'm"
    and find :: "'m \<Rightarrow> 'k \<Rightarrow> 'v option"
    and upper :: "'m \<Rightarrow> 'k \<Rightarrow> ('k \<times> 'v) option"
    and first :: "'m \<Rightarrow> ('k \<times> 'v) option"
    and erase_value :: "'v \<Rightarrow> 'm \<Rightarrow> 'm"
    and invar :: "'m \<Rightarrow> bool"
  assumes find_put: "invar m \<Longrightarrow> find (put k v m) = (find m)(k \<mapsto> v)"
    and find_erase: "invar m \<Longrightarrow> find (erase_value v m) k =
      (if find m k = Some v then None else find m k)"
    and upper_Some: "invar m \<Longrightarrow> upper m k = Some (j, w) \<longleftrightarrow>
      find m j = Some w \<and> k < j \<and> (\<forall>i. find m i \<noteq> None \<longrightarrow> k < i \<longrightarrow> j \<le> i)"
    and upper_None: "invar m \<Longrightarrow> upper m k = None \<longleftrightarrow> (\<forall>i. find m i \<noteq> None \<longrightarrow> i \<le> k)"
    and first_Some: "invar m \<Longrightarrow> first m = Some (j, w) \<longleftrightarrow>
      find m j = Some w \<and> (\<forall>i. find m i \<noteq> None \<longrightarrow> j \<le> i)"
    and first_None: "invar m \<Longrightarrow> first m = None \<longleftrightarrow> (\<forall>i. find m i = None)"
    and invar_put: "invar m \<Longrightarrow> invar (put k v m)"
    and invar_erase: "invar m \<Longrightarrow> invar (erase_value v m)"
begin

definition owner :: "'m \<Rightarrow> 'k \<Rightarrow> ('k \<times> 'v) option" where
  "owner m h = (case find m h of Some v \<Rightarrow> Some (h, v)
     | None \<Rightarrow> (case upper m h of Some p \<Rightarrow> Some p | None \<Rightarrow> first m))"

text \<open>A point \<open>j\<close> is the next one from \<open>h\<close> on, clockwise.\<close>

definition next_point :: "'m \<Rightarrow> 'k \<Rightarrow> 'k \<Rightarrow> bool" where
  "next_point m h j \<longleftrightarrow> find m j \<noteq> None \<and>
     (if h \<le> j then \<forall>i. find m i \<noteq> None \<longrightarrow> h \<le> i \<longrightarrow> j \<le> i
      else (\<forall>i. find m i \<noteq> None \<longrightarrow> i < h \<and> j \<le> i))"

lemma owner_Some:
  assumes "invar m"
  shows "owner m h = Some (j, w) \<longleftrightarrow> find m j = Some w \<and> next_point m h j"
proof (cases "find m h")
  case (Some v)
  then show ?thesis by (auto simp: owner_def next_point_def dest: order_antisym)
next
  case None
  have ne: "find m i \<noteq> None \<Longrightarrow> i \<noteq> h" for i using None by auto
  show ?thesis
  proof (cases "upper m h")
    case None': None
    have lt: "i < h" if "find m i \<noteq> None" for i
      using that None' upper_None [OF assms, of h] ne [OF that] by (auto simp: le_less)
    have "first m = Some (j, w) \<longleftrightarrow> find m j = Some w \<and> next_point m h j"
      unfolding first_Some [OF assms] next_point_def
      by (metis lt linorder_not_le option.discI)
    with None None' show ?thesis by (simp add: owner_def)
  next
    case (Some p)
    obtain k v where p: "p = (k, v)" by (cases p)
    then have k: "find m k = Some v" "h < k" "\<forall>i. find m i \<noteq> None \<longrightarrow> h < i \<longrightarrow> k \<le> i"
      using Some upper_Some [OF assms] by auto
    have "(k, v) = (j, w) \<longleftrightarrow> find m j = Some w \<and> next_point m h j"
    proof
      assume "(k, v) = (j, w)"
      then show "find m j = Some w \<and> next_point m h j"
        using k ne by (auto simp: next_point_def order_le_less)
    next
      assume j: "find m j = Some w \<and> next_point m h j"
      have "h \<le> j"
      proof (rule ccontr)
        assume "\<not> h \<le> j"
        then have "k < h" using j k(1) by (auto simp: next_point_def)
        with k(2) show False by simp
      qed
      then have "j \<le> k" and "h < j"
        using j k ne by (auto simp: next_point_def order_le_less)
      then have "j = k" using j k(3) by (auto intro: order_antisym)
      with j k(1) show "(k, v) = (j, w)" by simp
    qed
    with None Some p show ?thesis by (simp add: owner_def)
  qed
qed

lemma owner_None: "invar m \<Longrightarrow> owner m h = None \<longleftrightarrow> (\<forall>i. find m i = None)"
  using first_None upper_Some by (auto simp: owner_def split: option.splits)

text \<open>Putting a point on the ring moves a position only to the new point.\<close>

lemma owner_put:
  assumes "invar m" "owner (put k v m) h = Some (j, w)"
  shows "(j, w) = (k, v) \<or> owner m h = Some (j, w)"
proof (cases "j = k")
  case True
  then show ?thesis
    using assms owner_Some [OF invar_put [OF assms(1)]] by (simp add: find_put)
next
  case False
  have j: "find m j = Some w" "next_point (put k v m) h j"
    using assms False owner_Some [OF invar_put [OF assms(1)]] by (simp_all add: find_put)
  then have "next_point m h j"
    using False by (auto simp: next_point_def find_put [OF assms(1)] split: if_splits)
  with j(1) show ?thesis by (simp add: owner_Some [OF assms(1)])
qed

text \<open>Taking a value off the ring moves only the positions it owned.\<close>

lemma owner_erase:
  assumes "invar m" "owner m h = Some (j, w)" "w \<noteq> v"
  shows "owner (erase_value v m) h = Some (j, w)"
proof -
  have j: "find m j = Some w" "next_point m h j"
    using assms owner_Some by auto
  then have "next_point (erase_value v m) h j"
    using assms(3) by (auto simp: next_point_def find_erase [OF assms(1)] split: if_splits)
  with j(1) assms(3) show ?thesis
    by (simp add: owner_Some [OF invar_erase [OF assms(1)]] find_erase [OF assms(1)])
qed

lemma owner_fold_put:
  assumes "invar m" "owner (fold (\<lambda>k. put k v) ks m) h = Some (j, w)"
  shows "w = v \<or> owner m h = Some (j, w)"
  using assms
proof (induction ks arbitrary: m)
  case Nil
  then show ?case by simp
next
  case (Cons k ks)
  then have "w = v \<or> owner (put k v m) h = Some (j, w)" by (simp add: invar_put)
  with owner_put [OF Cons.prems(1)] show ?case by blast
qed

lemma invar_fold_put: "invar m \<Longrightarrow> invar (fold (\<lambda>k. put k v) ks m)"
  by (induction ks arbitrary: m) (simp_all add: invar_put)

lemma find_fold_put:
  "invar m \<Longrightarrow> find (fold (\<lambda>k. put k v) ks m) j = (if j \<in> set ks then Some v else find m j)"
  by (induction ks arbitrary: m) (auto simp: invar_put find_put)

end

interpretation om: ring_map om_put om_find om_upper_bound om_begin om_erase_value om_sorted
proof
  fix m :: "('k::linorder, 'v) omap" and k j :: 'k and v w :: 'v
  assume m: "om_sorted m"
  have dom: "i \<in> fst ` set m \<longleftrightarrow> om_find m i \<noteq> None" for i
    by (simp add: om_find_None)
  show "om_find (om_put k v m) = (om_find m)(k \<mapsto> v)"
    by (rule ext) (simp add: om_find_put)
  show "om_find (om_erase_value v m) k = (if om_find m k = Some v then None else om_find m k)"
    by (simp add: om_erase_value_filter [OF m] om_find_filter [OF m] split: option.splits)
  show "om_upper_bound m k = Some (j, w) \<longleftrightarrow> om_find m j = Some w \<and> k < j \<and>
      (\<forall>i. om_find m i \<noteq> None \<longrightarrow> k < i \<longrightarrow> j \<le> i)"
    unfolding om_upper_bound_Some [OF m] om_find_Some [OF m] Ball_def dom by blast
  show "om_upper_bound m k = None \<longleftrightarrow> (\<forall>i. om_find m i \<noteq> None \<longrightarrow> i \<le> k)"
    unfolding om_upper_bound_None Ball_def dom ..
  show "om_begin m = Some (j, w) \<longleftrightarrow> om_find m j = Some w \<and>
      (\<forall>i. om_find m i \<noteq> None \<longrightarrow> j \<le> i)"
    unfolding om_begin_Some [OF m] om_find_Some [OF m] Ball_def dom ..
  show "om_begin m = None \<longleftrightarrow> (\<forall>i. om_find m i = None)"
    by (auto simp: om_begin_None om_find_None)
  show "om_sorted (om_put k v m)" by (rule om_sorted_put [OF m])
  show "om_sorted (om_erase_value v m)"
    by (simp add: om_erase_value_filter [OF m] om_sorted_filter [OF m])
qed

end
