(* ===== verification/Consistent_Hash.thy ===== *)
theory Consistent_Hash
  imports Distribute Md5_Correct Std_Map
begin

unbundle bit_operations_syntax

text \<open>
  \<^verbatim>\<open>serverManager/ConsistentHashDistri.h\<close> and \<^verbatim>\<open>ConsistentHashDistri.cpp\<close>: servers placed on
  a ring by MD5 and keys answered by the next point clockwise. \<open>raw\<close> stands for the
  uninitialised members of the local MD5 objects, \<open>lexcast\<close> for \<^verbatim>\<open>boost::lexical_cast\<close>. The
  ring lemmas come from the interpretation \<open>om\<close> of \<open>ring_map\<close>.
\<close>

record cons_hash =
  mCircle :: "(u64, ptr) omap"
  mReplications :: i32

definition ConsistentHashDistri :: "i32 \<Rightarrow> cons_hash" where
  "ConsistentHashDistri replis = \<lparr>mCircle = [], mReplications = replis\<rparr>"

text \<open>The integer the four characters at the offset pack into, converted to \<^verbatim>\<open>size_t\<close>.\<close>

definition Hash :: "string \<Rightarrow> nat \<Rightarrow> u64 res" where
  "Hash md5Value offset =
     (let startIndex = offset * 4;
          byte = (\<lambda>i. (of_nat (of_char (md5Value ! (i + startIndex))) :: i32) AND 0xFF)
      in if 3 + startIndex < length md5Value
         then Inr (scast (byte 0 OR push_bit 8 (byte 1) OR push_bit 16 (byte 2)
                OR push_bit 24 (byte 3)))
         else Inl OutOfBounds)"

definition totalReplications :: "i32 \<Rightarrow> i32 \<Rightarrow> i32" where
  "totalReplications replications weight = (replications * weight) AND 0x8FFFFFF4"

text \<open>The number of iterations of the outer loop, \<^verbatim>\<open>i < totalReplications / 4\<close>.\<close>

definition ring_rounds :: "i32 \<Rightarrow> i32 \<Rightarrow> nat" where
  "ring_rounds replications weight = nat (sint (totalReplications replications weight)) div 4"

definition add_point :: "ptr \<Rightarrow> string \<Rightarrow> nat \<Rightarrow> (u64, ptr) omap \<Rightarrow> (u64, ptr) omap res" where
  "add_point p md5Value h circle =
     andThen (Hash md5Value h) (\<lambda>hashValue. Inr (om_put hashValue p circle))"

definition add_round ::
    "(int \<Rightarrow> string) \<Rightarrow> md5 \<Rightarrow> server_item \<Rightarrow> ptr \<Rightarrow> nat \<Rightarrow> (u64, ptr) omap \<Rightarrow> (u64, ptr) omap res" where
  "add_round lexcast raw item p i circle =
     andThen (MD5_string raw (item_ToString lexcast item @ lexcast (int i))) (\<lambda>m.
     andThen (toString m) (\<lambda>(md5Value, m).
     foldRes (add_point p md5Value) [0..<4] circle))"

definition Cons_Add ::
    "(int \<Rightarrow> string) \<Rightarrow> md5 \<Rightarrow> store \<Rightarrow> cons_hash \<Rightarrow> ptr \<Rightarrow> cons_hash res" where
  "Cons_Add lexcast raw st d p =
     andThen (foldRes (add_round lexcast raw (st p) p)
                [0..<ring_rounds (mReplications d) (si_weight (st p))] (mCircle d))
       (\<lambda>circle. Inr (d\<lparr>mCircle := circle\<rparr>))"

definition Cons_Remove :: "cons_hash \<Rightarrow> ptr \<Rightarrow> cons_hash" where
  "Cons_Remove d p = d\<lparr>mCircle := om_erase_value p (mCircle d)\<rparr>"

definition Cons_Get ::
    "build \<Rightarrow> store \<Rightarrow> cons_hash \<Rightarrow> u64 \<Rightarrow> (cons_hash \<times> ptr option) res" where
  "Cons_Get b st d h =
     assert_then b (0 \<noteq> length (mCircle d))
       (if 0 \<noteq> length (mCircle d)
        then (case om_find (mCircle d) h of
               Some p \<Rightarrow> Inr (d, Some p)
             | None \<Rightarrow> (case om_upper_bound (mCircle d) h of
                 Some (k, p) \<Rightarrow> Inr (d, Some p)
               | None \<Rightarrow> (case om_begin (mCircle d) of
                   Some (k, p) \<Rightarrow> Inr (d, Some p)
                 | None \<Rightarrow> Inl BadIterator)))
        else Inr (d, None))"

definition Cons_Clear :: "cons_hash \<Rightarrow> cons_hash" where
  "Cons_Clear d = d\<lparr>mCircle := []\<rparr>"

definition cons_servers :: "cons_hash \<Rightarrow> ptr set" where
  "cons_servers d = snd ` set (mCircle d)"

definition cons_invar :: "cons_hash \<Rightarrow> bool" where
  "cons_invar d \<longleftrightarrow> om_sorted (mCircle d)"

text \<open>
  The servers \<^verbatim>\<open>Add\<close> can place: the string hashed for each round is short enough for the
  MD5 object, and there is at least one round.
\<close>

definition cons_addable ::
    "(int \<Rightarrow> string) \<Rightarrow> md5 \<Rightarrow> cons_hash \<Rightarrow> store \<Rightarrow> ptr \<Rightarrow> bool" where
  "cons_addable lexcast raw d st p \<longleftrightarrow>
     length (md_buffer raw) = 64 \<and>
     0 < ring_rounds (mReplications d) (si_weight (st p)) \<and>
     (\<forall>i < ring_rounds (mReplications d) (si_weight (st p)).
        length (item_ToString lexcast (st p) @ lexcast (int i)) + 64 \<le> 2 ^ 32)"

text \<open>The points of a server, in the order they are put on the ring.\<close>

definition ring_value :: "(int \<Rightarrow> string) \<Rightarrow> server_item \<Rightarrow> nat \<Rightarrow> string" where
  "ring_value lexcast item i =
     bytesToHexString (md5_spec (string_bytes (item_ToString lexcast item @ lexcast (int i))))"

definition hex_point :: "string \<Rightarrow> nat \<Rightarrow> u64" where
  "hex_point v h = le_word (map (\<lambda>c. of_nat (of_char c)) (take 4 (drop (4 * h) v)))"

definition ring_points :: "(int \<Rightarrow> string) \<Rightarrow> server_item \<Rightarrow> nat \<Rightarrow> u64 list" where
  "ring_points lexcast item n =
     concat (map (\<lambda>i. map (hex_point (ring_value lexcast item i)) [0..<4]) [0..<n])"

section \<open>Packing four hexadecimal digits\<close>

fun bytes_value :: "u8 list \<Rightarrow> nat" where
  "bytes_value [] = 0"
| "bytes_value (b # bs) = unat b + 256 * bytes_value bs"

lemma bytes_value_bound: "bytes_value bs < 256 ^ length bs"
proof (induction bs)
  case Nil
  show ?case by simp
next
  case (Cons b bs)
  have "unat b < 256" using unsigned_less [of b, where ?'a = nat] by simp
  then have "unat b + 256 * bytes_value bs < 256 * Suc (bytes_value bs)" by simp
  also have "\<dots> \<le> 256 * 256 ^ length bs" using Cons by (intro mult_le_mono2) simp
  finally show ?case by simp
qed

lemma le_word_bytes_value: "(le_word bs :: 'a::len word) = of_nat (bytes_value bs)"
proof (induction bs)
  case Nil
  show ?case by simp
next
  case (Cons b bs)
  let ?w = "le_word bs :: 'a word"
  have "(ucast b :: 'a word) OR push_bit 8 ?w = ucast b + push_bit 8 ?w"
    by (rule disjunctive_add_eq_or [symmetric])
      (rule bit_word_eqI, auto simp: bit_simps dest: bit_imp_le_length)
  moreover have "push_bit 8 ?w = 256 * ?w" by (simp add: push_bit_eq_mult)
  ultimately show ?case using Cons by simp
qed

lemma unat_le_word:
  assumes "8 * length bs \<le> LENGTH('a)"
  shows "unat (le_word bs :: 'a::len word) = bytes_value bs"
proof -
  have "bytes_value bs < 2 ^ (8 * length bs)"
    using bytes_value_bound [of bs] by (simp add: power_mult)
  also have "\<dots> \<le> 2 ^ LENGTH('a)" using assms by (intro power_increasing) auto
  finally show ?thesis unfolding le_word_bytes_value unat_of_nat by simp
qed

lemma scast_nonneg:
  assumes "unat (w :: i32) < 2 ^ 31"
  shows "(scast w :: u64) = ucast w"
proof -
  have "\<not> bit (unat w) 31" using assms by (simp add: bit_iff_odd)
  then have "\<not> bit w 31" by (simp add: bit_unsigned_iff)
  then have low: "n < 31" if "bit w n" for n
    using that bit_imp_le_length [OF that] by (cases "n = 31") simp_all
  show ?thesis
    by (rule bit_word_eqI) (use low in \<open>auto simp: bit_simps min_def dest: low\<close>)
qed

lemma HEX_code: "c \<in> set HEX \<Longrightarrow> 0x30 \<le> (of_char c :: nat) \<and> (of_char c :: nat) \<le> 0x66"
  by (auto simp: HEX_def)

lemma hex_bytes_value:
  assumes "set v \<subseteq> set HEX" "length v = 4"
  defines "bs \<equiv> map (\<lambda>c. of_nat (of_char c) :: u8) v"
  shows "0x30303030 \<le> bytes_value bs" "bytes_value bs \<le> 0x66666666"
proof -
  obtain a b c d where v: "v = [a, b, c, d]"
    using assms(2) by (auto simp: numeral_eq_Suc length_Suc_conv)
  have code: "unat (of_nat (of_char c) :: u8) = of_char c" for c :: char
    by (simp add: unat_of_nat)
  show "0x30303030 \<le> bytes_value bs" "bytes_value bs \<le> 0x66666666"
    using assms(1) HEX_code [of a] HEX_code [of b] HEX_code [of c] HEX_code [of d]
    by (simp_all add: bs_def v code)
qed

lemma Hash_hex_point:
  assumes "set v \<subseteq> set HEX" "length v = 32" "h < 4"
  shows "Hash v h = Inr (hex_point v h)"
    and "0x30303030 \<le> unat (hex_point v h)" "unat (hex_point v h) \<le> 0x66666666"
proof -
  define w where "w = take 4 (drop (4 * h) v)"
  have w: "length w = 4" "set w \<subseteq> set HEX"
    using assms by (auto simp: w_def dest: in_set_takeD in_set_dropD)
  let ?bs = "map (\<lambda>c. of_nat (of_char c) :: u8) w"
  have val: "0x30303030 \<le> bytes_value ?bs" "bytes_value ?bs \<le> 0x66666666"
    by (rule hex_bytes_value [OF w(2,1)])+
  have point: "hex_point v h = le_word ?bs" by (simp add: hex_point_def w_def)
  show "0x30303030 \<le> unat (hex_point v h)" "unat (hex_point v h) \<le> 0x66666666"
    using val w(1) unfolding point by (simp_all add: unat_le_word)
  have nth: "v ! (i + h * 4) = w ! i" if "i < 4" for i
    using that assms by (simp add: w_def add.commute mult.commute)
  have byte: "(of_nat (of_char c) :: i32) AND 0xFF = ucast (of_nat (of_char c) :: u8)" for c :: char
  proof -
    have "(0xFF :: i32) = mask 8" by (simp add: mask_eq_exp_minus_1)
    then have "(of_nat (of_char c) :: i32) AND 0xFF = take_bit 8 (of_nat (of_char c))"
      by (simp add: take_bit_eq_mask)
    also have "\<dots> = ucast (ucast (of_nat (of_char c) :: i32) :: u8)" by (simp add: ucast_ucast_u8)
    also have "(ucast (of_nat (of_char c) :: i32) :: u8) = of_nat (of_char c)"
      by (rule bit_word_eqI) (simp add: bit_simps)
    finally show ?thesis .
  qed
  obtain a b c d where abcd: "w = [a, b, c, d]"
    using w(1) by (auto simp: numeral_eq_Suc length_Suc_conv)
  have pack: "(le_word ?bs :: i32) = ucast (of_nat (of_char a) :: u8) OR
      push_bit 8 (ucast (of_nat (of_char b) :: u8)) OR
      push_bit 16 (ucast (of_nat (of_char c) :: u8)) OR push_bit 24 (ucast (of_nat (of_char d) :: u8))"
    unfolding abcd by (simp add: push_bit_or push_bit_push_bit or.assoc)
  have "unat (le_word ?bs :: i32) < 2 ^ 31"
    using val(2) w(1) by (simp add: unat_le_word)
  then have "(scast (le_word ?bs :: i32) :: u64) = ucast (le_word ?bs :: i32)"
    by (rule scast_nonneg)
  also have "\<dots> = le_word ?bs"
    using w(1) by (simp add: word_unat_eq_iff unat_ucast_32_64 unat_le_word)
  finally have wide: "(scast (le_word ?bs :: i32) :: u64) = le_word ?bs" .
  have "v ! (0 + h * 4) = a" "v ! (1 + h * 4) = b" "v ! (2 + h * 4) = c" "v ! (3 + h * 4) = d"
    by (simp_all only: nth abcd) simp_all
  then show "Hash v h = Inr (hex_point v h)"
    using assms unfolding Hash_def Let_def byte point wide [symmetric] pack by simp
qed

section \<open>What \<^verbatim>\<open>Add\<close> puts on the ring\<close>

lemma ring_value_hex [simp]:
  "set (ring_value lexcast item i) \<subseteq> set HEX" "length (ring_value lexcast item i) = 32"
  by (simp_all add: ring_value_def set_bytesToHexString)

lemma add_round_ok:
  assumes "length (md_buffer raw) = 64"
    and "length (item_ToString lexcast item @ lexcast (int i)) + 64 \<le> 2 ^ 32"
  shows "add_round lexcast raw item p i circle =
    Inr (fold (\<lambda>k. om_put k p) (map (hex_point (ring_value lexcast item i)) [0..<4]) circle)"
proof -
  let ?v = "ring_value lexcast item i"
  obtain m where "andThen (MD5_string raw (item_ToString lexcast item @ lexcast (int i))) toString =
      Inr (?v, m)"
    using MD5_string_toString [OF assms] unfolding ring_value_def by blast
  then have "add_round lexcast raw item p i circle = foldRes (add_point p ?v) [0..<4] circle"
    unfolding add_round_def andThen_assoc [symmetric] by simp
  also have "\<dots> = Inr (fold (\<lambda>h. om_put (hex_point ?v h) p) [0..<4] circle)"
    by (rule foldRes_total) (simp add: add_point_def Hash_hex_point)
  finally show ?thesis by (simp add: fold_map comp_def)
qed

lemma fold_concat_map: "fold f (concat (map g xs)) s = fold (\<lambda>x. fold f (g x)) xs s"
  by (induction xs arbitrary: s) simp_all

lemma Cons_Add_points:
  assumes "cons_addable lexcast raw d st p"
  shows "Cons_Add lexcast raw st d p = Inr (d\<lparr>mCircle := fold (\<lambda>k. om_put k p)
    (ring_points lexcast (st p) (ring_rounds (mReplications d) (si_weight (st p)))) (mCircle d)\<rparr>)"
proof -
  let ?n = "ring_rounds (mReplications d) (si_weight (st p))"
  have "foldRes (add_round lexcast raw (st p) p) [0..<?n] (mCircle d) =
    Inr (fold (\<lambda>i. fold (\<lambda>k. om_put k p)
      (map (hex_point (ring_value lexcast (st p) i)) [0..<4])) [0..<?n] (mCircle d))"
    using assms by (intro foldRes_total add_round_ok) (auto simp: cons_addable_def)
  then show ?thesis by (simp add: Cons_Add_def ring_points_def fold_concat_map)
qed

lemma ring_points_range:
  assumes "k \<in> set (ring_points lexcast item n)"
  shows "0x30303030 \<le> k \<and> k \<le> 0x66666666"
  using assms Hash_hex_point(2,3) [OF ring_value_hex]
  by (auto simp: ring_points_def word_le_nat_alt)

lemma length_ring_points [simp]: "length (ring_points lexcast item n) = 4 * n"
  by (simp add: ring_points_def length_concat comp_def sum_list_triv)

lemma ring_points_nonempty: "0 < n \<Longrightarrow> ring_points lexcast item n \<noteq> []"
  using length_ring_points [of lexcast item n] by (metis length_0_conv mult_is_0 neq0_conv zero_neq_numeral)

section \<open>The contract\<close>

lemma cons_servers_find:
  "cons_invar d \<Longrightarrow> p \<in> cons_servers d \<longleftrightarrow> (\<exists>k. om_find (mCircle d) k = Some p)"
  by (auto simp: cons_servers_def cons_invar_def om_find_Some image_iff) force

text \<open>\<^verbatim>\<open>Get\<close> is the owner of the hash on the ring.\<close>

lemma Cons_Get_owner:
  assumes "mCircle d \<noteq> []"
  shows "Cons_Get b st d h = (case om.owner (mCircle d) h of
    None \<Rightarrow> Inl BadIterator | Some (k, p) \<Rightarrow> Inr (d, Some p))"
  using assms by (simp add: Cons_Get_def om.owner_def split: option.splits)

lemma Cons_Get_Some:
  assumes "cons_invar d" "mCircle d \<noteq> []"
  obtains k p where "om.owner (mCircle d) h = Some (k, p)" "Cons_Get b st d h = Inr (d, Some p)"
proof -
  have "\<exists>i. om_find (mCircle d) i \<noteq> None"
    using assms(2) by (cases "mCircle d") (auto simp: om_find_None)
  then have "om.owner (mCircle d) h \<noteq> None"
    using assms(1) by (simp add: cons_invar_def om.owner_None)
  then obtain k p where "om.owner (mCircle d) h = Some (k, p)" by auto
  with that assms(2) show thesis by (simp add: Cons_Get_owner)
qed

lemma Cons_Get_result:
  assumes "cons_invar d" "Cons_Get b st d h = Inr (d', Some p)"
  shows "d' = d" "mCircle d \<noteq> []" "\<exists>k. om.owner (mCircle d) h = Some (k, p)"
proof -
  show ne: "mCircle d \<noteq> []"
    using assms(2) by (auto simp: Cons_Get_def assert_then_eq_Inr)
  obtain k q where "om.owner (mCircle d) h = Some (k, q)" "Cons_Get b st d h = Inr (d, Some q)"
    by (rule Cons_Get_Some [OF assms(1) ne])
  with assms(2) show "d' = d" "\<exists>k. om.owner (mCircle d) h = Some (k, p)" by auto
qed

lemma cons_addable_cong: "mReplications d' = mReplications d \<Longrightarrow>
    cons_addable lexcast raw d' = cons_addable lexcast raw d"
  by (intro ext) (simp add: cons_addable_def)

interpretation cons: clearing_algorithm "Cons_Add lexcast raw" Cons_Remove Cons_Get Cons_Clear
  cons_servers cons_invar "cons_addable lexcast raw" for lexcast raw
proof
  fix d st p b h
  assume inv: "cons_invar d"
  note sorted = inv [unfolded cons_invar_def]
  show "\<exists>d'. Cons_Add lexcast raw st d p = Inr d' \<and> cons_invar d' \<and> p \<in> cons_servers d' \<and>
      cons_servers d' \<subseteq> insert p (cons_servers d) \<and>
      cons_addable lexcast raw d' = cons_addable lexcast raw d"
    if add: "cons_addable lexcast raw d st p"
  proof -
    let ?ks = "ring_points lexcast (st p) (ring_rounds (mReplications d) (si_weight (st p)))"
    let ?d = "d\<lparr>mCircle := fold (\<lambda>k. om_put k p) ?ks (mCircle d)\<rparr>"
    have inv': "cons_invar ?d" by (simp add: cons_invar_def om.invar_fold_put sorted)
    have find: "om_find (mCircle ?d) j = (if j \<in> set ?ks then Some p else om_find (mCircle d) j)" for j
      by (simp add: om.find_fold_put sorted)
    have "?ks \<noteq> []" using add by (intro ring_points_nonempty) (simp add: cons_addable_def)
    then have "p \<in> cons_servers ?d" unfolding cons_servers_find [OF inv'] find
      by (meson last_in_set)
    moreover have "cons_servers ?d \<subseteq> insert p (cons_servers d)"
      unfolding subset_iff insert_iff cons_servers_find [OF inv'] cons_servers_find [OF inv] find
      by (auto split: if_splits)
    ultimately show ?thesis
      using inv' by (simp add: Cons_Add_points [OF add] cong: cons_addable_cong)
  qed
  have inv': "cons_invar (Cons_Remove d p)"
    by (simp add: Cons_Remove_def cons_invar_def om.invar_erase sorted)
  have "q \<in> cons_servers (Cons_Remove d p) \<longleftrightarrow> q \<in> cons_servers d - {p}" for q
    unfolding cons_servers_find [OF inv'] Diff_iff cons_servers_find [OF inv]
    by (auto simp: Cons_Remove_def om.find_erase [OF sorted] split: if_splits) (metis option.inject)
  then have "cons_servers (Cons_Remove d p) = cons_servers d - {p}" by (intro set_eqI)
  moreover have "cons_addable lexcast raw (Cons_Remove d p) = cons_addable lexcast raw d"
    by (rule cons_addable_cong) (simp add: Cons_Remove_def)
  ultimately show "cons_invar (Cons_Remove d p) \<and> cons_servers (Cons_Remove d p) = cons_servers d - {p} \<and>
      cons_addable lexcast raw (Cons_Remove d p) = cons_addable lexcast raw d"
    using inv' by blast
  show "\<exists>d' p. Cons_Get b st d h = Inr (d', Some p) \<and> p \<in> cons_servers d \<and> cons_invar d' \<and>
      cons_servers d' = cons_servers d \<and> cons_addable lexcast raw d' = cons_addable lexcast raw d \<and>
      Cons_Get b st d' h = Inr (d', Some p)"
    if ne: "cons_servers d \<noteq> {}"
  proof -
    have "mCircle d \<noteq> []" using ne by (auto simp: cons_servers_def)
    then obtain k p where kp: "om.owner (mCircle d) h = Some (k, p)" "Cons_Get b st d h = Inr (d, Some p)"
      by (rule Cons_Get_Some [OF inv])
    then have "p \<in> cons_servers d"
      using om.owner_Some [OF sorted] cons_servers_find [OF inv] by blast
    with kp(2) inv show ?thesis by blast
  qed
  show "Cons_Get b st d h = (if NDEBUG b then Inr (d, None) else Inl AssertionFailed)"
    if "cons_servers d = {}"
    using that by (simp add: cons_servers_def Cons_Get_def assert_then_def)
  show "cons_invar (Cons_Clear d) \<and> cons_servers (Cons_Clear d) \<subseteq> cons_servers d"
    and "cons_servers (Cons_Clear d) = {}"
    by (simp_all add: Cons_Clear_def cons_servers_def cons_invar_def)
qed

text \<open>Whatever \<^verbatim>\<open>Add\<close> returns, it has only put points of the new server on the ring.\<close>

lemma add_round_sound:
  assumes "add_round lexcast raw item p i m = Inr m'" "om_sorted m" "snd ` set m \<subseteq> insert p A"
  shows "om_sorted m' \<and> snd ` set m' \<subseteq> insert p A"
proof -
  have put: "snd ` set (om_put k p m) \<subseteq> insert p (snd ` set m)" for k and m :: "(u64, ptr) omap"
    by (induction k p m rule: om_put.induct) auto
  obtain v where "foldRes (add_point p v) [0..<4] m = Inr m'"
    using assms(1) by (auto simp: add_round_def res_simps)
  then show ?thesis
  proof (rule foldRes_invariant)
    fix h m1 m2
    assume "om_sorted m1 \<and> snd ` set m1 \<subseteq> insert p A" "add_point p v h m1 = Inr m2"
    then show "om_sorted m2 \<and> snd ` set m2 \<subseteq> insert p A"
      using put [of _ m1] by (auto simp: add_point_def res_simps om_sorted_put)
  qed (use assms in simp)
qed

lemma Cons_Add_sound:
  assumes "Cons_Add lexcast raw st d p = Inr d'" "cons_invar d"
  shows "cons_invar d' \<and> cons_servers d' \<subseteq> insert p (cons_servers d)"
proof -
  obtain m where m: "foldRes (add_round lexcast raw (st p) p)
      [0..<ring_rounds (mReplications d) (si_weight (st p))] (mCircle d) = Inr m"
    "d' = d\<lparr>mCircle := m\<rparr>"
    using assms(1) by (auto simp: Cons_Add_def res_simps)
  have "om_sorted m \<and> snd ` set m \<subseteq> insert p (snd ` set (mCircle d))"
    by (rule foldRes_invariant [OF m(1)])
      (use assms(2) add_round_sound in \<open>auto simp: cons_invar_def\<close>)
  with m(2) show ?thesis by (simp add: cons_invar_def cons_servers_def)
qed

section \<open>Properties\<close>

text \<open>The hypotheses hold for every usual server: any host name below 2 GB, any port.\<close>

lemma decimal_length:
  assumes "\<bar>n\<bar> < 10 ^ 10"
  shows "length (decimal n) \<le> 11"
proof -
  have "length (decimal_nat (nat \<bar>n\<bar>)) \<le> Suc 9"
    using assms by (intro decimal_nat_length_less) (simp add: nat_less_iff)
  then show ?thesis by (cases "n < 0") (auto simp: decimal_def)
qed

lemma cons_addable_usual:
  assumes "decimal_cast lexcast" "length (md_buffer raw) = 64"
    and "0 < ring_rounds (mReplications d) (si_weight (st p))"
    and "length (si_host (st p)) \<le> 2 ^ 31" "\<bar>si_port (st p)\<bar> < 2 ^ 31"
  shows "cons_addable lexcast raw d st p"
proof -
  let ?n = "ring_rounds (mReplications d) (si_weight (st p))"
  have "?n < 2 ^ 31"
    using sint_less [of "totalReplications (mReplications d) (si_weight (st p))"]
    by (simp add: ring_rounds_def)
  then have "length (lexcast (int i)) \<le> 11" if "i < ?n" for i
    using that assms(1) by (simp add: decimal_cast_def decimal_length)
  moreover have "length (lexcast (si_port (st p))) \<le> 11"
    using assms(1,5) by (simp add: decimal_cast_def decimal_length)
  ultimately have "length (item_ToString lexcast (st p) @ lexcast (int i)) + 64 \<le> 2 ^ 32"
    if "i < ?n" for i
    using that assms(4) by (fastforce simp: item_ToString_def ToString_def)
  with assms(2,3) show ?thesis by (simp add: cons_addable_def)
qed

text \<open>
  C26 On a ring with points, \<^verbatim>\<open>Get\<close> returns, in either build and without changing the state,
  the server of the next point clockwise: the least point not below the hash, or the least
  point of all when the hash is above every point.
\<close>

theorem cons_get_clockwise:
  assumes "cons_invar d" "mCircle d \<noteq> []"
  shows "\<exists>k p. Cons_Get b st d h = Inr (d, Some p) \<and> (k, p) \<in> set (mCircle d) \<and>
    (if h \<le> k then \<forall>i \<in> fst ` set (mCircle d). h \<le> i \<longrightarrow> k \<le> i
     else \<forall>i \<in> fst ` set (mCircle d). i < h \<and> k \<le> i)"
proof -
  obtain k p where kp: "om.owner (mCircle d) h = Some (k, p)" "Cons_Get b st d h = Inr (d, Some p)"
    by (rule Cons_Get_Some [OF assms])
  have sorted: "om_sorted (mCircle d)" using assms(1) by (simp add: cons_invar_def)
  have dom: "i \<in> fst ` set (mCircle d) \<longleftrightarrow> om_find (mCircle d) i \<noteq> None" for i
    by (simp add: om_find_None)
  have "om_find (mCircle d) k = Some p" "om.next_point (mCircle d) h k"
    using kp(1) om.owner_Some [OF sorted] by auto
  then have "(k, p) \<in> set (mCircle d)"
    "if h \<le> k then \<forall>i \<in> fst ` set (mCircle d). h \<le> i \<longrightarrow> k \<le> i
     else \<forall>i \<in> fst ` set (mCircle d). i < h \<and> k \<le> i"
    unfolding om_find_Some [OF sorted] om.next_point_def Ball_def dom by auto
  with kp(2) show ?thesis by blast
qed

theorem cons_get_clockwise_witness:
  "Cons_Get \<lparr>NDEBUG = False, HOST_LITTLE = True, ENDIAN_LITTLE = False\<rparr> (\<lambda>_. ServerItem ''a'' 1 1)
     \<lparr>mCircle = [(5, 1), (9, 2)], mReplications = 16\<rparr> 6 =
   Inr (\<lparr>mCircle = [(5, 1), (9, 2)], mReplications = 16\<rparr>, Some 2)"
  using cons_get_clockwise [of "\<lparr>mCircle = [(5, 1), (9, 2)], mReplications = 16\<rparr>"
      "\<lparr>NDEBUG = False, HOST_LITTLE = True, ENDIAN_LITTLE = False\<rparr>" "\<lambda>_. ServerItem ''a'' 1 1" 6]
  by (auto simp: cons_invar_def split: if_splits)

text \<open>
  C27 Adding a server moves keys only to it: every hash is answered afterwards by the new
  server or by the server that answered it before.
\<close>

theorem cons_add_moves_to_new:
  assumes "cons_invar d" "cons_addable lexcast raw d st p"
    and "Cons_Get b st d h = Inr (d, Some q)"
  shows "\<exists>d' r. Cons_Add lexcast raw st d p = Inr d' \<and> Cons_Get b st d' h = Inr (d', Some r) \<and>
    (r = p \<or> r = q)"
proof -
  let ?ks = "ring_points lexcast (st p) (ring_rounds (mReplications d) (si_weight (st p)))"
  let ?d = "d\<lparr>mCircle := fold (\<lambda>k. om_put k p) ?ks (mCircle d)\<rparr>"
  have sorted: "om_sorted (mCircle d)" using assms(1) by (simp add: cons_invar_def)
  have inv: "cons_invar ?d" by (simp add: cons_invar_def om.invar_fold_put sorted)
  obtain j where j: "om.owner (mCircle d) h = Some (j, q)" "mCircle d \<noteq> []"
    using Cons_Get_result [OF assms(1,3)] by blast
  obtain i v where "om_find (mCircle d) i = Some v"
    using j(1) om.owner_Some [OF sorted] by blast
  then have "om_find (mCircle ?d) i \<noteq> None" by (simp add: om.find_fold_put sorted)
  then have "mCircle ?d \<noteq> []" by (metis om_find.simps(1))
  then obtain k r where kr: "om.owner (mCircle ?d) h = Some (k, r)" "Cons_Get b st ?d h = Inr (?d, Some r)"
    by (rule Cons_Get_Some [OF inv])
  have "r = p \<or> om.owner (mCircle d) h = Some (k, r)"
    using kr(1) by (intro om.owner_fold_put [OF sorted]) simp
  with j(1) have "r = p \<or> r = q" by auto
  with kr(2) show ?thesis by (auto simp: Cons_Add_points [OF assms(2)])
qed

lemma cons_usual_example:
  "cons_addable decimal md5_blank \<lparr>mCircle = [(5, 1)], mReplications = 16\<rparr>
     (\<lambda>_. ServerItem ''10.0.0.1'' 11211 1) 2"
  by (rule cons_addable_usual)
    (simp_all add: decimal_cast_def ServerItem_def ring_rounds_def totalReplications_def)

theorem cons_add_moves_to_new_witness:
  "\<exists>d' r. Cons_Add decimal md5_blank (\<lambda>_. ServerItem ''10.0.0.1'' 11211 1)
      \<lparr>mCircle = [(5, 1)], mReplications = 16\<rparr> 2 = Inr d' \<and>
    Cons_Get \<lparr>NDEBUG = True, HOST_LITTLE = True, ENDIAN_LITTLE = False\<rparr>
      (\<lambda>_. ServerItem ''10.0.0.1'' 11211 1) d' 77 = Inr (d', Some r) \<and> (r = 2 \<or> r = 1)"
  by (rule cons_add_moves_to_new [OF _ cons_usual_example])
    (simp_all add: cons_invar_def Cons_Get_def)

text \<open>
  C28 Removing a server moves only its own keys: a hash answered by another server is
  answered by the same server afterwards.
\<close>

theorem cons_remove_keeps_others:
  assumes "cons_invar d" "Cons_Get b st d h = Inr (d, Some q)" "q \<noteq> p"
  shows "Cons_Get b st (Cons_Remove d p) h = Inr (Cons_Remove d p, Some q)"
proof -
  have sorted: "om_sorted (mCircle d)" using assms(1) by (simp add: cons_invar_def)
  obtain j where "om.owner (mCircle d) h = Some (j, q)"
    using Cons_Get_result [OF assms(1,2)] by blast
  then have own: "om.owner (mCircle (Cons_Remove d p)) h = Some (j, q)"
    using assms(3) by (simp add: Cons_Remove_def om.owner_erase [OF sorted])
  then have "mCircle (Cons_Remove d p) \<noteq> []" by (auto simp: om.owner_def)
  with own show ?thesis by (simp add: Cons_Get_owner)
qed

theorem cons_remove_keeps_others_witness:
  "Cons_Get \<lparr>NDEBUG = False, HOST_LITTLE = True, ENDIAN_LITTLE = False\<rparr> (\<lambda>_. ServerItem ''a'' 1 1)
     (Cons_Remove \<lparr>mCircle = [(5, 1), (9, 2)], mReplications = 16\<rparr> 1) 7 =
   Inr (Cons_Remove \<lparr>mCircle = [(5, 1), (9, 2)], mReplications = 16\<rparr> 1, Some 2)"
  by (rule cons_remove_keeps_others) (simp_all add: cons_invar_def Cons_Get_def)

lemma Cons_Adds_range:
  assumes "foldRes (\<lambda>p d. Cons_Add lexcast raw st d p) ps d = Inr d'"
    and "\<And>p. p \<in> set ps \<Longrightarrow> cons_addable lexcast raw d st p"
    and "cons_invar d" "\<forall>k \<in> fst ` set (mCircle d). 0x30303030 \<le> k \<and> k \<le> 0x66666666"
  shows "cons_invar d' \<and> (\<forall>k \<in> fst ` set (mCircle d'). 0x30303030 \<le> k \<and> k \<le> 0x66666666)"
  using assms
proof (induction ps arbitrary: d)
  case Nil
  then show ?case by simp
next
  case (Cons p ps)
  let ?ks = "ring_points lexcast (st p) (ring_rounds (mReplications d) (si_weight (st p)))"
  let ?d = "d\<lparr>mCircle := fold (\<lambda>k. om_put k p) ?ks (mCircle d)\<rparr>"
  have points: "fst ` set (fold (\<lambda>k. om_put k p) ks m) = set ks \<union> fst ` set m"
    for ks :: "u64 list" and m :: "(u64, ptr) omap"
    by (induction ks arbitrary: m) auto
  have "foldRes (\<lambda>p d. Cons_Add lexcast raw st d p) ps ?d = Inr d'"
    using Cons.prems(1) by (simp add: Cons_Add_points [OF Cons.prems(2)])
  moreover have "cons_addable lexcast raw ?d st q" if "q \<in> set ps" for q
    using Cons.prems(2) [of q] that by (simp add: cons_addable_def)
  moreover have "cons_invar ?d"
    using Cons.prems(3) by (simp add: cons_invar_def om.invar_fold_put)
  moreover have "\<forall>k \<in> fst ` set (mCircle ?d). 0x30303030 \<le> k \<and> k \<le> 0x66666666"
  proof -
    have "fst ` set (mCircle ?d) = set ?ks \<union> fst ` set (mCircle d)" by (simp add: points)
    with Cons.prems(4) ring_points_range show ?thesis by (metis Un_iff)
  qed
  ultimately show ?case by (rule Cons.IH)
qed

text \<open>
  \<^verbatim>\<open>Hash\<close> packs characters of the hexadecimal digest, so every point lies between
  \<open>0x30303030\<close> and \<open>0x66666666\<close>, and all hashes above that range, which is nearly all of the
  64-bit hashes, are answered by the one server at \<^verbatim>\<open>begin()\<close>, the answer of hash \<open>0\<close>.
\<close>

theorem cons_high_hashes_collapse:
  assumes "foldRes (\<lambda>p d. Cons_Add lexcast raw st d p) ps (ConsistentHashDistri n) = Inr d"
    and "\<forall>p \<in> set ps. cons_addable lexcast raw (ConsistentHashDistri n) st p"
    and "0x66666666 < h"
  shows "Cons_Get b st d h = Cons_Get b st d 0"
proof -
  have "cons_invar d \<and> (\<forall>k \<in> fst ` set (mCircle d). 0x30303030 \<le> k \<and> k \<le> 0x66666666)"
    by (rule Cons_Adds_range [OF assms(1)])
      (use assms(2) in \<open>simp_all add: ConsistentHashDistri_def cons_invar_def\<close>)
  then have inv: "cons_invar d" and r: "\<And>k. k \<in> fst ` set (mCircle d) \<Longrightarrow> 0x30303030 \<le> k \<and> k \<le> 0x66666666"
    by auto
  have low: "om_find (mCircle d) 0 = None"
    using r [of 0] by (auto simp: om_find_None)
  have high: "om_find (mCircle d) h = None"
    unfolding om_find_None using r [of h] assms(3) by (meson leD)
  have up: "om_upper_bound (mCircle d) h = None"
    unfolding om_upper_bound_None using r assms(3) by (meson order_le_less_trans order_less_imp_le)
  have "om_upper_bound (mCircle d) 0 = om_begin (mCircle d)"
  proof (cases "mCircle d")
    case (Cons kp m)
    then show ?thesis using r [of "fst kp"] by (cases kp) (auto simp: word_gt_0)
  qed simp
  with low high up show ?thesis by (auto simp: Cons_Get_def split: option.splits)
qed

lemma cons_usual_empty:
  "cons_addable decimal md5_blank (ConsistentHashDistri 200) (\<lambda>_. ServerItem ''10.0.0.1'' 11211 1) p"
  by (rule cons_addable_usual)
    (simp_all add: decimal_cast_def ServerItem_def ConsistentHashDistri_def ring_rounds_def
      totalReplications_def)

theorem cons_high_hashes_collapse_witness:
  "\<exists>d. foldRes (\<lambda>p d. Cons_Add decimal md5_blank (\<lambda>_. ServerItem ''10.0.0.1'' 11211 1) d p) [1, 2]
      (ConsistentHashDistri 200) = Inr d \<and>
    Cons_Get \<lparr>NDEBUG = False, HOST_LITTLE = True, ENDIAN_LITTLE = False\<rparr>
      (\<lambda>_. ServerItem ''10.0.0.1'' 11211 1) d 0x123456789ABCDEF0 =
    Cons_Get \<lparr>NDEBUG = False, HOST_LITTLE = True, ENDIAN_LITTLE = False\<rparr>
      (\<lambda>_. ServerItem ''10.0.0.1'' 11211 1) d 0"
proof -
  let ?st = "\<lambda>_ :: ptr. ServerItem ''10.0.0.1'' 11211 1"
  have "\<exists>d. foldRes (\<lambda>p d. Cons_Add decimal md5_blank ?st d p) [1, 2] (ConsistentHashDistri 200) = Inr d"
    using cons.add_all [of "ConsistentHashDistri 200" "[1, 2]" decimal md5_blank ?st] cons_usual_empty
    by (auto simp: ConsistentHashDistri_def cons_invar_def cons_servers_def)
  then obtain d where d: "foldRes (\<lambda>p d. Cons_Add decimal md5_blank ?st d p) [1, 2]
      (ConsistentHashDistri 200) = Inr d" ..
  have "Cons_Get b ?st d 0x123456789ABCDEF0 = Cons_Get b ?st d 0" for b
    by (rule cons_high_hashes_collapse [OF d]) (simp_all add: cons_usual_empty)
  with d show ?thesis by blast
qed

lemma ring_rounds_default: "ring_rounds 200 1 = 48"
  by (simp add: ring_rounds_def totalReplications_def)

lemma length_om_put: "length (om_put k v m) \<le> Suc (length m)"
  by (induction k v m rule: om_put.induct) auto

lemma length_fold_om_put: "length (fold (\<lambda>k. om_put k v) ks m) \<le> length ks + length m"
proof (induction ks arbitrary: m)
  case Nil
  show ?case by simp
next
  case (Cons k ks)
  show ?case using Cons [of "om_put k v m"] length_om_put [of k v m] by simp
qed

text \<open>
  C29 A server of weight 1 on a ring of the default 200 replications gets its points from 48
  digests, so at most 192 points: the mask \<open>0x8FFFFFF4\<close> clears bit 3 beside the two low bits.
\<close>

theorem cons_default_ring_size:
  assumes "decimal_cast lexcast" "length (md_buffer raw) = 64"
    and "st p = ServerItem host port 1" "length host \<le> 2 ^ 31" "\<bar>port\<bar> < 2 ^ 31"
  shows "\<exists>d. Cons_Add lexcast raw st (ConsistentHashDistri 200) p = Inr d \<and>
    0 < length (mCircle d) \<and> length (mCircle d) \<le> 192"
proof -
  have n: "ring_rounds (mReplications (ConsistentHashDistri 200)) (si_weight (st p)) = 48"
    by (simp add: assms(3) ServerItem_def ConsistentHashDistri_def ring_rounds_default)
  have add: "cons_addable lexcast raw (ConsistentHashDistri 200) st p"
    using assms n by (intro cons_addable_usual) (simp_all add: ServerItem_def)
  let ?ks = "ring_points lexcast (st p) 48"
  have "\<exists>k. om_find (fold (\<lambda>k. om_put k p) ?ks []) k \<noteq> None"
    using ring_points_nonempty [of 48 lexcast "st p"] last_in_set
    by (fastforce simp: om.find_fold_put)
  then have "fold (\<lambda>k. om_put k p) ?ks [] \<noteq> []" by (metis om_find.simps(1))
  moreover have "length (fold (\<lambda>k. om_put k p) ?ks []) \<le> 192"
    using length_fold_om_put [of p ?ks "[]"] by simp
  ultimately show ?thesis
    using n by (simp add: Cons_Add_points [OF add]) (simp add: ConsistentHashDistri_def)
qed

theorem cons_default_ring_size_witness:
  "\<exists>d. Cons_Add decimal md5_blank (\<lambda>_. ServerItem ''localhost'' 11211 1) (ConsistentHashDistri 200) 3 = Inr d \<and>
    0 < length (mCircle d) \<and> length (mCircle d) \<le> 192"
  by (rule cons_default_ring_size [where host = "''localhost''" and port = 11211])
    (simp_all add: decimal_cast_def)

end
