(* ===== verification/Std_Heap.thy ===== *)
theory Std_Heap
  imports Prelude "HOL-Library.Multiset"
begin

text \<open>
  \<^verbatim>\<open>std::push_heap\<close> and \<^verbatim>\<open>std::pop_heap\<close> on a vector with comparison \<open>lt\<close>, in the form of
  the GNU library: \<open>sift_up\<close> moves a hole towards the root past smaller parents,
  \<open>sift_down\<close> moves a hole to a leaf along the larger children. Both keep the elements;
  an element larger than all others is lifted to the front.
\<close>

function sift_up :: "('a \<Rightarrow> 'a \<Rightarrow> bool) \<Rightarrow> 'a list \<Rightarrow> nat \<Rightarrow> 'a \<Rightarrow> 'a list" where
  "sift_up lt xs hole v =
     (if 0 < hole \<and> lt (xs ! ((hole - 1) div 2)) v
      then sift_up lt (xs[hole := xs ! ((hole - 1) div 2)]) ((hole - 1) div 2) v
      else xs[hole := v])"
  by pat_completeness auto
termination
  by (relation "measure (\<lambda>(lt, xs, hole, v). hole)") auto

declare sift_up.simps [simp del]

text \<open>\<open>second\<close> is the library's \<^verbatim>\<open>secondChild\<close>, equal to the hole at the head of the loop.\<close>

function sift_down :: "('a \<Rightarrow> 'a \<Rightarrow> bool) \<Rightarrow> nat \<Rightarrow> 'a list \<Rightarrow> nat \<Rightarrow> 'a list \<times> nat" where
  "sift_down lt len xs hole =
     (if hole < (len - 1) div 2
      then let right = 2 * (hole + 1);
               child = (if lt (xs ! right) (xs ! (right - 1)) then right - 1 else right)
           in sift_down lt len (xs[hole := xs ! child]) child
      else if even len \<and> 2 \<le> len \<and> hole = (len - 2) div 2
      then (xs[hole := xs ! (2 * (hole + 1) - 1)], 2 * (hole + 1) - 1)
      else (xs, hole))"
  by pat_completeness auto
termination
  by (relation "measure (\<lambda>(lt, len, xs, hole). len - hole)") (auto simp: Let_def)

declare sift_down.simps [simp del]

definition push_heap :: "('a \<Rightarrow> 'a \<Rightarrow> bool) \<Rightarrow> 'a list \<Rightarrow> 'a list" where
  "push_heap lt xs =
     (if xs = [] then xs else sift_up lt xs (length xs - 1) (last xs))"

definition pop_heap :: "('a \<Rightarrow> 'a \<Rightarrow> bool) \<Rightarrow> 'a list \<Rightarrow> 'a list" where
  "pop_heap lt xs =
     (if length xs \<le> 1 then xs
      else let n = length xs - 1;
               v = xs ! n;
               (ys, hole) = sift_down lt n (take n xs) 0
           in sift_up lt ys hole v @ [xs ! 0])"

section \<open>Elements are kept\<close>

lemma mset_move_hole:
  assumes "i < length xs" "j < length xs" "i \<noteq> j"
  shows "mset (xs[i := xs ! j, j := v]) = mset (xs[i := v])"
proof -
  have "mset (xs[i := xs ! j, j := v]) = add_mset v (mset (xs[i := xs ! j]) - {#xs ! j#})"
    using assms by (simp add: mset_update)
  also have "mset (xs[i := xs ! j]) - {#xs ! j#} = mset xs - {#xs ! i#}"
    using assms by (simp add: mset_update)
  finally show ?thesis using assms by (simp add: mset_update)
qed

lemma mset_sift_up: "hole < length xs \<Longrightarrow> mset (sift_up lt xs hole v) = mset (xs[hole := v])"
proof (induction lt xs hole v rule: sift_up.induct)
  case (1 lt xs hole v)
  show ?case
  proof (cases "0 < hole \<and> lt (xs ! ((hole - 1) div 2)) v")
    case True
    let ?p = "(hole - 1) div 2"
    have p: "?p < hole" using True by auto
    have "mset (sift_up lt xs hole v) = mset (sift_up lt (xs[hole := xs ! ?p]) ?p v)"
      using True by (subst sift_up.simps) simp
    also have "\<dots> = mset (xs[hole := xs ! ?p, ?p := v])"
      using "1.IH" [OF True] "1.prems" p by simp
    also have "\<dots> = mset (xs[hole := v])"
      using "1.prems" p by (intro mset_move_hole) auto
    finally show ?thesis .
  next
    case False
    then show ?thesis by (subst sift_up.simps) auto
  qed
qed

lemma length_sift_up: "length (sift_up lt xs hole v) = length xs"
  by (induction lt xs hole v rule: sift_up.induct) (subst sift_up.simps, simp)

lemma sift_down_hole:
  assumes "hole < len" "len \<le> length xs" "sift_down lt len xs hole = (ys, h)"
  shows "h < len \<and> length ys = length xs \<and> mset (ys[h := v]) = mset (xs[hole := v])"
  using assms
proof (induction lt len xs hole arbitrary: ys h rule: sift_down.induct)
  case (1 lt len xs hole)
  let ?right = "2 * (hole + 1)"
  let ?child = "if lt (xs ! ?right) (xs ! (?right - 1)) then ?right - 1 else ?right"
  consider (inner) "hole < (len - 1) div 2"
    | (edge) "\<not> hole < (len - 1) div 2" "even len \<and> 2 \<le> len \<and> hole = (len - 2) div 2"
    | (stop) "\<not> hole < (len - 1) div 2" "\<not> (even len \<and> 2 \<le> len \<and> hole = (len - 2) div 2)"
    by blast
  then show ?case
  proof cases
    case inner
    have c: "?child < len" "hole < ?child" using inner by auto
    have "sift_down lt len (xs[hole := xs ! ?child]) ?child = (ys, h)"
      using "1.prems"(3) inner unfolding sift_down.simps [of lt len xs hole] Let_def
      by (simp only: if_True)
    then have "h < len \<and> length ys = length xs \<and> mset (ys[h := v]) = mset (xs[hole := xs ! ?child, ?child := v])"
      using "1.IH" [OF inner refl refl] c "1.prems" by simp
    moreover have "mset (xs[hole := xs ! ?child, ?child := v]) = mset (xs[hole := v])"
      using c "1.prems" by (intro mset_move_hole) auto
    ultimately show ?thesis by simp
  next
    case edge
    let ?c = "2 * (hole + 1) - 1"
    have c: "?c < len" "hole < ?c" using edge by auto
    have "ys = xs[hole := xs ! ?c]" "h = ?c"
      using "1.prems"(3) edge by (subst (asm) sift_down.simps, simp)+
    then show ?thesis using c "1.prems" mset_move_hole [of hole xs ?c v] by simp
  next
    case stop
    then have "ys = xs" "h = hole" using "1.prems"(3) by (subst (asm) sift_down.simps, simp)+
    then show ?thesis using "1.prems" by simp
  qed
qed

lemma mset_push_heap: "mset (push_heap lt xs) = mset xs"
  by (simp add: push_heap_def mset_sift_up last_conv_nth)

lemma length_push_heap [simp]: "length (push_heap lt xs) = length xs"
  by (simp add: push_heap_def length_sift_up)

lemma pop_heap_snoc:
  assumes "2 \<le> length xs"
  shows "\<exists>ys. pop_heap lt xs = ys @ [xs ! 0] \<and> mset ys = mset (tl xs)"
proof -
  define n where "n = length xs - 1"
  obtain ys h where sd: "sift_down lt n (take n xs) 0 = (ys, h)"
    by (cases "sift_down lt n (take n xs) 0")
  have n: "0 < n" "n < length xs" using assms by (auto simp: n_def)
  have h: "h < n" "length ys = n" "mset (ys[h := xs ! n]) = mset ((take n xs)[0 := xs ! n])"
    using sift_down_hole [OF n(1) _ sd, of "xs ! n"] n by auto
  have "mset (sift_up lt ys h (xs ! n)) = mset ((take n xs)[0 := xs ! n])"
    using h by (simp add: mset_sift_up)
  also have "(take n xs)[0 := xs ! n] = xs ! n # tl (take n xs)"
    using n by (cases xs) (auto simp: take_Cons split: nat.splits)
  also have "mset \<dots> = mset (tl xs)"
  proof -
    obtain x zs where xs: "xs = x # zs" "zs \<noteq> []" using assms by (cases xs) force+
    then have "tl (take n xs) = butlast zs" "xs ! n = last zs"
      by (auto simp: n_def take_Cons' butlast_conv_take last_conv_nth)
    then have "tl xs = tl (take n xs) @ [xs ! n]" using xs by simp
    then show ?thesis by simp
  qed
  finally show ?thesis
    using assms sd by (simp add: pop_heap_def n_def Let_def)
qed

lemma mset_pop_heap: "mset (pop_heap lt xs) = mset xs"
proof (cases "2 \<le> length xs")
  case True
  then obtain ys where "pop_heap lt xs = ys @ [xs ! 0]" "mset ys = mset (tl xs)"
    using pop_heap_snoc by blast
  moreover have "xs = xs ! 0 # tl xs" using True by (cases xs) auto
  ultimately show ?thesis by (metis add_mset_add_single mset.simps(2) mset_append mset_single_iff_right)
next
  case False
  then show ?thesis by (simp add: pop_heap_def)
qed

section \<open>A largest element goes to the front\<close>

lemma sift_up_largest:
  assumes "hole < length xs" "\<And>i. i < hole \<Longrightarrow> lt (xs ! i) v"
  shows "sift_up lt xs hole v ! 0 = v"
  using assms
proof (induction lt xs hole v rule: sift_up.induct)
  case (1 lt xs hole v)
  show ?case
  proof (cases "0 < hole")
    case True
    let ?p = "(hole - 1) div 2"
    have p: "?p < hole" "lt (xs ! ?p) v" using True "1.prems" by auto
    have "sift_up lt (xs[hole := xs ! ?p]) ?p v ! 0 = v"
      using "1.IH" True p "1.prems" by auto
    then show ?thesis using True p by (subst sift_up.simps) simp
  next
    case False
    then show ?thesis using "1.prems" by (subst sift_up.simps) simp
  qed
qed

lemma push_heap_largest:
  assumes "\<And>x. x \<in> set ys \<Longrightarrow> lt x v"
  shows "push_heap lt (ys @ [v]) ! 0 = v"
  unfolding push_heap_def
  using sift_up_largest [of "length ys" "ys @ [v]" lt v] assms
  by (simp add: nth_append)

end
