(* ===== verification/Memo_Distri.thy ===== *)
theory Memo_Distri
  imports Distribute Std_Heap
begin

text \<open>
  \<^verbatim>\<open>serverManager/MemoDistri.h\<close> and \<^verbatim>\<open>MemoDistri.cpp\<close>: a distribution that remembers the
  server of every hash it has seen and keeps the servers in a heap ordered by keys per
  weight. The comparison multiplies in 64-bit arithmetic as the code does.
\<close>

record balance_info =
  bi_server :: ptr
  bi_count :: u64

record memo_distri =
  mKeyServerMapping :: "u64 \<rightharpoonup> ptr"
  mBalanceInfos :: "balance_info list"

definition ServerBalanceInfo :: "ptr \<Rightarrow> balance_info" where
  "ServerBalanceInfo p = \<lparr>bi_server = p, bi_count = 0\<rparr>"

definition balance_less :: "store \<Rightarrow> balance_info \<Rightarrow> balance_info \<Rightarrow> bool" where
  "balance_less st lhs rhs \<longleftrightarrow>
     bi_count lhs * scast (si_weight (st (bi_server rhs)))
       < bi_count rhs * scast (si_weight (st (bi_server lhs)))"

definition Memo_Add :: "store \<Rightarrow> memo_distri \<Rightarrow> ptr \<Rightarrow> memo_distri res" where
  "Memo_Add st d p =
     Inr (d\<lparr>mBalanceInfos :=
       push_heap (balance_less st) (mBalanceInfos d @ [ServerBalanceInfo p])\<rparr>)"

text \<open>\<^verbatim>\<open>std::find_if\<close> and \<^verbatim>\<open>erase\<close>: the first entry of the server goes.\<close>

fun erase_server :: "ptr \<Rightarrow> balance_info list \<Rightarrow> balance_info list" where
  "erase_server p [] = []"
| "erase_server p (x # xs) = (if bi_server x = p then xs else x # erase_server p xs)"

definition Memo_Remove :: "memo_distri \<Rightarrow> ptr \<Rightarrow> memo_distri" where
  "Memo_Remove d p =
     d\<lparr>mBalanceInfos := erase_server p (mBalanceInfos d),
       mKeyServerMapping := (\<lambda>k. if mKeyServerMapping d k = Some p then None
                                 else mKeyServerMapping d k)\<rparr>"

text \<open>
  The new-key branch: \<open>result\<close> is a reference to the front slot, so the server stored and
  returned is the one in front after \<^verbatim>\<open>pop_heap\<close> and \<^verbatim>\<open>push_heap\<close>.
\<close>

definition Memo_Get ::
    "build \<Rightarrow> store \<Rightarrow> memo_distri \<Rightarrow> u64 \<Rightarrow> (memo_distri \<times> ptr option) res" where
  "Memo_Get b st d h =
     assert_then b (mBalanceInfos d \<noteq> [])
       (if mBalanceInfos d = [] then Inr (d, None)
        else case mKeyServerMapping d h of
          Some p \<Rightarrow> Inr (d, Some p)
        | None \<Rightarrow>
            (let front = mBalanceInfos d ! 0;
                 infos = (mBalanceInfos d)[0 := front\<lparr>bi_count := bi_count front + 1\<rparr>];
                 infos = pop_heap (balance_less st) infos;
                 infos = push_heap (balance_less st) infos;
                 result = bi_server (infos ! 0)
             in Inr (d\<lparr>mBalanceInfos := infos,
                       mKeyServerMapping := (mKeyServerMapping d)(h \<mapsto> result)\<rparr>,
                     Some result)))"

definition Memo_Clear :: "memo_distri \<Rightarrow> memo_distri" where
  "Memo_Clear d = d\<lparr>mKeyServerMapping := Map.empty, mBalanceInfos := []\<rparr>"

definition memo_empty :: memo_distri where
  "memo_empty = \<lparr>mKeyServerMapping = Map.empty, mBalanceInfos = []\<rparr>"

definition memo_servers :: "memo_distri \<Rightarrow> ptr set" where
  "memo_servers d = bi_server ` set (mBalanceInfos d)"

definition memo_invar :: "memo_distri \<Rightarrow> bool" where
  "memo_invar d \<longleftrightarrow> distinct (map bi_server (mBalanceInfos d)) \<and>
     ran (mKeyServerMapping d) \<subseteq> memo_servers d"

text \<open>Looking up a list of hashes, collecting the answers.\<close>

fun memo_gets ::
    "build \<Rightarrow> store \<Rightarrow> memo_distri \<Rightarrow> u64 list \<Rightarrow> (memo_distri \<times> ptr option list) res" where
  "memo_gets b st d [] = Inr (d, [])"
| "memo_gets b st d (h # hs) =
     andThen (Memo_Get b st d h) (\<lambda>(d, r).
     andThen (memo_gets b st d hs) (\<lambda>(d, rs). Inr (d, r # rs)))"

section \<open>The contract\<close>

lemma mset_bi_server: "mset xs = mset ys \<Longrightarrow> mset (map bi_server xs) = mset (map bi_server ys)"
  by (metis mset_map)

lemma erase_server_servers:
  "distinct (map bi_server xs) \<Longrightarrow>
     distinct (map bi_server (erase_server p xs)) \<and>
     bi_server ` set (erase_server p xs) = bi_server ` set xs - {p}"
proof (induction p xs rule: erase_server.induct)
  case (1 p)
  then show ?case by simp
next
  case (2 p x xs)
  show ?case
  proof (cases "bi_server x = p")
    case True
    then show ?thesis using 2 by auto
  next
    case False
    then have "bi_server ` set (erase_server p xs) = bi_server ` set xs - {p}"
      "distinct (map bi_server (erase_server p xs))" using 2 by auto
    with False 2 show ?thesis by auto
  qed
qed

definition bump_front :: "balance_info list \<Rightarrow> balance_info list" where
  "bump_front xs = xs[0 := (xs ! 0)\<lparr>bi_count := bi_count (xs ! 0) + 1\<rparr>]"

definition rebalance :: "store \<Rightarrow> balance_info list \<Rightarrow> balance_info list" where
  "rebalance st xs = push_heap (balance_less st) (pop_heap (balance_less st) (bump_front xs))"

lemma servers_bump_front: "xs \<noteq> [] \<Longrightarrow> map bi_server (bump_front xs) = map bi_server xs"
  by (cases xs) (simp_all add: bump_front_def)

lemma mset_rebalance: "mset (rebalance st xs) = mset (bump_front xs)"
  by (simp add: rebalance_def mset_push_heap mset_pop_heap)

lemma servers_rebalance: "xs \<noteq> [] \<Longrightarrow> mset (map bi_server (rebalance st xs)) = mset (map bi_server xs)"
  by (metis mset_rebalance mset_bi_server servers_bump_front)

lemma rebalance_nonempty: "xs \<noteq> [] \<Longrightarrow> rebalance st xs \<noteq> []"
  by (metis servers_rebalance mset_zero_iff list.map_disc_iff)

lemma Memo_Get_known:
  "mBalanceInfos d \<noteq> [] \<Longrightarrow> mKeyServerMapping d h = Some p \<Longrightarrow> Memo_Get b st d h = Inr (d, Some p)"
  by (simp add: Memo_Get_def)

lemma Memo_Get_new:
  "mBalanceInfos d \<noteq> [] \<Longrightarrow> mKeyServerMapping d h = None \<Longrightarrow>
     Memo_Get b st d h =
       (let infos = rebalance st (mBalanceInfos d); result = bi_server (infos ! 0)
        in Inr (d\<lparr>mBalanceInfos := infos,
                  mKeyServerMapping := (mKeyServerMapping d)(h \<mapsto> result)\<rparr>, Some result))"
  by (simp add: Memo_Get_def rebalance_def bump_front_def Let_def)

lemma servers_of_mset:
  "mset (map bi_server xs) = mset (map bi_server ys) \<Longrightarrow>
     bi_server ` set xs = bi_server ` set ys \<and>
     distinct (map bi_server xs) = distinct (map bi_server ys)"
  by (metis mset_eq_setD mset_eq_imp_distinct_iff set_map)

lemma Memo_Get_contract:
  assumes inv: "memo_invar d" and ne: "memo_servers d \<noteq> {}"
  shows "\<exists>d' p. Memo_Get b st d h = Inr (d', Some p) \<and> p \<in> memo_servers d \<and> memo_invar d' \<and>
    memo_servers d' = memo_servers d \<and> Memo_Get b st d' h = Inr (d', Some p)"
proof -
  have xs: "mBalanceInfos d \<noteq> []" using ne by (auto simp: memo_servers_def)
  show ?thesis
  proof (cases "mKeyServerMapping d h")
    case (Some p)
    then have "p \<in> memo_servers d" using inv by (auto simp: memo_invar_def ran_def)
    with inv Some xs show ?thesis by (auto simp: Memo_Get_known)
  next
    case None
    let ?xs = "rebalance st (mBalanceInfos d)"
    let ?p = "bi_server (?xs ! 0)"
    let ?d = "d\<lparr>mBalanceInfos := ?xs, mKeyServerMapping := (mKeyServerMapping d)(h \<mapsto> ?p)\<rparr>"
    have same: "bi_server ` set ?xs = bi_server ` set (mBalanceInfos d)"
        "distinct (map bi_server ?xs) = distinct (map bi_server (mBalanceInfos d))"
      using servers_of_mset [OF servers_rebalance [OF xs]] by auto
    have p: "?p \<in> memo_servers d"
      using rebalance_nonempty [OF xs, of st] unfolding memo_servers_def same(1) [symmetric]
      by (intro imageI nth_mem) simp
    have "memo_invar ?d"
      using inv p same by (auto simp: memo_invar_def memo_servers_def ran_def split: if_splits)
    moreover have "memo_servers ?d = memo_servers d" using same by (simp add: memo_servers_def)
    moreover have "Memo_Get b st ?d h = Inr (?d, Some ?p)"
      using rebalance_nonempty [OF xs] by (simp add: Memo_Get_known)
    ultimately show ?thesis using None xs p by (auto simp: Memo_Get_new Let_def)
  qed
qed

lemma Memo_Add_contract:
  assumes "memo_invar d" "p \<notin> memo_servers d"
  shows "\<exists>d'. Memo_Add st d p = Inr d' \<and> memo_invar d' \<and> memo_servers d' = insert p (memo_servers d)"
proof -
  have "mset (map bi_server (push_heap (balance_less st) (mBalanceInfos d @ [ServerBalanceInfo p])))
      = mset (map bi_server (mBalanceInfos d @ [ServerBalanceInfo p]))"
    by (rule mset_bi_server) (rule mset_push_heap)
  from servers_of_mset [OF this] show ?thesis
    using assms by (auto simp: Memo_Add_def memo_invar_def memo_servers_def ServerBalanceInfo_def)
qed

interpretation memo: clearing_algorithm Memo_Add Memo_Remove Memo_Get Memo_Clear
  memo_servers memo_invar "\<lambda>d st p. True"
proof unfold_locales
  fix d :: memo_distri and st p b h
  assume inv: "memo_invar d"
  show "\<exists>d'. Memo_Add st d p = Inr d' \<and> memo_invar d' \<and> p \<in> memo_servers d' \<and>
      memo_servers d' \<subseteq> insert p (memo_servers d) \<and> (\<lambda>st p. True) = (\<lambda>st p. True)"
    if "p \<notin> memo_servers d" using Memo_Add_contract [OF inv that] by blast
  show "memo_invar (Memo_Remove d p) \<and> memo_servers (Memo_Remove d p) = memo_servers d - {p} \<and>
      (\<lambda>st p. True) = (\<lambda>st p. True)"
    using inv erase_server_servers [of "mBalanceInfos d" p]
    by (auto simp: Memo_Remove_def memo_invar_def memo_servers_def ran_def)
  show "\<exists>d' q. Memo_Get b st d h = Inr (d', Some q) \<and> q \<in> memo_servers d \<and> memo_invar d' \<and>
      memo_servers d' = memo_servers d \<and> (\<lambda>st p. True) = (\<lambda>st p. True) \<and>
      Memo_Get b st d' h = Inr (d', Some q)" if "memo_servers d \<noteq> {}"
    using Memo_Get_contract [OF inv that] by blast
  show "Memo_Get b st d h = (if NDEBUG b then Inr (d, None) else Inl AssertionFailed)"
    if "memo_servers d = {}" using that by (simp add: Memo_Get_def memo_servers_def assert_then_def)
  show "memo_invar (Memo_Clear d) \<and> memo_servers (Memo_Clear d) \<subseteq> memo_servers d"
    by (simp add: Memo_Clear_def memo_invar_def memo_servers_def)
  show "memo_servers (Memo_Clear d) = {}" by (simp add: Memo_Clear_def memo_servers_def)
qed

section \<open>How keys are spread\<close>

text \<open>
  The state after servers of weight 1 were registered and any number of keys looked up:
  only the server in front, \<open>f\<close>, has a positive count, and every known key is its.
\<close>

definition lopsided :: "store \<Rightarrow> nat \<Rightarrow> ptr \<Rightarrow> memo_distri \<Rightarrow> bool" where
  "lopsided st n f d \<longleftrightarrow>
     (\<exists>c rest. mBalanceInfos d = \<lparr>bi_server = f, bi_count = c\<rparr> # rest \<and> unat c \<le> n \<and>
        (\<forall>x \<in> set rest. bi_count x = 0) \<and>
        (\<forall>x \<in> set (mBalanceInfos d). si_weight (st (bi_server x)) = 1)) \<and>
     ran (mKeyServerMapping d) \<subseteq> {f}"

lemma balance_less_unit:
  "si_weight (st (bi_server x)) = 1 \<Longrightarrow> si_weight (st (bi_server y)) = 1 \<Longrightarrow>
     balance_less st x y \<longleftrightarrow> bi_count x < bi_count y"
  by (simp add: balance_less_def)

lemma rebalance_lopsided:
  assumes xs: "xs = \<lparr>bi_server = f, bi_count = c\<rparr> # rest" and c: "unat c < 2 ^ 64 - 1"
    and zero: "\<forall>x \<in> set rest. bi_count x = 0"
    and unit: "\<forall>x \<in> set xs. si_weight (st (bi_server x)) = 1"
  shows "\<exists>rest'. rebalance st xs = \<lparr>bi_server = f, bi_count = c + 1\<rparr> # rest' \<and> mset rest' = mset rest"
proof -
  let ?v = "\<lparr>bi_server = f, bi_count = c + 1\<rparr>"
  have bump: "bump_front xs = ?v # rest" using xs by (simp add: bump_front_def)
  have "unat (c + 1) = unat c + 1" using c by (simp add: unat_word_ariths)
  then have pos: "0 < c + 1" by (metis add_is_0 one_neq_zero unat_0 word_gt_0)
  have front: "rebalance st xs ! 0 = ?v"
  proof (cases rest)
    case Nil
    then show ?thesis
      using bump by (simp add: rebalance_def pop_heap_def push_heap_def sift_up.simps)
  next
    case (Cons y ys)
    then obtain zs where zs: "pop_heap (balance_less st) (bump_front xs) = zs @ [?v]"
        "mset zs = mset rest"
      using pop_heap_snoc [of "bump_front xs" "balance_less st"] bump by auto
    have "balance_less st z ?v" if "z \<in> set zs" for z
    proof -
      have "z \<in> set rest" using that zs(2) by (metis set_mset_mset)
      then show ?thesis
        using zero unit xs pos by (subst balance_less_unit) auto
    qed
    then show ?thesis unfolding rebalance_def zs(1) by (rule push_heap_largest)
  qed
  moreover have "mset (rebalance st xs) = mset (?v # rest)"
    by (simp add: mset_rebalance bump)
  moreover from this obtain r rest' where "rebalance st xs = r # rest'"
    by (cases "rebalance st xs") auto
  ultimately show ?thesis by auto
qed

lemma lopsided_get:
  assumes l: "lopsided st n f d" and n: "n < 2 ^ 64 - 1"
  shows "\<exists>d'. Memo_Get b st d h = Inr (d', Some f) \<and> lopsided st (Suc n) f d'"
proof -
  obtain c rest where d: "mBalanceInfos d = \<lparr>bi_server = f, bi_count = c\<rparr> # rest" "unat c \<le> n"
      "\<forall>x \<in> set rest. bi_count x = 0"
      "\<forall>x \<in> set (mBalanceInfos d). si_weight (st (bi_server x)) = 1"
    and ran: "ran (mKeyServerMapping d) \<subseteq> {f}"
    using l by (auto simp: lopsided_def)
  show ?thesis
  proof (cases "mKeyServerMapping d h")
    case (Some p)
    then have "p = f" using ran by (auto simp: ran_def)
    moreover have "lopsided st (Suc n) f d" using d ran by (auto simp: lopsided_def)
    ultimately show ?thesis using Some d(1) by (simp add: Memo_Get_known)
  next
    case None
    obtain rest' where r: "rebalance st (mBalanceInfos d) = \<lparr>bi_server = f, bi_count = c + 1\<rparr> # rest'"
        "mset rest' = mset rest"
      using rebalance_lopsided [OF d(1) _ d(3,4)] d(2) n by force
    have "set rest' = set rest" using r(2) by (metis set_mset_mset)
    moreover have "unat (c + 1) \<le> Suc n"
      using d(2) n by (simp add: unat_word_ariths)
    ultimately have "lopsided st (Suc n) f (d\<lparr>mBalanceInfos := rebalance st (mBalanceInfos d),
        mKeyServerMapping := (mKeyServerMapping d)(h \<mapsto> f)\<rparr>)"
      using d(1,3,4) ran unfolding lopsided_def r(1) by (auto simp: ran_def)
    moreover have "mBalanceInfos d \<noteq> []" using d(1) by simp
    ultimately show ?thesis by (simp add: Memo_Get_new [OF _ None] r(1))
  qed
qed

lemma lopsided_gets:
  "lopsided st n f d \<Longrightarrow> n + length hs < 2 ^ 64 \<Longrightarrow>
     \<exists>d'. memo_gets b st d hs = Inr (d', replicate (length hs) (Some f)) \<and>
       lopsided st (n + length hs) f d'"
proof (induction hs arbitrary: n d)
  case Nil
  then show ?case by simp
next
  case (Cons h hs)
  then obtain d1 where d1: "Memo_Get b st d h = Inr (d1, Some f)" "lopsided st (Suc n) f d1"
    using lopsided_get [of st n f d b h] by auto
  with Cons.IH [of "Suc n" d1] Cons.prems show ?case by auto
qed

lemma push_heap_zero:
  assumes "\<forall>x \<in> set xs. si_weight (st (bi_server x)) = 1" "si_weight (st p) = 1"
  shows "push_heap (balance_less st) (xs @ [ServerBalanceInfo p]) = xs @ [ServerBalanceInfo p]"
proof -
  let ?v = "ServerBalanceInfo p"
  have "\<not> balance_less st x ?v" if "x \<in> set xs" for x
    using that assms by (simp add: balance_less_unit ServerBalanceInfo_def)
  moreover have "(length xs - 1) div 2 < length xs" if "0 < length xs"
    using that div_le_dividend [of "length xs - 1" 2] by linarith
  ultimately have "0 < length xs \<Longrightarrow> \<not> balance_less st ((xs @ [?v]) ! ((length xs - 1) div 2)) ?v"
    by (simp add: nth_append)
  then show ?thesis unfolding push_heap_def by (subst sift_up.simps) auto
qed

lemma Memo_adds_unit:
  assumes "\<forall>x \<in> set (mBalanceInfos d). si_weight (st (bi_server x)) = 1"
    and "\<forall>p \<in> set ps. si_weight (st p) = 1"
  shows "foldRes (\<lambda>p d. Memo_Add st d p) ps d =
     Inr (d\<lparr>mBalanceInfos := mBalanceInfos d @ map ServerBalanceInfo ps\<rparr>)"
  using assms
proof (induction ps arbitrary: d)
  case Nil
  then show ?case by simp
next
  case (Cons p ps)
  let ?d = "d\<lparr>mBalanceInfos := mBalanceInfos d @ [ServerBalanceInfo p]\<rparr>"
  have "Memo_Add st d p = Inr ?d" using Cons.prems by (simp add: Memo_Add_def push_heap_zero)
  moreover have "\<forall>x \<in> set (mBalanceInfos ?d). si_weight (st (bi_server x)) = 1"
    using Cons.prems by (auto simp: ServerBalanceInfo_def)
  ultimately show ?case using Cons by simp
qed

text \<open>
  \<^verbatim>\<open>MemoDistri\<close> never balances: after registering servers of weight 1 (the only weight
  \<^verbatim>\<open>ServerList::Add\<close> creates), every lookup of any sequence of keys is answered with the
  server registered first. The heap keeps the most loaded server in front, and \<^verbatim>\<open>Get\<close>
  hands out the front.
\<close>

theorem memo_first_server_takes_all:
  assumes "\<forall>p \<in> set (f # ps). si_weight (st p) = 1" "length hs < 2 ^ 64"
  shows "\<exists>d d'. foldRes (\<lambda>p d. Memo_Add st d p) (f # ps) memo_empty = Inr d \<and>
    memo_gets b st d hs = Inr (d', replicate (length hs) (Some f))"
proof -
  let ?d = "memo_empty\<lparr>mBalanceInfos := map ServerBalanceInfo (f # ps)\<rparr>"
  have "foldRes (\<lambda>p d. Memo_Add st d p) (f # ps) memo_empty = Inr ?d"
    using Memo_adds_unit [of memo_empty st "f # ps"] assms(1) by (simp add: memo_empty_def)
  moreover have "lopsided st 0 f ?d"
    using assms(1) by (auto simp: lopsided_def memo_empty_def ServerBalanceInfo_def)
  ultimately show ?thesis using lopsided_gets [of st 0 f ?d hs b] assms(2) by auto
qed

theorem memo_first_server_takes_all_witness:
  "\<exists>d d'. foldRes (\<lambda>p d. Memo_Add (\<lambda>_. ServerItem ''h'' 1 1) d p) [5, 6] memo_empty = Inr d \<and>
     memo_gets \<lparr>NDEBUG = False, HOST_LITTLE = True, ENDIAN_LITTLE = False\<rparr>
       (\<lambda>_. ServerItem ''h'' 1 1) d [10, 11, 12] = Inr (d', [Some 5, Some 5, Some 5])"
  using memo_first_server_takes_all [of 5 "[6]" "\<lambda>_. ServerItem ''h'' 1 1" "[10, 11, 12]"
      "\<lparr>NDEBUG = False, HOST_LITTLE = True, ENDIAN_LITTLE = False\<rparr>"]
  by (simp add: ServerItem_def numeral_3_eq_3)

text \<open>
  \<^verbatim>\<open>MemoDistri\<close> is sticky: with a server registered, \<^verbatim>\<open>Get\<close> returns a registered server,
  and asking again for the same hash returns the same server and changes nothing; after a
  server is removed it is never returned.
\<close>

theorem memo_sticky:
  assumes "memo_invar d" "memo_servers d \<noteq> {}"
  shows "\<exists>d' p. Memo_Get b st d h = Inr (d', Some p) \<and> p \<in> memo_servers d \<and>
    Memo_Get b st d' h = Inr (d', Some p) \<and>
    (\<forall>q d''. Memo_Get b st (Memo_Remove d' p) h = Inr (d'', Some q) \<longrightarrow> q \<noteq> p)"
proof -
  obtain d' p where g: "Memo_Get b st d h = Inr (d', Some p)" "p \<in> memo_servers d" "memo_invar d'"
      "Memo_Get b st d' h = Inr (d', Some p)"
    using memo.get_ok [OF assms, of b st h] by blast
  with memo.get_after_remove(1) [OF g(3)] show ?thesis by blast
qed

theorem memo_sticky_witness:
  "\<exists>d' p. Memo_Get \<lparr>NDEBUG = True, HOST_LITTLE = True, ENDIAN_LITTLE = False\<rparr>
       (\<lambda>_. ServerItem ''h'' 1 1) \<lparr>mKeyServerMapping = Map.empty,
         mBalanceInfos = [ServerBalanceInfo 3]\<rparr> 9 = Inr (d', Some p)"
  using memo_sticky [of "\<lparr>mKeyServerMapping = Map.empty, mBalanceInfos = [ServerBalanceInfo 3]\<rparr>"
      "\<lparr>NDEBUG = True, HOST_LITTLE = True, ENDIAN_LITTLE = False\<rparr>"
      "\<lambda>_. ServerItem ''h'' 1 1" 9]
  by (auto simp: memo_invar_def memo_servers_def)

end
