(* ===== verification/Server_List.thy ===== *)
theory Server_List
  imports Consistent_Hash Memo_Distri "HOL-Library.AList"
begin

text \<open>
  \<^verbatim>\<open>serverManager/ServerList.h\<close> and \<^verbatim>\<open>ServerList.cpp\<close>: the registered servers and the
  algorithm that distributes keys over them. The call through \<^verbatim>\<open>DistributeAlgorithm::Ptr\<close> is
  the dispatch on \<open>distri\<close>, and the interpretation \<open>distri\<close> shows that it keeps the contract of
  \<open>distribute_algorithm\<close>, which the proofs about the list rest on.

  The algorithms live in a store of their own, because \<^verbatim>\<open>SetDistributeAlgorithm\<close> clears the
  previous algorithm through a pointer that may equal the new one. The slots connected to
  \<^verbatim>\<open>OnServerAdded\<close> and \<^verbatim>\<open>OnServerRemoved\<close> are the parameters \<open>added\<close> and \<open>removed\<close> on a state of
  type \<open>'w\<close>; \<open>resolves\<close> says whether the host name resolves; \<open>order\<close> is the iteration order of
  the \<^verbatim>\<open>unordered_map\<close>.
\<close>

section \<open>Dynamic dispatch\<close>

datatype distri = Consistent cons_hash | Memo memo_distri | Modulo modulo_distri

fun distri_Add ::
    "(int \<Rightarrow> string) \<Rightarrow> md5 \<Rightarrow> store \<Rightarrow> distri \<Rightarrow> ptr \<Rightarrow> distri res" where
  "distri_Add lexcast raw st (Consistent d) p =
     andThen (Cons_Add lexcast raw st d p) (\<lambda>d. Inr (Consistent d))"
| "distri_Add lexcast raw st (Memo d) p = andThen (Memo_Add st d p) (\<lambda>d. Inr (Memo d))"
| "distri_Add lexcast raw st (Modulo d) p = andThen (Modulo_Add st d p) (\<lambda>d. Inr (Modulo d))"

fun distri_Remove :: "distri \<Rightarrow> ptr \<Rightarrow> distri" where
  "distri_Remove (Consistent d) p = Consistent (Cons_Remove d p)"
| "distri_Remove (Memo d) p = Memo (Memo_Remove d p)"
| "distri_Remove (Modulo d) p = Modulo (Modulo_Remove d p)"

fun distri_Get :: "build \<Rightarrow> store \<Rightarrow> distri \<Rightarrow> u64 \<Rightarrow> (distri \<times> ptr option) res" where
  "distri_Get b st (Consistent d) h = andThen (Cons_Get b st d h) (\<lambda>(d, r). Inr (Consistent d, r))"
| "distri_Get b st (Memo d) h = andThen (Memo_Get b st d h) (\<lambda>(d, r). Inr (Memo d, r))"
| "distri_Get b st (Modulo d) h = andThen (Modulo_Get b st d h) (\<lambda>(d, r). Inr (Modulo d, r))"

fun distri_Clear :: "distri \<Rightarrow> distri" where
  "distri_Clear (Consistent d) = Consistent (Cons_Clear d)"
| "distri_Clear (Memo d) = Memo (Memo_Clear d)"
| "distri_Clear (Modulo d) = Modulo (Modulo_Clear d)"

fun distri_servers :: "distri \<Rightarrow> ptr set" where
  "distri_servers (Consistent d) = cons_servers d"
| "distri_servers (Memo d) = memo_servers d"
| "distri_servers (Modulo d) = modulo_servers d"

fun distri_invar :: "distri \<Rightarrow> bool" where
  "distri_invar (Consistent d) = cons_invar d"
| "distri_invar (Memo d) = memo_invar d"
| "distri_invar (Modulo d) = modulo_invar d"

fun distri_addable ::
    "(int \<Rightarrow> string) \<Rightarrow> md5 \<Rightarrow> distri \<Rightarrow> store \<Rightarrow> ptr \<Rightarrow> bool" where
  "distri_addable lexcast raw (Consistent d) = cons_addable lexcast raw d"
| "distri_addable lexcast raw _ = (\<lambda>st p. True)"

lemma distri_add_ok:
  assumes "distri_invar d" "distri_addable lexcast raw d st p" "p \<notin> distri_servers d"
  shows "\<exists>d'. distri_Add lexcast raw st d p = Inr d' \<and> distri_invar d' \<and> p \<in> distri_servers d' \<and>
    distri_servers d' \<subseteq> insert p (distri_servers d) \<and>
    distri_addable lexcast raw d' = distri_addable lexcast raw d"
proof (cases d)
  case (Consistent x)
  then show ?thesis using assms cons.add_ok [where d = x and st = st and p = p and lexcast = lexcast and raw = raw] by fastforce
next
  case (Memo x)
  then show ?thesis using assms memo.add_ok [where d = x and st = st and p = p] by fastforce
next
  case (Modulo x)
  then show ?thesis using assms modulo.add_ok [where d = x and st = st and p = p] by fastforce
qed

lemma distri_get_ok:
  assumes "distri_invar d" "distri_servers d \<noteq> {}"
  shows "\<exists>d' p. distri_Get b st d h = Inr (d', Some p) \<and> p \<in> distri_servers d \<and> distri_invar d' \<and>
    distri_servers d' = distri_servers d \<and>
    distri_addable lexcast raw d' = distri_addable lexcast raw d \<and>
    distri_Get b st d' h = Inr (d', Some p)"
proof (cases d)
  case (Consistent x)
  then show ?thesis using assms cons.get_ok [where d = x and b = b and st = st and h = h and lexcast = lexcast and raw = raw] by fastforce
next
  case (Memo x)
  then show ?thesis using assms memo.get_ok [where d = x and b = b and st = st and h = h] by fastforce
next
  case (Modulo x)
  then show ?thesis using assms modulo.get_ok [where d = x and b = b and st = st and h = h] by fastforce
qed

interpretation distri: distribute_algorithm "distri_Add lexcast raw" distri_Remove distri_Get
  distri_Clear distri_servers distri_invar "distri_addable lexcast raw" for lexcast raw
proof
  fix d st p b h
  assume inv: "distri_invar d"
  show "\<exists>d'. distri_Add lexcast raw st d p = Inr d' \<and> distri_invar d' \<and> p \<in> distri_servers d' \<and>
      distri_servers d' \<subseteq> insert p (distri_servers d) \<and>
      distri_addable lexcast raw d' = distri_addable lexcast raw d"
    if "distri_addable lexcast raw d st p" "p \<notin> distri_servers d"
    using inv that by (rule distri_add_ok)
  show "distri_invar (distri_Remove d p) \<and> distri_servers (distri_Remove d p) = distri_servers d - {p} \<and>
      distri_addable lexcast raw (distri_Remove d p) = distri_addable lexcast raw d"
    using inv cons.remove_ok memo.remove_ok modulo.remove_ok by (cases d) auto
  show "\<exists>d' p. distri_Get b st d h = Inr (d', Some p) \<and> p \<in> distri_servers d \<and> distri_invar d' \<and>
      distri_servers d' = distri_servers d \<and>
      distri_addable lexcast raw d' = distri_addable lexcast raw d \<and>
      distri_Get b st d' h = Inr (d', Some p)"
    if "distri_servers d \<noteq> {}"
    using inv that by (rule distri_get_ok)
  show "distri_Get b st d h = (if NDEBUG b then Inr (d, None) else Inl AssertionFailed)"
    if "distri_servers d = {}"
    using inv that cons.get_empty memo.get_empty modulo.get_empty by (cases d) auto
  show "distri_invar (distri_Clear d) \<and> distri_servers (distri_Clear d) \<subseteq> distri_servers d"
    using inv cons.clear_ok memo.clear_ok modulo.clear_ok by (cases d) auto
qed

section \<open>The list\<close>

record server_list =
  sl_servers :: "(string \<times> ptr) list"
  sl_algorithm :: "ptr option"
  sl_hash :: "(string \<Rightarrow> u64) option"
  sl_replications :: u32
  sl_items :: store
  sl_algorithms :: "ptr \<Rightarrow> distri"
  sl_next :: ptr

text \<open>
  \<open>items\<close> and \<open>algorithms\<close> are the rest of the heap; \<open>stdhash\<close> is \<^verbatim>\<open>std::hash<std::string>\<close>.
\<close>

definition ServerList ::
    "(string \<Rightarrow> u64) \<Rightarrow> store \<Rightarrow> (ptr \<Rightarrow> distri) \<Rightarrow> u32 \<Rightarrow> server_list" where
  "ServerList stdhash items algorithms replication =
     \<lparr>sl_servers = [], sl_algorithm = None, sl_hash = Some stdhash,
      sl_replications = replication, sl_items = items, sl_algorithms = algorithms, sl_next = 0\<rparr>"

type_synonym 'w added_slot = "ptr \<Rightarrow> server_item \<Rightarrow> 'w \<Rightarrow> (server_item \<times> 'w) res"
type_synonym 'w removed_slot = "ptr \<Rightarrow> server_item \<Rightarrow> 'w \<Rightarrow> 'w res"

text \<open>
  \<^verbatim>\<open>Add\<close> pairs its outcome with the state, which an exception leaves behind as it is at the
  throw.
\<close>

definition set_item :: "ptr \<Rightarrow> server_item \<Rightarrow> server_list \<Rightarrow> server_list" where
  "set_item p s l = l\<lparr>sl_items := (sl_items l)(p := s)\<rparr>"

definition SL_Add ::
    "(int \<Rightarrow> string) \<Rightarrow> md5 \<Rightarrow> 'w added_slot \<Rightarrow> string \<Rightarrow> int \<Rightarrow> bool \<Rightarrow> server_list \<times> 'w
      \<Rightarrow> bool res \<times> server_list \<times> 'w" where
  "SL_Add lexcast raw added host port resolves lw =
     (let (l, w) = lw; key = ToString lexcast host port
      in case map_of (sl_servers l) key of
        Some p \<Rightarrow> (Inr False, l, w)
      | None \<Rightarrow>
          (let p = sl_next l;
               l = set_item p (ServerItem host port 1)
                     (l\<lparr>sl_servers := sl_servers l @ [(key, p)], sl_next := Suc p\<rparr>)
           in case sl_algorithm l of
             None \<Rightarrow> (Inl NullPointer, l, w)
           | Some a \<Rightarrow> (case distri_Add lexcast raw (sl_items l) (sl_algorithms l a) p of
               Inl e \<Rightarrow> (Inl e, l, w)
             | Inr d \<Rightarrow>
                 (let l = l\<lparr>sl_algorithms := (sl_algorithms l)(a := d)\<rparr>
                  in case Connect resolves (si_socket (sl_items l p)) of
                    Inl e \<Rightarrow> (Inl e, l, w)
                  | Inr c \<Rightarrow>
                      (let l = set_item p ((sl_items l p)\<lparr>si_socket := c\<rparr>) l
                       in case added p (sl_items l p) w of
                         Inl e \<Rightarrow> (Inl e, l, w)
                       | Inr (s, w) \<Rightarrow> (Inr True, set_item p s l, w))))))"

definition SL_Remove ::
    "(int \<Rightarrow> string) \<Rightarrow> 'w removed_slot \<Rightarrow> string \<Rightarrow> int \<Rightarrow> server_list \<times> 'w
      \<Rightarrow> (bool \<times> server_list \<times> 'w) res" where
  "SL_Remove lexcast removed host port lw =
     (let (l, w) = lw; key = ToString lexcast host port
      in case map_of (sl_servers l) key of
        None \<Rightarrow> Inr (False, l, w)
      | Some p \<Rightarrow> (case sl_algorithm l of
          None \<Rightarrow> Inl NullPointer
        | Some a \<Rightarrow>
            (let l = l\<lparr>sl_algorithms := (sl_algorithms l)(a := distri_Remove (sl_algorithms l a) p)\<rparr>
             in andThen (removed p (sl_items l p) w) (\<lambda>w.
                Inr (True, l\<lparr>sl_servers := AList.delete key (sl_servers l)\<rparr>, w)))))"

definition SL_Get :: "build \<Rightarrow> string \<Rightarrow> server_list \<Rightarrow> (ptr option \<times> server_list) res" where
  "SL_Get b key l =
     (case sl_algorithm l of None \<Rightarrow> Inl NullPointer
      | Some a \<Rightarrow> (case sl_hash l of None \<Rightarrow> Inl (Throws ''bad_function_call'')
        | Some hash \<Rightarrow>
            andThen (distri_Get b (sl_items l) (sl_algorithms l a) (hash key)) (\<lambda>(d, r).
            Inr (r, l\<lparr>sl_algorithms := (sl_algorithms l)(a := d)\<rparr>))))"

definition SL_Get_server :: "(int \<Rightarrow> string) \<Rightarrow> string \<Rightarrow> int \<Rightarrow> server_list \<Rightarrow> ptr option" where
  "SL_Get_server lexcast host port l = map_of (sl_servers l) (ToString lexcast host port)"

definition SL_Count :: "server_list \<Rightarrow> nat" where
  "SL_Count l = length (sl_servers l)"

definition SL_Items :: "server_list \<Rightarrow> (string \<times> ptr) list" where
  "SL_Items l = sl_servers l"

definition SetDistributeAlgorithm ::
    "build \<Rightarrow> (int \<Rightarrow> string) \<Rightarrow> md5 \<Rightarrow> ((string \<times> ptr) list \<Rightarrow> (string \<times> ptr) list) \<Rightarrow> ptr option
      \<Rightarrow> server_list \<Rightarrow> (ptr option \<times> server_list) res" where
  "SetDistributeAlgorithm b lexcast raw order algorithm l =
     assert_then b (algorithm \<noteq> None)
       (let oldAlgorithm = sl_algorithm l;
            l = l\<lparr>sl_algorithm := algorithm\<rparr>
        in andThen
          (case algorithm of
             None \<Rightarrow> if sl_servers l = [] then Inr l else Inl NullPointer
           | Some a \<Rightarrow>
               andThen (foldRes (\<lambda>p d. distri_Add lexcast raw (sl_items l) d p)
                   (map snd (order (sl_servers l))) (sl_algorithms l a))
                 (\<lambda>d. Inr (l\<lparr>sl_algorithms := (sl_algorithms l)(a := d)\<rparr>)))
          (\<lambda>l. Inr (oldAlgorithm, case oldAlgorithm of None \<Rightarrow> l
             | Some old \<Rightarrow> l\<lparr>sl_algorithms :=
                 (sl_algorithms l)(old := distri_Clear (sl_algorithms l old))\<rparr>)))"

definition SetHashAlogrithm ::
    "(string \<Rightarrow> u64) option \<Rightarrow> server_list \<Rightarrow> (string \<Rightarrow> u64) option \<times> server_list" where
  "SetHashAlogrithm hFunc l = (sl_hash l, l\<lparr>sl_hash := hFunc\<rparr>)"

section \<open>Invariant\<close>

text \<open>
  Keys are unique and those of their servers, servers are distinct objects, and the
  algorithm only knows registered servers.
\<close>

definition sl_invar :: "(int \<Rightarrow> string) \<Rightarrow> server_list \<Rightarrow> bool" where
  "sl_invar lexcast l \<longleftrightarrow>
     distinct (map fst (sl_servers l)) \<and> distinct (map snd (sl_servers l)) \<and>
     (\<forall>(k, p) \<in> set (sl_servers l). p < sl_next l \<and> k = item_ToString lexcast (sl_items l p)) \<and>
     (case sl_algorithm l of None \<Rightarrow> True | Some a \<Rightarrow>
        distri_invar (sl_algorithms l a) \<and>
        distri_servers (sl_algorithms l a) \<subseteq> snd ` set (sl_servers l))"

text \<open>The state after the new server is known to the map and to the algorithm.\<close>

definition registered ::
    "(int \<Rightarrow> string) \<Rightarrow> string \<Rightarrow> int \<Rightarrow> ptr \<Rightarrow> distri \<Rightarrow> server_list \<Rightarrow> server_list" where
  "registered lexcast host port a d l =
     (set_item (sl_next l) (ServerItem host port 1)
       (l\<lparr>sl_servers := sl_servers l @ [(ToString lexcast host port, sl_next l)],
          sl_next := Suc (sl_next l)\<rparr>))\<lparr>sl_algorithms := (sl_algorithms l)(a := d)\<rparr>"

definition can_add ::
    "(int \<Rightarrow> string) \<Rightarrow> md5 \<Rightarrow> string \<Rightarrow> int \<Rightarrow> ptr \<Rightarrow> server_list \<Rightarrow> bool" where
  "can_add lexcast raw host port a l \<longleftrightarrow>
     sl_algorithm l = Some a \<and> map_of (sl_servers l) (ToString lexcast host port) = None \<and>
     distri_addable lexcast raw (sl_algorithms l a)
       ((sl_items l)(sl_next l := ServerItem host port 1)) (sl_next l)"

lemma registered_simps [simp]:
  "sl_servers (registered lexcast host port a d l) =
     sl_servers l @ [(ToString lexcast host port, sl_next l)]"
  "sl_next (registered lexcast host port a d l) = Suc (sl_next l)"
  "sl_items (registered lexcast host port a d l) (sl_next l) = ServerItem host port 1"
  "sl_algorithms (registered lexcast host port a d l) a = d"
  "sl_algorithm (registered lexcast host port a d l) = sl_algorithm l"
  by (simp_all add: registered_def set_item_def)

lemma set_item_simps [simp]:
  "sl_servers (set_item p s l) = sl_servers l" "sl_algorithms (set_item p s l) = sl_algorithms l"
  "sl_algorithm (set_item p s l) = sl_algorithm l" "sl_next (set_item p s l) = sl_next l"
  "sl_items (set_item p s l) p = s"
  by (simp_all add: set_item_def)

lemma sl_invar_set_item:
  assumes "sl_invar lexcast l" "si_host s = si_host (sl_items l p)" "si_port s = si_port (sl_items l p)"
  shows "sl_invar lexcast (set_item p s l)"
  using assms by (fastforce simp: sl_invar_def set_item_def item_ToString_def split: option.splits)

lemma sl_invarD:
  assumes "sl_invar lexcast l"
  shows "sl_next l \<notin> snd ` set (sl_servers l)"
    and "sl_algorithm l = Some a \<Longrightarrow> distri_invar (sl_algorithms l a)"
    and "sl_algorithm l = Some a \<Longrightarrow> distri_servers (sl_algorithms l a) \<subseteq> snd ` set (sl_servers l)"
  using assms by (force simp: sl_invar_def)+

lemma distri_Add_sound:
  assumes "distri_Add lexcast raw st d p = Inr d'" "distri_invar d" "p \<notin> distri_servers d"
  shows "distri_invar d' \<and> distri_servers d' \<subseteq> insert p (distri_servers d)"
proof (cases d)
  case (Consistent x)
  then obtain y where y: "Cons_Add lexcast raw st x p = Inr y" "d' = Consistent y"
    using assms(1) by (auto simp: res_simps)
  with Consistent assms(2) show ?thesis using Cons_Add_sound [OF y(1)] by simp
next
  case (Memo x)
  then show ?thesis using assms memo.add_ok [where d = x and st = st and p = p] by (auto simp: res_simps)
next
  case (Modulo x)
  then show ?thesis using assms modulo.add_ok [where d = x and st = st and p = p] by (auto simp: res_simps)
qed

text \<open>\<^verbatim>\<open>Add\<close> keeps the invariant whatever its outcome.\<close>

lemma sl_invar_registered:
  assumes "sl_invar lexcast l" "sl_algorithm l = Some a"
    and "map_of (sl_servers l) (ToString lexcast host port) = None"
    and "distri_invar d" "distri_servers d \<subseteq> insert (sl_next l) (distri_servers (sl_algorithms l a))"
  shows "sl_invar lexcast (registered lexcast host port a d l)"
proof -
  let ?key = "ToString lexcast host port" and ?p = "sl_next l"
  note fresh = sl_invarD(1) [OF assms(1)] and alg = sl_invarD(3) [OF assms(1,2)]
  have key: "?key \<notin> fst ` set (sl_servers l)" using assms(3) by (simp add: map_of_eq_None_iff)
  have "\<forall>(k, p) \<in> set (sl_servers l). p \<noteq> ?p" using fresh by force
  then have entries: "\<forall>(k, p) \<in> set (sl_servers l @ [(?key, ?p)]). p < Suc ?p \<and>
      k = item_ToString lexcast (sl_items (registered lexcast host port a d l) p)"
    using assms(1) by (auto simp: sl_invar_def registered_def set_item_def item_ToString_def ServerItem_def)
  show ?thesis
    unfolding sl_invar_def registered_simps
    using assms key fresh alg entries by (auto simp: sl_invar_def)
qed

lemma register:
  assumes inv: "sl_invar lexcast l" and can: "can_add lexcast raw host port a l"
  shows "\<exists>d. distri_Add lexcast raw ((sl_items l)(sl_next l := ServerItem host port 1))
        (sl_algorithms l a) (sl_next l) = Inr d \<and>
      sl_invar lexcast (registered lexcast host port a d l) \<and> sl_next l \<in> distri_servers d"
proof -
  let ?p = "sl_next l"
  note fresh = sl_invarD(1) [OF inv]
    and alg = sl_invarD(2,3) [OF inv, of a]
  have a: "sl_algorithm l = Some a" using can by (simp add: can_add_def)
  obtain d where d: "distri_Add lexcast raw ((sl_items l)(?p := ServerItem host port 1))
      (sl_algorithms l a) ?p = Inr d" "distri_invar d" "?p \<in> distri_servers d"
      "distri_servers d \<subseteq> insert ?p (distri_servers (sl_algorithms l a))"
    using distri_add_ok [OF alg(1) [OF a], of lexcast raw _ ?p] alg(2) [OF a] fresh can
    unfolding can_add_def by blast
  with inv can show ?thesis by (auto simp: can_add_def intro: sl_invar_registered)
qed

text \<open>The three ways \<^verbatim>\<open>Add\<close> can go on from there.\<close>

lemma SL_Add_from_registered:
  assumes "sl_algorithm l = Some a" "map_of (sl_servers l) (ToString lexcast host port) = None"
    and "distri_Add lexcast raw ((sl_items l)(sl_next l := ServerItem host port 1))
        (sl_algorithms l a) (sl_next l) = Inr d"
  shows "SL_Add lexcast raw added host port resolves (l, w) =
    (let p = sl_next l; l = registered lexcast host port a d l
     in case Connect resolves (si_socket (sl_items l p)) of
       Inl e \<Rightarrow> (Inl e, l, w)
     | Inr c \<Rightarrow> (let l = set_item p ((sl_items l p)\<lparr>si_socket := c\<rparr>) l
         in case added p (sl_items l p) w of
           Inl e \<Rightarrow> (Inl e, l, w)
         | Inr (s, w) \<Rightarrow> (Inr True, set_item p s l, w)))"
  using assms
  by (simp add: SL_Add_def registered_def set_item_def Let_def)

lemma can_addD:
  assumes "can_add lexcast raw host port a l"
  shows "sl_algorithm l = Some a" "map_of (sl_servers l) (ToString lexcast host port) = None"
  using assms by (simp_all add: can_add_def)

definition keeps_identity :: "'w added_slot \<Rightarrow> bool" where
  "keeps_identity added \<longleftrightarrow> (\<forall>p s w s' w'. added p s w = Inr (s', w') \<longrightarrow>
     si_host s' = si_host s \<and> si_port s' = si_port s \<and> si_pending s' = si_pending s)"

lemma SL_Add_outcome:
  assumes "SL_Add lexcast raw added host port resolves (l, w) = (res, l', w')"
    and "res \<noteq> Inl NullPointer"
  obtains (refused) "l' = l" "w' = w"
  | (failed) a where "sl_algorithm l = Some a"
      "map_of (sl_servers l) (ToString lexcast host port) = None"
      "l' = registered lexcast host port a (sl_algorithms l a) l" "w' = w"
  | (added) a d s where "sl_algorithm l = Some a"
      "map_of (sl_servers l) (ToString lexcast host port) = None"
      "distri_Add lexcast raw ((sl_items l)(sl_next l := ServerItem host port 1))
        (sl_algorithms l a) (sl_next l) = Inr d"
      "l' = set_item (sl_next l) s (registered lexcast host port a d l)"
      "keeps_identity added \<longrightarrow> si_host s = host \<and> si_port s = port \<and> si_pending s = []"
      "w' = w \<or> (\<exists>s s'. added (sl_next l) s w = Inr (s', w'))"
proof (cases "map_of (sl_servers l) (ToString lexcast host port)")
  case (Some p)
  then show thesis using assms refused by (simp add: SL_Add_def)
next
  case None
  then obtain a where a: "sl_algorithm l = Some a"
    using assms by (cases "sl_algorithm l") (auto simp: SL_Add_def set_item_def Let_def)
  let ?add = "distri_Add lexcast raw ((sl_items l)(sl_next l := ServerItem host port 1))
        (sl_algorithms l a) (sl_next l)"
  show thesis
  proof (cases ?add)
    case (Inl e)
    then show thesis
      using assms(1) None a failed by (auto simp: SL_Add_def registered_def set_item_def Let_def)
  next
    case (Inr d)
    let ?l = "registered lexcast host port a d l"
    have same: "set_item (sl_next l) (ServerItem host port 1) ?l = ?l"
      by (simp add: registered_def set_item_def)
    have item: "si_host (ServerItem host port 1) = host" "si_port (ServerItem host port 1) = port"
      "si_pending (ServerItem host port 1) = []" by (simp_all add: ServerItem_def)
    have set2: "set_item p s (set_item p s' l) = set_item p s l" for p s s' l
      by (simp add: set_item_def)
    note run = SL_Add_from_registered [OF a None Inr, of added resolves w, unfolded assms(1) Let_def]
    have "(\<exists>s. l' = set_item (sl_next l) s ?l \<and>
        (keeps_identity added \<longrightarrow> si_host s = host \<and> si_port s = port \<and> si_pending s = [])) \<and>
      (w' = w \<or> (\<exists>s s'. added (sl_next l) s w = Inr (s', w')))"
    proof (cases "Connect resolves (si_socket (sl_items ?l (sl_next l)))")
      case (Inl e)
      then have "l' = ?l" "w' = w" using run by simp_all
      then show ?thesis using same item by metis
    next
      case (Inr c)
      let ?s = "(ServerItem host port 1)\<lparr>si_socket := c\<rparr>"
      show ?thesis
      proof (cases "added (sl_next l) ?s w")
        case (Inl e)
        then show ?thesis
          using run Inr item by (auto intro!: exI [of _ ?s])
      next
        case ok: (Inr sw)
        obtain s w1 where sw: "sw = (s, w1)" by (cases sw)
        have "l' = set_item (sl_next l) s ?l" "w' = w1" using run Inr ok sw by (simp_all add: set2)
        moreover have "keeps_identity added \<longrightarrow> si_host s = host \<and> si_port s = port \<and> si_pending s = []"
          using ok sw item by (fastforce simp: keeps_identity_def)
        ultimately show ?thesis using ok sw by blast
      qed
    qed
    with None a Inr added show thesis by blast
  qed
qed

lemma sl_invar_get:
  assumes "sl_invar lexcast l" "SL_Get b key l = Inr (r, l')"
  shows "sl_invar lexcast l'" and "sl_servers l' = sl_servers l"
    and "case r of None \<Rightarrow> True | Some p \<Rightarrow> p \<in> snd ` set (sl_servers l)"
proof -
  obtain a hash d where a: "sl_algorithm l = Some a" "sl_hash l = Some hash"
    "distri_Get b (sl_items l) (sl_algorithms l a) (hash key) = Inr (d, r)"
    "l' = l\<lparr>sl_algorithms := (sl_algorithms l)(a := d)\<rparr>"
    using assms(2) by (auto simp: SL_Get_def res_simps split: option.splits)
  have inv: "distri_invar (sl_algorithms l a)"
    "distri_servers (sl_algorithms l a) \<subseteq> snd ` set (sl_servers l)"
    using assms(1) a(1) by (auto simp: sl_invar_def)
  note sound = distri.get_sound [OF inv(1) a(3)]
  show "sl_invar lexcast l'" "sl_servers l' = sl_servers l"
    using assms(1) a inv(2) sound(2,3) by (auto simp: sl_invar_def)
  show "case r of None \<Rightarrow> True | Some p \<Rightarrow> p \<in> snd ` set (sl_servers l)"
    using sound(1) inv(2) by (auto split: option.splits)
qed

lemma SL_RemoveE:
  assumes "SL_Remove lexcast removed host port (l, w) = Inr (True, l', w')"
  obtains a p where "sl_algorithm l = Some a" "map_of (sl_servers l) (ToString lexcast host port) = Some p"
    "l' = l\<lparr>sl_algorithms := (sl_algorithms l)(a := distri_Remove (sl_algorithms l a) p),
        sl_servers := AList.delete (ToString lexcast host port) (sl_servers l)\<rparr>"
  using assms by (auto simp: SL_Remove_def res_simps Let_def split: option.splits)

lemma delete_snd:
  assumes "distinct (map fst xs)" "distinct (map snd xs)" "map_of xs k = Some p"
  shows "snd ` set (AList.delete k xs) = snd ` set xs - {p}"
proof -
  have kp: "(k, p) \<in> set xs" using assms(3) by (rule map_of_SomeD)
  have 1: "j = k" if "(j, p) \<in> set xs" for j
    using assms(2) that kp by (metis distinct_map inj_onD prod.inject snd_conv)
  have 2: "q = p" if "(k, q) \<in> set xs" for q
    using assms(1) that kp by (metis map_of_is_SomeI option.inject)
  have "set (AList.delete k xs) = set xs - {(k, p)}"
    using 2 by (auto simp: AList.delete_eq)
  then have "q \<in> snd ` set (AList.delete k xs) \<longleftrightarrow> (\<exists>j. (j, q) \<in> set xs \<and> (j, q) \<noteq> (k, p))" for q
    by (simp only: image_iff Bex_def split_paired_Ex) auto
  moreover have "q \<in> snd ` set xs - {p} \<longleftrightarrow> (\<exists>j. (j, q) \<in> set xs \<and> (j, q) \<noteq> (k, p))" for q
    using 1 by (simp only: Diff_iff image_iff Bex_def split_paired_Ex) auto
  ultimately show ?thesis by (intro set_eqI) simp
qed

lemma sl_invar_remove:
  assumes inv: "sl_invar lexcast l"
    and rem: "SL_Remove lexcast removed host port (l, w) = Inr (True, l', w')"
    and key: "map_of (sl_servers l) (ToString lexcast host port) = Some p"
  shows "sl_invar lexcast l'" and "snd ` set (sl_servers l') = snd ` set (sl_servers l) - {p}"
proof -
  obtain a where a: "sl_algorithm l = Some a"
    "l' = l\<lparr>sl_algorithms := (sl_algorithms l)(a := distri_Remove (sl_algorithms l a) p),
        sl_servers := AList.delete (ToString lexcast host port) (sl_servers l)\<rparr>"
    using SL_RemoveE [OF rem] key by (metis option.inject)
  have dist: "distinct (map fst (sl_servers l))" "distinct (map snd (sl_servers l))"
    using inv by (auto simp: sl_invar_def)
  show snd: "snd ` set (sl_servers l') = snd ` set (sl_servers l) - {p}"
    using delete_snd [OF dist key] a(2) by simp
  have "distri_invar (distri_Remove (sl_algorithms l a) p)"
    "distri_servers (distri_Remove (sl_algorithms l a) p) = distri_servers (sl_algorithms l a) - {p}"
    using distri.remove_ok [of "sl_algorithms l a"] inv a(1) by (auto simp: sl_invar_def)
  moreover have "distinct (map fst (sl_servers l'))" "distinct (map snd (sl_servers l'))"
    using dist a(2) by (auto simp: AList.delete_eq distinct_map_filter)
  ultimately show "sl_invar lexcast l'"
    using inv snd a by (fastforce simp: sl_invar_def AList.delete_eq)
qed

lemma AList_delete_last: "map_of xs k = None \<Longrightarrow> AList.delete k (xs @ [(k, v)]) = xs"
  by (force simp: AList.delete_eq map_of_eq_None_iff intro!: filter_all_id)

lemma distri_kind:
  assumes "foldRes (\<lambda>p d. distri_Add lexcast raw st d p) ps d = Inr d'"
  shows "(\<exists>m. d' = Modulo m) \<longleftrightarrow> (\<exists>m. d = Modulo m)"
proof (rule foldRes_invariant [OF assms])
  fix p x y
  assume "distri_Add lexcast raw st x p = Inr y" "(\<exists>m. x = Modulo m) \<longleftrightarrow> (\<exists>m. d = Modulo m)"
  then show "(\<exists>m. y = Modulo m) \<longleftrightarrow> (\<exists>m. d = Modulo m)" by (cases x) (auto simp: res_simps)
qed simp

text \<open>
  What registering many servers leads to. A point of a ring that several servers have belongs to
  the last of them; the other algorithms keep every server.
\<close>

definition server_points :: "(int \<Rightarrow> string) \<Rightarrow> cons_hash \<Rightarrow> store \<Rightarrow> ptr \<Rightarrow> u64 set" where
  "server_points lexcast c st p =
     set (ring_points lexcast (st p) (ring_rounds (mReplications c) (si_weight (st p))))"

lemma server_points_cong: "mReplications c = mReplications d \<Longrightarrow>
    server_points lexcast c = server_points lexcast d"
  by (intro ext) (simp add: server_points_def)

lemma cons_add_find:
  assumes "distri_Add lexcast raw st (Consistent c) p = Inr d" "cons_invar c" "cons_addable lexcast raw c st p"
  obtains c1 where "d = Consistent c1" "cons_invar c1" "mReplications c1 = mReplications c"
    "\<And>k. om_find (mCircle c1) k = (if k \<in> server_points lexcast c st p then Some p else om_find (mCircle c) k)"
proof -
  let ?ks = "ring_points lexcast (st p) (ring_rounds (mReplications c) (si_weight (st p)))"
  let ?c = "c\<lparr>mCircle := fold (\<lambda>k. om_put k p) ?ks (mCircle c)\<rparr>"
  have sorted: "om_sorted (mCircle c)" using assms(2) by (simp add: cons_invar_def)
  have "d = Consistent ?c" using assms(1) Cons_Add_points [OF assms(3)] by simp
  then show thesis
    by (rule that) (simp_all add: cons_invar_def om.invar_fold_put om.find_fold_put server_points_def sorted)
qed

lemma add_all_ring:
  assumes "foldRes (\<lambda>p d. distri_Add lexcast raw st d p) ps (Consistent c) = Inr d" "cons_invar c"
    and "\<And>p. p \<in> set ps \<Longrightarrow> cons_addable lexcast raw c st p"
  shows "\<exists>c'. d = Consistent c' \<and> cons_invar c' \<and> (\<forall>p \<in> set ps. \<forall>k \<in> server_points lexcast c st p.
      \<exists>q \<in> set ps. k \<in> server_points lexcast c st q \<and> om_find (mCircle c') k = Some q) \<and>
    (\<forall>k. (\<forall>p \<in> set ps. k \<notin> server_points lexcast c st p) \<longrightarrow> om_find (mCircle c') k = om_find (mCircle c) k)"
  using assms
proof (induction ps arbitrary: c)
  case Nil
  then show ?case by (intro exI [of _ c]) simp
next
  case (Cons p ps)
  obtain d1 where d1: "distri_Add lexcast raw st (Consistent c) p = Inr d1"
    "foldRes (\<lambda>p d. distri_Add lexcast raw st d p) ps d1 = Inr d"
    using Cons.prems(1) by (auto simp: res_simps simp del: distri_Add.simps)
  obtain c1 where c1: "d1 = Consistent c1" "cons_invar c1" "mReplications c1 = mReplications c"
    "\<And>k. om_find (mCircle c1) k = (if k \<in> server_points lexcast c st p then Some p else om_find (mCircle c) k)"
    using cons_add_find [OF d1(1) Cons.prems(2)] Cons.prems(3) by auto
  have pts: "server_points lexcast c1 = server_points lexcast c" by (rule server_points_cong [OF c1(3)])
  have "cons_addable lexcast raw c1 st q" if "q \<in> set ps" for q
    using Cons.prems(3) that cons_addable_cong [OF c1(3)] by simp
  from Cons.IH [OF d1(2) [unfolded c1(1)] c1(2) this, unfolded pts]
  obtain c' where c': "d = Consistent c'" "cons_invar c'" "\<forall>p \<in> set ps. \<forall>k \<in> server_points lexcast c st p.
      \<exists>q \<in> set ps. k \<in> server_points lexcast c st q \<and> om_find (mCircle c') k = Some q"
    "\<forall>k. (\<forall>p \<in> set ps. k \<notin> server_points lexcast c st p) \<longrightarrow> om_find (mCircle c') k = om_find (mCircle c1) k"
    by blast
  have "\<exists>q \<in> set (p # ps). k \<in> server_points lexcast c st q \<and> om_find (mCircle c') k = Some q"
    if "q \<in> set (p # ps)" "k \<in> server_points lexcast c st q" for q k
  proof (cases "\<exists>q \<in> set ps. k \<in> server_points lexcast c st q")
    case True
    then show ?thesis using c'(3) by force
  next
    case False
    then show ?thesis using that c'(4) c1(4) by auto
  qed
  moreover have "om_find (mCircle c') k = om_find (mCircle c) k"
    if "\<forall>q \<in> set (p # ps). k \<notin> server_points lexcast c st q" for k
    using c'(4) c1(4) that by simp
  ultimately show ?case using c'(1,2) by blast
qed

lemma add_all_kept:
  assumes "foldRes (\<lambda>p d. distri_Add lexcast raw st d p) ps d = Inr d'" "distri_invar d"
    and "\<nexists>c. d = Consistent c" "distinct ps" "set ps \<inter> distri_servers d = {}"
  shows "distri_servers d' = set ps \<union> distri_servers d"
  using assms
proof (induction ps arbitrary: d)
  case Nil
  then show ?case by simp
next
  case (Cons p ps)
  obtain d1 where d1: "distri_Add lexcast raw st d p = Inr d1"
    "foldRes (\<lambda>p d. distri_Add lexcast raw st d p) ps d1 = Inr d'"
    using Cons.prems(1) by (auto simp: res_simps simp del: distri_Add.simps)
  have "distri_invar d1 \<and> (\<nexists>c. d1 = Consistent c) \<and> distri_servers d1 = insert p (distri_servers d)"
  proof (cases d)
    case (Consistent x)
    then show ?thesis using Cons.prems(3) by simp
  next
    case (Memo x)
    then show ?thesis using d1(1) Cons.prems(2,5) Memo_Add_contract [of x p st] by (auto simp: res_simps)
  next
    case (Modulo x)
    then show ?thesis using d1(1) Cons.prems(2,5) by (auto simp: res_simps modulo_defs)
  qed
  with Cons.IH [OF d1(2)] Cons.prems(4,5) show ?case by auto
qed

lemma add_all_reached:
  assumes "foldRes (\<lambda>p d. distri_Add lexcast raw st d p) ps d = Inr d'" "distri_invar d"
    and "\<And>p. p \<in> set ps \<Longrightarrow> distri_addable lexcast raw d st p" "distinct ps" "set ps \<inter> distri_servers d = {}"
  shows "\<forall>p \<in> set ps. p \<in> distri_servers d' \<or> (\<exists>c. d = Consistent c \<and>
    (\<forall>k \<in> server_points lexcast c st p. \<exists>q \<in> set ps. q \<noteq> p \<and> k \<in> server_points lexcast c st q))"
proof (cases "\<exists>c. d = Consistent c")
  case False
  then show ?thesis using add_all_kept [OF assms(1,2) _ assms(4,5)] by auto
next
  case True
  then obtain c where c: "d = Consistent c" by blast
  have "\<And>p. p \<in> set ps \<Longrightarrow> cons_addable lexcast raw c st p" using assms(3) c by simp
  from add_all_ring [OF assms(1) [unfolded c] _ this] assms(2) c
  obtain c' where c': "d' = Consistent c'" "cons_invar c'" "\<forall>p \<in> set ps. \<forall>k \<in> server_points lexcast c st p.
      \<exists>q \<in> set ps. k \<in> server_points lexcast c st q \<and> om_find (mCircle c') k = Some q"
    by auto
  have "p \<in> distri_servers d'" if "p \<in> set ps" "k \<in> server_points lexcast c st p"
    "\<not> (\<exists>q \<in> set ps. q \<noteq> p \<and> k \<in> server_points lexcast c st q)" for p k
    using c'(3) that cons_servers_find [OF c'(2)] c'(1) by fastforce
  then show ?thesis using c by blast
qed

section \<open>Properties\<close>

text \<open>
  C22 \<^verbatim>\<open>Add\<close> of a new, resolvable server succeeds: the list grows by one, the server is found
  under its host and port, the algorithm can answer with it, its connection is being
  established, and the invariant of the list is kept.
\<close>

theorem sl_add_new:
  assumes "sl_invar lexcast l" "can_add lexcast raw host port a l"
    and "\<And>s. added (sl_next l) s w = Inr (s\<lparr>si_socket := f (si_socket s)\<rparr>, w')"
  shows "\<exists>l' d. SL_Add lexcast raw added host port True (l, w) = (Inr True, l', w') \<and>
    sl_invar lexcast l' \<and> SL_Count l' = Suc (SL_Count l) \<and>
    SL_Get_server lexcast host port l' = Some (sl_next l) \<and>
    sl_algorithms l' a = d \<and> sl_next l \<in> distri_servers d \<and>
    si_socket (sl_items l' (sl_next l)) = f ((TcpClient 24)\<lparr>isOpen := True, connects := 1\<rparr>)"
proof -
  obtain d where d: "distri_Add lexcast raw ((sl_items l)(sl_next l := ServerItem host port 1))
        (sl_algorithms l a) (sl_next l) = Inr d"
      "sl_invar lexcast (registered lexcast host port a d l)" "sl_next l \<in> distri_servers d"
    using register [OF assms(1,2)] by blast
  let ?l1 = "registered lexcast host port a d l" and ?p = "sl_next l"
  let ?c = "(TcpClient 24)\<lparr>isOpen := True, connects := 1\<rparr>"
  let ?l2 = "set_item ?p ((ServerItem host port 1)\<lparr>si_socket := ?c\<rparr>) ?l1"
  let ?l3 = "set_item ?p ((ServerItem host port 1)\<lparr>si_socket := f ?c\<rparr>) ?l2"
  have "Connect True (si_socket (ServerItem host port 1)) = Inr ?c"
    by (simp add: Connect_def ServerItem_def TcpClient_def)
  then have "SL_Add lexcast raw added host port True (l, w) = (Inr True, ?l3, w')"
    by (simp add: SL_Add_from_registered [OF can_addD [OF assms(2)] d(1)] assms(3) Let_def)
  moreover have "sl_invar lexcast ?l3"
    by (intro sl_invar_set_item d(2)) (simp_all add: set_item_def)
  moreover have "map_of (sl_servers l) (ToString lexcast host port) = None"
    using assms(2) by (simp add: can_add_def)
  ultimately show ?thesis
    using d(3) by (auto simp: SL_Count_def SL_Get_server_def map_add_def)
qed

definition modulo_list :: server_list where
  "modulo_list = (ServerList (\<lambda>s. of_nat (length s)) (\<lambda>_. ServerItem [] 0 1)
     (\<lambda>_. Modulo \<lparr>mServers = []\<rparr>) 200)\<lparr>sl_algorithm := Some 7\<rparr>"

lemma modulo_list_ok:
  "sl_invar decimal modulo_list" "can_add decimal md5_blank host port 7 modulo_list"
  by (simp_all add: sl_invar_def can_add_def modulo_list_def ServerList_def modulo_invar_def
      modulo_servers_def)

theorem sl_add_new_witness:
  "\<exists>l' d. SL_Add decimal md5_blank (\<lambda>p s w. Inr (s, w)) ''10.0.0.1'' 11211 True (modulo_list, ()) =
      (Inr True, l', ()) \<and> sl_invar decimal l' \<and> SL_Count l' = Suc (SL_Count modulo_list) \<and>
    SL_Get_server decimal ''10.0.0.1'' 11211 l' = Some (sl_next modulo_list) \<and>
    sl_algorithms l' 7 = d \<and> sl_next modulo_list \<in> distri_servers d \<and>
    si_socket (sl_items l' (sl_next modulo_list)) = (TcpClient 24)\<lparr>isOpen := True, connects := 1\<rparr>"
  using sl_add_new [OF modulo_list_ok, where f = id and added = "\<lambda>p s w. Inr (s, w)" and w = "()"
      and w' = "()" and host = "''10.0.0.1''" and port = 11211] by simp

text \<open>
  When the host name does not resolve, \<^verbatim>\<open>Connect\<close> throws out of \<^verbatim>\<open>Add\<close> after the server was
  registered: the server stays in the map and in the algorithm without a connection and
  without handlers, and adding it again is refused.
\<close>

theorem sl_add_unresolved:
  assumes "sl_invar lexcast l" "can_add lexcast raw host port a l"
  shows "\<exists>l' d. SL_Add lexcast raw added host port False (l, w) = (Inl (Throws ''resolve''), l', w) \<and>
    SL_Get_server lexcast host port l' = Some (sl_next l) \<and>
    sl_algorithms l' a = d \<and> sl_next l \<in> distri_servers d \<and>
    sl_items l' (sl_next l) = ServerItem host port 1 \<and>
    SL_Add lexcast raw added host port resolves (l', w) = (Inr False, l', w)"
proof -
  obtain d where d: "distri_Add lexcast raw ((sl_items l)(sl_next l := ServerItem host port 1))
        (sl_algorithms l a) (sl_next l) = Inr d" "sl_next l \<in> distri_servers d"
    using register [OF assms] by blast
  let ?l1 = "registered lexcast host port a d l"
  have "SL_Add lexcast raw added host port False (l, w) = (Inl (Throws ''resolve''), ?l1, w)"
    by (simp add: SL_Add_from_registered [OF can_addD [OF assms(2)] d(1)] Connect_def Let_def)
  moreover have "map_of (sl_servers ?l1) (ToString lexcast host port) = Some (sl_next l)"
    using assms(2) by (simp add: can_add_def map_add_def)
  ultimately show ?thesis
    using d(2) by (auto simp: SL_Get_server_def SL_Add_def)
qed

theorem sl_add_unresolved_witness:
  "\<exists>l' d. SL_Add decimal md5_blank (\<lambda>p s w. Inr (s, w)) ''nowhere'' 1 False (modulo_list, ()) =
      (Inl (Throws ''resolve''), l', ()) \<and>
    SL_Get_server decimal ''nowhere'' 1 l' = Some (sl_next modulo_list) \<and>
    sl_algorithms l' 7 = d \<and> sl_next modulo_list \<in> distri_servers d \<and>
    sl_items l' (sl_next modulo_list) = ServerItem ''nowhere'' 1 1 \<and>
    SL_Add decimal md5_blank (\<lambda>p s w. Inr (s, w)) ''nowhere'' 1 True (l', ()) = (Inr False, l', ())"
  by (rule sl_add_unresolved [OF modulo_list_ok])

text \<open>
  \<^verbatim>\<open>Get\<close> only hands out registered servers, keeps the list and its invariant, and answers
  the same key with the same server when asked again.
\<close>

theorem sl_get_registered:
  assumes "sl_invar lexcast l" "sl_algorithm l = Some a" "sl_hash l = Some hash"
    and "distri_servers (sl_algorithms l a) \<noteq> {}"
  shows "\<exists>p l'. SL_Get b key l = Inr (Some p, l') \<and> p \<in> snd ` set (sl_servers l) \<and>
    sl_invar lexcast l' \<and> sl_servers l' = sl_servers l \<and> SL_Get b key l' = Inr (Some p, l')"
proof -
  have inv: "distri_invar (sl_algorithms l a)" using assms by (simp add: sl_invar_def)
  obtain d p where d: "distri_Get b (sl_items l) (sl_algorithms l a) (hash key) = Inr (d, Some p)"
    "distri_Get b (sl_items l) d (hash key) = Inr (d, Some p)"
    using distri_get_ok [OF inv assms(4)] by blast
  let ?l = "l\<lparr>sl_algorithms := (sl_algorithms l)(a := d)\<rparr>"
  have get: "SL_Get b key l = Inr (Some p, ?l)" "SL_Get b key ?l = Inr (Some p, ?l)"
    using assms d by (simp_all add: SL_Get_def)
  then show ?thesis using sl_invar_get [OF assms(1) get(1)] by auto
qed

definition two_servers :: server_list where
  "two_servers = modulo_list\<lparr>sl_servers := [(''a1'', 0), (''b2'', 1)], sl_next := 2,
     sl_items := (\<lambda>p. if p = 0 then ServerItem ''a'' 1 1 else ServerItem ''b'' 2 1),
     sl_algorithms := (\<lambda>_. Modulo \<lparr>mServers = [0, 1]\<rparr>)\<rparr>"

lemma decimal_digits:
  "decimal 1 = ''1''" "decimal 2 = ''2''" "decimal 1211 = ''1211''" "decimal 11211 = ''11211''"
  by (simp_all add: decimal_def decimal_nat.simps digit_char_def char_of_eq_iff)

lemma two_servers_ok: "sl_invar decimal two_servers"
  by (simp add: sl_invar_def two_servers_def modulo_list_def ServerList_def modulo_invar_def
      modulo_servers_def item_ToString_def ToString_def ServerItem_def decimal_digits)

lemma two_servers_simps:
  "sl_algorithm two_servers = Some 7" "sl_hash two_servers = Some (\<lambda>s. of_nat (length s))"
  "distri_servers (sl_algorithms two_servers 7) = {0, 1}"
  "sl_servers two_servers = [(''a1'', 0), (''b2'', 1)]"
  by (simp_all add: two_servers_def modulo_list_def ServerList_def modulo_servers_def)

theorem sl_get_registered_witness:
  "\<exists>p l'. SL_Get \<lparr>NDEBUG = False, HOST_LITTLE = True, ENDIAN_LITTLE = False\<rparr> ''foo'' two_servers =
      Inr (Some p, l') \<and> p \<in> {0, 1} \<and> sl_invar decimal l' \<and> sl_servers l' = [(''a1'', 0), (''b2'', 1)] \<and>
    SL_Get \<lparr>NDEBUG = False, HOST_LITTLE = True, ENDIAN_LITTLE = False\<rparr> ''foo'' l' = Inr (Some p, l')"
  using sl_get_registered [OF two_servers_ok two_servers_simps(1,2),
      of "\<lparr>NDEBUG = False, HOST_LITTLE = True, ENDIAN_LITTLE = False\<rparr>" "''foo''"]
  by (simp add: two_servers_simps)

text \<open>
  C23 \<^verbatim>\<open>Remove\<close> of a registered server succeeds when its slots do: every other key finds what it
  found before, the algorithm can answer with exactly the servers it could answer with, without the one
  removed, no other algorithm object and no server object is touched, the invariant is kept, and
  no key is answered with the server any more.
\<close>

theorem sl_remove_registered:
  assumes "sl_invar lexcast l" "sl_algorithm l = Some a"
    and "SL_Get_server lexcast host port l = Some p" "removed p (sl_items l p) w = Inr w'"
  shows "\<exists>l'. SL_Remove lexcast removed host port (l, w) = Inr (True, l', w') \<and> sl_invar lexcast l' \<and>
    (\<forall>h n. SL_Get_server lexcast h n l' =
      (if ToString lexcast h n = ToString lexcast host port then None else SL_Get_server lexcast h n l)) \<and>
    snd ` set (sl_servers l') = snd ` set (sl_servers l) - {p} \<and>
    sl_algorithm l' = Some a \<and> sl_items l' = sl_items l \<and>
    distri_servers (sl_algorithms l' a) = distri_servers (sl_algorithms l a) - {p} \<and>
    (\<forall>a'. a' \<noteq> a \<longrightarrow> sl_algorithms l' a' = sl_algorithms l a') \<and>
    (\<forall>b key q l''. SL_Get b key l' = Inr (Some q, l'') \<longrightarrow> q \<noteq> p)"
proof -
  have key: "map_of (sl_servers l) (ToString lexcast host port) = Some p"
    using assms(3) by (simp add: SL_Get_server_def)
  let ?l = "l\<lparr>sl_algorithms := (sl_algorithms l)(a := distri_Remove (sl_algorithms l a) p),
        sl_servers := AList.delete (ToString lexcast host port) (sl_servers l)\<rparr>"
  have rem: "SL_Remove lexcast removed host port (l, w) = Inr (True, ?l, w')"
    using assms key by (simp add: SL_Remove_def)
  have inv: "sl_invar lexcast ?l" "snd ` set (sl_servers ?l) = snd ` set (sl_servers l) - {p}"
    using sl_invar_remove [OF assms(1) rem key] by blast+
  have "q \<noteq> p" if "SL_Get b k ?l = Inr (Some q, l'')" for b k q l''
    using sl_invar_get(3) [OF inv(1) that] inv(2) by auto
  moreover have "SL_Get_server lexcast h n ?l =
      (if ToString lexcast h n = ToString lexcast host port then None else SL_Get_server lexcast h n l)" for h n
    by (simp add: SL_Get_server_def delete_conv)
  moreover have "distri_servers (distri_Remove (sl_algorithms l a) p) = distri_servers (sl_algorithms l a) - {p}"
    using distri.remove_ok [OF sl_invarD(2) [OF assms(1,2)]] by blast
  ultimately show ?thesis using rem inv assms(2) by (intro exI [of _ ?l] conjI allI impI) simp_all
qed

theorem sl_remove_registered_witness:
  "\<exists>l'. SL_Remove decimal (\<lambda>p s w. Inr w) ''a'' 1 (two_servers, ()) = Inr (True, l', ()) \<and>
    sl_invar decimal l' \<and> SL_Get_server decimal ''a'' 1 l' = None \<and> SL_Get_server decimal ''b'' 2 l' = Some 1 \<and>
    snd ` set (sl_servers l') = {0, 1} - {0} \<and> distri_servers (sl_algorithms l' 7) = {0, 1} - {0} \<and>
    (\<forall>b key q l''. SL_Get b key l' = Inr (Some q, l'') \<longrightarrow> q \<noteq> 0)"
proof -
  let ?lw = "(two_servers, ())" and ?f = "\<lambda>p s w. Inr w"
  have "SL_Get_server decimal ''a'' 1 two_servers = Some 0"
    by (simp add: SL_Get_server_def two_servers_simps ToString_def decimal_digits)
  from sl_remove_registered [OF two_servers_ok two_servers_simps(1) this, of ?f "()" "()"]
  obtain l' where l': "SL_Remove decimal ?f ''a'' 1 ?lw = Inr (True, l', ())" "sl_invar decimal l'"
    "\<And>h n. SL_Get_server decimal h n l' =
      (if ToString decimal h n = ToString decimal ''a'' 1 then None else SL_Get_server decimal h n two_servers)"
    "snd ` set (sl_servers l') = snd ` set (sl_servers two_servers) - {0}"
    "distri_servers (sl_algorithms l' 7) = distri_servers (sl_algorithms two_servers 7) - {0}"
    "\<forall>b key q l''. SL_Get b key l' = Inr (Some q, l'') \<longrightarrow> q \<noteq> 0"
    by auto
  moreover have "SL_Get_server decimal ''b'' 2 two_servers = Some 1"
    by (simp add: SL_Get_server_def two_servers_simps ToString_def decimal_digits)
  ultimately show ?thesis
    by (intro exI [of _ l']) (simp add: two_servers_simps ToString_def decimal_digits)
qed

text \<open>
  The key of the map is host and port without a separator, so different servers can
  share one: with \<^verbatim>\<open>10.0.0.1\<close> on port 11211 registered, \<^verbatim>\<open>10.0.0.11\<close> on port 1211 is refused as
  already existing, and removing it removes the other server.
\<close>

theorem sl_key_collision:
  assumes "decimal_cast lexcast" "SL_Get_server lexcast ''10.0.0.1'' 11211 l = Some p"
  shows "SL_Add lexcast raw added ''10.0.0.11'' 1211 resolves (l, w) = (Inr False, l, w) \<and>
    SL_Remove lexcast removed ''10.0.0.11'' 1211 (l, w) =
      SL_Remove lexcast removed ''10.0.0.1'' 11211 (l, w)"
proof -
  have "ToString lexcast ''10.0.0.11'' 1211 = ToString lexcast ''10.0.0.1'' 11211"
    using assms(1) by (simp add: ToString_def decimal_cast_def decimal_digits)
  with assms(2) show ?thesis by (simp add: SL_Add_def SL_Remove_def SL_Get_server_def)
qed

theorem sl_key_collision_witness:
  "SL_Add decimal md5_blank (\<lambda>p s w. Inr (s, w)) ''10.0.0.11'' 1211 True
     (modulo_list\<lparr>sl_servers := [(''10.0.0.111211'', 3)]\<rparr>, ()) =
   (Inr False, modulo_list\<lparr>sl_servers := [(''10.0.0.111211'', 3)]\<rparr>, ())"
  using sl_key_collision [of decimal "modulo_list\<lparr>sl_servers := [(''10.0.0.111211'', 3)]\<rparr>" 3
      md5_blank "\<lambda>p s w. Inr (s, w)" True "()"]
  by (simp add: decimal_cast_def SL_Get_server_def ToString_def decimal_digits)

text \<open>
  C24 Changing to an empty algorithm object of its own registers every server of the list
  with it and no other, whatever order the map is walked in: after the change the algorithm can answer
  with every server of the list, except that a server is not on a consistent ring when each of its
  points is also a point of another server of the list, which has taken it over. The
  invariant is kept, and the previous object is cleared and handed back.
\<close>

theorem set_algorithm_registers_all:
  assumes inv: "sl_invar lexcast l" and neq: "sl_algorithm l \<noteq> Some a"
    and d0: "distri_invar (sl_algorithms l a)" "distri_servers (sl_algorithms l a) = {}"
    and ord: "mset (order (sl_servers l)) = mset (sl_servers l)"
    and add: "\<And>p. p \<in> snd ` set (sl_servers l) \<Longrightarrow>
      distri_addable lexcast raw (sl_algorithms l a) (sl_items l) p"
  shows "\<exists>l'. SetDistributeAlgorithm b lexcast raw order (Some a) l = Inr (sl_algorithm l, l') \<and>
    sl_invar lexcast l' \<and> sl_algorithm l' = Some a \<and> sl_servers l' = sl_servers l \<and>
    distri_servers (sl_algorithms l' a) \<subseteq> snd ` set (sl_servers l) \<and>
    (\<forall>p \<in> snd ` set (sl_servers l). p \<in> distri_servers (sl_algorithms l' a) \<or>
      (\<exists>c. sl_algorithms l a = Consistent c \<and> (\<forall>k \<in> server_points lexcast c (sl_items l) p.
        \<exists>q \<in> snd ` set (sl_servers l). q \<noteq> p \<and> k \<in> server_points lexcast c (sl_items l) q))) \<and>
    (sl_servers l \<noteq> [] \<longrightarrow> distri_servers (sl_algorithms l' a) \<noteq> {}) \<and>
    (\<forall>old. sl_algorithm l = Some old \<longrightarrow>
      sl_algorithms l' old = distri_Clear (sl_algorithms l old))"
proof -
  let ?ps = "map snd (order (sl_servers l))" and ?S = "snd ` set (sl_servers l)"
  have mset: "mset ?ps = mset (map snd (sl_servers l))" using ord by (metis mset_map)
  then have dist: "distinct ?ps" using inv by (metis mset_eq_imp_distinct_iff sl_invar_def)
  have set: "set ?ps = ?S" using mset_eq_setD [OF mset] by simp
  have "\<exists>d. foldRes (\<lambda>p d. distri_Add lexcast raw (sl_items l) d p) ?ps (sl_algorithms l a) = Inr d \<and>
      distri_invar d \<and> distri_servers d \<subseteq> set ?ps \<union> distri_servers (sl_algorithms l a) \<and>
      (?ps \<noteq> [] \<longrightarrow> distri_servers d \<noteq> {}) \<and>
      distri_addable lexcast raw d = distri_addable lexcast raw (sl_algorithms l a)"
    by (rule distri.add_all [OF d0(1) dist]) (use d0(2) add set in auto)
  then obtain d where d: "foldRes (\<lambda>p d. distri_Add lexcast raw (sl_items l) d p) ?ps
      (sl_algorithms l a) = Inr d" "distri_invar d" "distri_servers d \<subseteq> ?S"
      "?ps \<noteq> [] \<longrightarrow> distri_servers d \<noteq> {}"
    using set d0(2) by auto
  have ne: "?ps \<noteq> [] \<longleftrightarrow> sl_servers l \<noteq> []" using set by (metis image_is_empty set_empty)
  have all: "\<forall>p \<in> ?S. p \<in> distri_servers d \<or> (\<exists>c. sl_algorithms l a = Consistent c \<and>
      (\<forall>k \<in> server_points lexcast c (sl_items l) p. \<exists>q \<in> ?S. q \<noteq> p \<and> k \<in> server_points lexcast c (sl_items l) q))"
    using add_all_reached [OF d(1) d0(1)] add dist d0(2) unfolding set by simp
  let ?l = "case sl_algorithm l of None \<Rightarrow> l\<lparr>sl_algorithm := Some a, sl_algorithms := (sl_algorithms l)(a := d)\<rparr>
    | Some old \<Rightarrow> l\<lparr>sl_algorithm := Some a,
        sl_algorithms := ((sl_algorithms l)(a := d))(old := distri_Clear (sl_algorithms l old))\<rparr>"
  have "SetDistributeAlgorithm b lexcast raw order (Some a) l = Inr (sl_algorithm l, ?l)"
    using d(1) neq by (cases "sl_algorithm l") (auto simp: SetDistributeAlgorithm_def Let_def)
  moreover have l': "sl_algorithms ?l a = d" "sl_algorithm ?l = Some a" "sl_servers ?l = sl_servers l"
    using neq by (auto split: option.splits)
  moreover have "sl_invar lexcast ?l"
    using inv neq d(2,3) by (auto simp: sl_invar_def split: option.splits)
  ultimately show ?thesis
    using d(3,4) ne all by (intro exI [of _ ?l]) (auto split: option.splits)
qed

theorem set_algorithm_registers_all_witness:
  "\<exists>l'. SetDistributeAlgorithm \<lparr>NDEBUG = False, HOST_LITTLE = True, ENDIAN_LITTLE = False\<rparr> decimal md5_blank
      rev (Some 8) (two_servers\<lparr>sl_algorithms := (\<lambda>_. Memo memo_empty)\<rparr>) = Inr (Some 7, l') \<and>
    sl_invar decimal l' \<and> distri_servers (sl_algorithms l' 8) = {0, 1}"
proof -
  let ?l = "two_servers\<lparr>sl_algorithms := (\<lambda>_. Memo memo_empty)\<rparr>"
  let ?b = "\<lparr>NDEBUG = False, HOST_LITTLE = True, ENDIAN_LITTLE = False\<rparr>"
  have inv: "sl_invar decimal ?l"
    by (simp add: sl_invar_def two_servers_def modulo_list_def ServerList_def item_ToString_def
        ToString_def ServerItem_def decimal_digits memo_empty_def memo_invar_def memo_servers_def)
  have alg: "sl_algorithm ?l \<noteq> Some 8" "distri_invar (sl_algorithms ?l 8)"
    "distri_servers (sl_algorithms ?l 8) = {}" "mset (rev (sl_servers ?l)) = mset (sl_servers ?l)"
    "\<And>p. distri_addable decimal md5_blank (sl_algorithms ?l 8) (sl_items ?l) p"
    by (simp_all add: two_servers_simps memo_empty_def memo_invar_def memo_servers_def)
  from set_algorithm_registers_all [where l = ?l and a = 8 and order = rev and b = ?b, OF inv alg]
  obtain l' where "SetDistributeAlgorithm ?b decimal md5_blank rev (Some 8) ?l = Inr (sl_algorithm ?l, l')"
    "sl_invar decimal l'" "distri_servers (sl_algorithms l' 8) \<subseteq> snd ` set (sl_servers ?l)"
    "\<forall>p \<in> snd ` set (sl_servers ?l). p \<in> distri_servers (sl_algorithms l' 8)"
    by auto
  then show ?thesis by (intro exI [of _ l']) (auto simp: two_servers_simps)
qed

text \<open>
  Setting the algorithm object that is already set (other than a \<^verbatim>\<open>ModuloDistri\<close>) empties
  it, because the old and the new pointer are the same: the servers stay registered, yet
  every \<^verbatim>\<open>Get\<close> fails its assertion, or returns null where assertions are compiled away.
\<close>

theorem set_same_algorithm_empties:
  assumes "sl_algorithm l = Some a" "sl_hash l = Some hash" "\<And>m. sl_algorithms l a \<noteq> Modulo m"
    and "SetDistributeAlgorithm b lexcast raw order (Some a) l = Inr (r, l')"
  shows "sl_servers l' = sl_servers l \<and>
    SL_Get b key l' = (if NDEBUG b then Inr (None, l') else Inl AssertionFailed)"
proof -
  obtain d where d: "foldRes (\<lambda>p d. distri_Add lexcast raw (sl_items l) d p)
      (map snd (order (sl_servers l))) (sl_algorithms l a) = Inr d"
    "l' = l\<lparr>sl_algorithms := (sl_algorithms l)(a := distri_Clear d)\<rparr>"
    using assms(1,4) by (auto simp: SetDistributeAlgorithm_def Let_def res_simps)
  have "\<forall>m. d \<noteq> Modulo m" using distri_kind [OF d(1)] assms(3) by blast
  then have "distri_Get b st (distri_Clear d) h =
      (if NDEBUG b then Inr (distri_Clear d, None) else Inl AssertionFailed)" for st h
    by (cases d) (simp_all add: Cons_Clear_def Memo_Clear_def Cons_Get_def Memo_Get_def assert_then_def)
  with d(2) assms(1,2) show ?thesis by (simp add: SL_Get_def)
qed

theorem set_same_algorithm_empties_witness:
  "\<exists>l'. SetDistributeAlgorithm \<lparr>NDEBUG = True, HOST_LITTLE = True, ENDIAN_LITTLE = False\<rparr> decimal md5_blank
      id (Some 7) (two_servers\<lparr>sl_algorithms := (\<lambda>_. Memo memo_empty)\<rparr>) = Inr (Some 7, l') \<and>
    sl_servers l' = [(''a1'', 0), (''b2'', 1)] \<and>
    SL_Get \<lparr>NDEBUG = True, HOST_LITTLE = True, ENDIAN_LITTLE = False\<rparr> ''foo'' l' = Inr (None, l')"
proof -
  let ?l = "two_servers\<lparr>sl_algorithms := (\<lambda>_. Memo memo_empty)\<rparr>"
  let ?b = "\<lparr>NDEBUG = True, HOST_LITTLE = True, ENDIAN_LITTLE = False\<rparr>"
  have "\<exists>l'. SetDistributeAlgorithm ?b decimal md5_blank id (Some 7) ?l = Inr (Some 7, l')"
    by (simp add: SetDistributeAlgorithm_def two_servers_simps Memo_Add_def Let_def)
  then obtain l' where l': "SetDistributeAlgorithm ?b decimal md5_blank id (Some 7) ?l = Inr (Some 7, l')" ..
  have "sl_servers l' = sl_servers ?l \<and>
      SL_Get ?b ''foo'' l' = (if NDEBUG ?b then Inr (None, l') else Inl AssertionFailed)"
    by (rule set_same_algorithm_empties [OF _ _ _ l']) (simp_all add: two_servers_simps)
  with l' show ?thesis by (simp add: two_servers_simps)
qed

end
