(* ===== verification/Simulation.thy ===== *)
theory Simulation
  imports Prelude
begin

text \<open>
  Refinement of a specification by operations that answer: \<open>op_run\<close> is a series of operations of the
  program with their answers, \<open>spec_run\<close> the same series as the specification allows it. A provider
  shows one step; the locale gives the series.
\<close>

inductive op_run :: "('o \<Rightarrow> 'c \<Rightarrow> ('a \<times> 'c) res) \<Rightarrow> 'c \<Rightarrow> ('o \<times> 'a) list \<Rightarrow> 'c \<Rightarrow> bool" for cstep c0 where
  start: "op_run cstep c0 [] c0"
| step: "op_run cstep c0 trace c \<Longrightarrow> cstep opn c = Inr (answer, c') \<Longrightarrow>
    op_run cstep c0 (trace @ [(opn, answer)]) c'"

inductive spec_run :: "('o \<Rightarrow> 's \<Rightarrow> 'a \<Rightarrow> 's \<Rightarrow> bool) \<Rightarrow> 's \<Rightarrow> ('o \<times> 'a) list \<Rightarrow> 's \<Rightarrow> bool" for astep s0 where
  start: "spec_run astep s0 [] s0"
| step: "spec_run astep s0 trace s \<Longrightarrow> astep opn s answer s' \<Longrightarrow>
    spec_run astep s0 (trace @ [(opn, answer)]) s'"

inductive_cases op_run_NilE: "op_run cstep c0 [] c"
inductive_cases spec_run_NilE: "spec_run astep s0 [] s"

locale simulation =
  fixes cstep :: "'o \<Rightarrow> 'c \<Rightarrow> ('a \<times> 'c) res"
    and astep :: "'o \<Rightarrow> 's \<Rightarrow> 'a \<Rightarrow> 's \<Rightarrow> bool"
    and view :: "'c \<Rightarrow> 's"
    and keep :: "'c \<Rightarrow> bool"
  assumes step_keeps: "keep c \<Longrightarrow> cstep opn c = Inr (answer, c') \<Longrightarrow> keep c'"
    and step_allowed: "keep c \<Longrightarrow> cstep opn c = Inr (answer, c') \<Longrightarrow> astep opn (view c) answer (view c')"
begin

lemma run_simulates:
  assumes "op_run cstep c0 trace c" "keep c0"
  shows "spec_run astep (view c0) trace (view c) \<and> keep c"
  using assms
proof (induction rule: op_run.induct)
  case start
  then show ?case by (auto intro: spec_run.start)
next
  case (step trace c opn answer c')
  then show ?case using step_keeps step_allowed spec_run.step by metis
qed

end

end
