(* ===== verification/Server_Registry.thy ===== *)
theory Server_Registry
  imports Server_List Simulation
begin

text \<open>
  What a server list promises, without its algorithms, connections and slots: a finite map from the keys of
  servers to the servers. \<open>registry_step\<close> says what each operation may answer and what it does to
  the map; \<open>list_step\<close> runs the operation of \<^verbatim>\<open>ServerList\<close>, and \<open>registry_of\<close> forgets the detail.
\<close>

section \<open>The abstract list\<close>

datatype list_op =
    ListAdd string int bool | ListRemove string int | ListLookup string int | ListCount | ListGet string

datatype list_answer = Answered bool | Found "ptr option" | Counted nat | Threw

record registry =
  rg_servers :: "string \<rightharpoonup> ptr"
  rg_next :: ptr

definition rg_add :: "string \<Rightarrow> registry \<Rightarrow> registry" where
  "rg_add key r = \<lparr>rg_servers = (rg_servers r)(key \<mapsto> rg_next r), rg_next = Suc (rg_next r)\<rparr>"

definition rg_remove :: "string \<Rightarrow> registry \<Rightarrow> registry" where
  "rg_remove key r = r\<lparr>rg_servers := (rg_servers r)(key := None)\<rparr>"

text \<open>
  An exception of \<^verbatim>\<open>Add\<close> leaves the server registered. For a key of the cache some registered server
  is answered, or none.
\<close>

inductive registry_step :: "(int \<Rightarrow> string) \<Rightarrow> list_op \<Rightarrow> registry \<Rightarrow> list_answer \<Rightarrow> registry \<Rightarrow> bool"
  for lexcast where
  add_old: "rg_servers r (ToString lexcast host port) \<noteq> None \<Longrightarrow>
    registry_step lexcast (ListAdd host port resolves) r (Answered False) r"
| add_new: "rg_servers r (ToString lexcast host port) = None \<Longrightarrow> answer \<in> {Answered True, Threw} \<Longrightarrow>
    registry_step lexcast (ListAdd host port resolves) r answer (rg_add (ToString lexcast host port) r)"
| remove: "registry_step lexcast (ListRemove host port) r
    (Answered (rg_servers r (ToString lexcast host port) \<noteq> None)) (rg_remove (ToString lexcast host port) r)"
| lookup: "registry_step lexcast (ListLookup host port) r (Found (rg_servers r (ToString lexcast host port))) r"
| count: "registry_step lexcast ListCount r (Counted (card (dom (rg_servers r)))) r"
| get: "found = None \<or> (\<exists>key'. found = rg_servers r key') \<Longrightarrow> registry_step lexcast (ListGet key) r (Found found) r"

section \<open>The list of the program\<close>

fun list_step ::
    "build \<Rightarrow> (int \<Rightarrow> string) \<Rightarrow> md5 \<Rightarrow> 'w added_slot \<Rightarrow> 'w removed_slot \<Rightarrow> list_op \<Rightarrow> server_list \<times> 'w
      \<Rightarrow> (list_answer \<times> server_list \<times> 'w) res" where
  "list_step b lexcast raw added removed (ListAdd host port resolves) lw =
     (case SL_Add lexcast raw added host port resolves lw of
        (Inr yes, lw) \<Rightarrow> Inr (Answered yes, lw)
      | (Inl (Throws e), lw) \<Rightarrow> Inr (Threw, lw)
      | (Inl e, lw) \<Rightarrow> Inl e)"
| "list_step b lexcast raw added removed (ListRemove host port) lw =
     andThen (SL_Remove lexcast removed host port lw) (\<lambda>(yes, lw). Inr (Answered yes, lw))"
| "list_step b lexcast raw added removed (ListLookup host port) (l, w) =
     Inr (Found (SL_Get_server lexcast host port l), l, w)"
| "list_step b lexcast raw added removed ListCount (l, w) = Inr (Counted (SL_Count l), l, w)"
| "list_step b lexcast raw added removed (ListGet key) (l, w) =
     andThen (SL_Get b key l) (\<lambda>(found, l). Inr (Found found, l, w))"

definition registry_of :: "server_list \<Rightarrow> registry" where
  "registry_of l = \<lparr>rg_servers = map_of (sl_servers l), rg_next = sl_next l\<rparr>"

text \<open>\<^verbatim>\<open>Items()\<close> copies the map itself.\<close>

lemma registry_of_Items: "rg_servers (registry_of l) = map_of (SL_Items l)"
  by (simp add: registry_of_def SL_Items_def)

section \<open>Simulation\<close>

lemma SL_Add_new_key:
  assumes "SL_Add lexcast raw added host port resolves (l, w) = (res, l', w')"
    and "map_of (sl_servers l) (ToString lexcast host port) = None"
  shows "res \<noteq> Inr False \<and> sl_next l' = Suc (sl_next l)"
  using assms by (auto simp: SL_Add_def set_item_def Let_def split: option.splits sum.splits prod.splits)

lemma registry_of_registered:
  "map_of (sl_servers l) (ToString lexcast host port) = None \<Longrightarrow>
     registry_of (registered lexcast host port a d l) = rg_add (ToString lexcast host port) (registry_of l)"
  by (auto simp: registry_of_def rg_add_def map_add_def fun_eq_iff split: option.splits)

lemma registry_of_set_item [simp]: "registry_of (set_item p s l) = registry_of l"
  by (simp add: registry_of_def)

lemma add_step:
  assumes inv: "sl_invar lexcast l" and slot: "keeps_identity added"
    and add: "SL_Add lexcast raw added host port resolves (l, w) = (res, l', w')" "res \<noteq> Inl NullPointer"
  shows "sl_invar lexcast l' \<and>
    (if map_of (sl_servers l) (ToString lexcast host port) \<noteq> None then res = Inr False \<and> l' = l
     else res \<noteq> Inr False \<and> registry_of l' = rg_add (ToString lexcast host port) (registry_of l))"
proof (cases "map_of (sl_servers l) (ToString lexcast host port)")
  case (Some p)
  then show ?thesis using inv add(1) by (auto simp: SL_Add_def Let_def)
next
  case None
  note new = SL_Add_new_key [OF add(1) None] and reg = registry_of_registered [OF None]
  from add show ?thesis
  proof (cases rule: SL_Add_outcome)
    case refused
    then show ?thesis using new by simp
  next
    case (failed a)
    have "sl_invar lexcast (registered lexcast host port a (sl_algorithms l a) l)"
      using inv failed by (intro sl_invar_registered) (auto simp: sl_invar_def)
    then show ?thesis using failed None new reg by simp
  next
    case (added a d s)
    have "sl_next l \<notin> distri_servers (sl_algorithms l a)"
      using sl_invarD(1) [OF inv] sl_invarD(3) [OF inv added(1)] by (rule contra_subsetD [rotated])
    then have "distri_invar d \<and> distri_servers d \<subseteq> insert (sl_next l) (distri_servers (sl_algorithms l a))"
      by (rule distri_Add_sound [OF added(3) sl_invarD(2) [OF inv added(1)]])
    then have "sl_invar lexcast (registered lexcast host port a d l)"
      using sl_invar_registered [OF inv added(1,2)] by blast
    then have "sl_invar lexcast l'"
      unfolding added(4) using added(5) slot by (intro sl_invar_set_item) (simp_all add: ServerItem_def)
    then show ?thesis using added(4) None new reg by simp
  qed
qed

lemma remove_step:
  assumes inv: "sl_invar lexcast l" and rem: "SL_Remove lexcast removed host port (l, w) = Inr (yes, l', w')"
  shows "sl_invar lexcast l' \<and> yes = (map_of (sl_servers l) (ToString lexcast host port) \<noteq> None) \<and>
    registry_of l' = rg_remove (ToString lexcast host port) (registry_of l)"
proof (cases "map_of (sl_servers l) (ToString lexcast host port)")
  case None
  then show ?thesis using inv rem by (auto simp: SL_Remove_def registry_of_def rg_remove_def fun_eq_iff)
next
  case (Some p)
  then have rem: "SL_Remove lexcast removed host port (l, w) = Inr (True, l', w')" "yes"
    using rem by (auto simp: SL_Remove_def Let_def res_simps split: option.splits)
  obtain a q where "l' = l\<lparr>sl_algorithms := (sl_algorithms l)(a := distri_Remove (sl_algorithms l a) q),
      sl_servers := AList.delete (ToString lexcast host port) (sl_servers l)\<rparr>"
    by (rule SL_RemoveE [OF rem(1)])
  then have "registry_of l' = rg_remove (ToString lexcast host port) (registry_of l)"
    by (simp add: registry_of_def rg_remove_def delete_conv')
  then show ?thesis using sl_invar_remove(1) [OF inv rem(1) Some] rem(2) Some by simp
qed

lemma list_step_simulates:
  assumes inv: "sl_invar lexcast l" and slot: "keeps_identity added"
    and step: "list_step b lexcast raw added removed opn (l, w) = Inr (answer, l', w')"
  shows "sl_invar lexcast l' \<and> registry_step lexcast opn (registry_of l) answer (registry_of l')"
proof (cases opn)
  case (ListAdd host port resolves)
  obtain res where res: "SL_Add lexcast raw added host port resolves (l, w) = (res, l', w')" "res \<noteq> Inl NullPointer"
      "answer = (case res of Inr yes \<Rightarrow> Answered yes | Inl e \<Rightarrow> Threw)"
    using step ListAdd by (auto split: prod.splits sum.splits fault.splits)
  note add = add_step [OF inv slot res(1,2)]
  show ?thesis
  proof (cases "map_of (sl_servers l) (ToString lexcast host port)")
    case (Some p)
    then show ?thesis using add res(3) ListAdd by (auto simp: registry_of_def intro: registry_step.add_old)
  next
    case None
    then have "registry_step lexcast (ListAdd host port resolves) (registry_of l) answer
        (rg_add (ToString lexcast host port) (registry_of l))"
      using add res(3) by (intro registry_step.add_new) (auto simp: registry_of_def split: sum.splits)
    then show ?thesis using add None ListAdd by simp
  qed
next
  case (ListRemove host port)
  then obtain yes where rem: "SL_Remove lexcast removed host port (l, w) = Inr (yes, l', w')" "answer = Answered yes"
    using step by (auto simp: res_simps)
  show ?thesis
    using remove_step [OF inv rem(1)] rem(2) ListRemove registry_step.remove [of lexcast host port "registry_of l"]
    by (simp add: registry_of_def)
next
  case (ListLookup host port)
  then show ?thesis
    using step inv registry_step.lookup [of lexcast host port "registry_of l"]
    by (auto simp: SL_Get_server_def registry_of_def)
next
  case ListCount
  have "card (dom (map_of (sl_servers l))) = length (sl_servers l)"
    using inv distinct_card [of "map fst (sl_servers l)"] by (simp add: dom_map_of_conv_image_fst sl_invar_def)
  then show ?thesis
    using step inv ListCount registry_step.count [of lexcast "registry_of l"] by (auto simp: SL_Count_def registry_of_def)
next
  case (ListGet key)
  then obtain found where get: "SL_Get b key l = Inr (found, l')" "answer = Found found"
    using step by (auto simp: res_simps)
  note sound = sl_invar_get [OF inv get(1)]
  have "found = None \<or> (\<exists>key'. found = rg_servers (registry_of l) key')"
  proof (cases found)
    case (Some p)
    then obtain k where "(k, p) \<in> set (sl_servers l)" using sound(3) by force
    then have "map_of (sl_servers l) k = Some p" using inv by (simp add: sl_invar_def)
    then show ?thesis using Some by (auto simp: registry_of_def intro!: exI [of _ k])
  qed simp
  moreover have "registry_of l' = registry_of l"
    using sound(2) get(1) by (auto simp: registry_of_def SL_Get_def res_simps split: option.splits)
  ultimately show ?thesis using sound(1) get(2) ListGet by (auto intro: registry_step.get)
qed

interpretation list_sim: simulation "list_step b lexcast raw added removed" "registry_step lexcast"
  "\<lambda>(l, w). registry_of l" "\<lambda>(l, w). sl_invar lexcast l \<and> keeps_identity added"
  for b lexcast raw added removed
  by unfold_locales (auto dest: list_step_simulates)

text \<open>
  C12 The server list refines the map: from a list that keeps its invariant, every series of operations
  gives answers that a finite map from keys to servers may give, and ends in a list whose servers are the
  map's.
\<close>

theorem server_list_refines:
  assumes "op_run (list_step b lexcast raw added removed) (l0, w0) trace (l, w)" "sl_invar lexcast l0"
    and "keeps_identity added"
  shows "spec_run (registry_step lexcast) (registry_of l0) trace (registry_of l) \<and> sl_invar lexcast l"
  using list_sim.run_simulates [OF assms(1)] assms(2,3) by simp

theorem server_list_refines_witness:
  "\<exists>l. op_run (list_step \<lparr>NDEBUG = False, HOST_LITTLE = True, ENDIAN_LITTLE = False\<rparr> decimal md5_blank
      (\<lambda>p s w. Inr (s, w)) (\<lambda>p s w. Inr w)) (two_servers, ()) [(ListRemove ''a'' 1, Answered True), (ListCount, Counted 1)] (l, ()) \<and>
    spec_run (registry_step decimal) (registry_of two_servers) [(ListRemove ''a'' 1, Answered True), (ListCount, Counted 1)] (registry_of l)"
proof -
  let ?l = "two_servers\<lparr>sl_servers := [(''b2'', 1)],
      sl_algorithms := (sl_algorithms two_servers)(7 := distri_Remove (sl_algorithms two_servers 7) 0)\<rparr>"
  let ?run = "op_run (list_step \<lparr>NDEBUG = False, HOST_LITTLE = True, ENDIAN_LITTLE = False\<rparr> decimal md5_blank
      (\<lambda>p s w. Inr (s, w)) (\<lambda>p s w. Inr w)) (two_servers, ())"
  have "?run ([] @ [(ListRemove ''a'' 1, Answered True)]) (?l, ())"
    by (rule op_run.step [OF op_run.start])
      (simp add: SL_Remove_def two_servers_simps ToString_def decimal_digits)
  then have "?run ([(ListRemove ''a'' 1, Answered True)] @ [(ListCount, Counted 1)]) (?l, ())"
    unfolding append_Nil by (rule op_run.step) (simp add: SL_Count_def)
  then have run: "?run [(ListRemove ''a'' 1, Answered True), (ListCount, Counted 1)] (?l, ())" by simp
  moreover have "keeps_identity (\<lambda>p s w. Inr (s, w))" by (simp add: keeps_identity_def)
  ultimately show ?thesis using server_list_refines [OF run two_servers_ok] by blast
qed

end
