(* ===== verification/Monitor.thy ===== *)
theory Monitor
  imports Simulation
begin

text \<open>
  Objects whose operations hold a \<^verbatim>\<open>boost::mutex\<close> (not recursive) through a \<^verbatim>\<open>unique_lock\<close> from their
  first line to their last, called by any number of threads. The body of an operation is a sequence
  of atomic steps on the shared state, between which other threads may run; \<open>run_body\<close> runs it
  alone. The locale \<open>monitor_object\<close> shows that what the threads do together is a series of
  whole operations, in the order in which they return.
\<close>

section \<open>Bodies\<close>

text \<open>
  \<open>Act f k\<close> changes the shared state by \<open>f\<close> and goes on with \<open>k\<close> of what it saw. \<open>Lock_Again\<close> is a
  call, from inside the body, of a member that takes the same mutex.
\<close>

datatype ('c, 'a) body =
    Return "'a res" | Act "'c \<Rightarrow> 'c" "'c \<Rightarrow> ('c, 'a) body" | Lock_Again "('c, 'a) body"

primrec run_body :: "('c, 'a) body \<Rightarrow> 'c \<Rightarrow> ('a \<times> 'c) res" where
  "run_body (Return r) c = andThen r (\<lambda>a. Inr (a, c))"
| "run_body (Act f k) c = run_body (k c) (f c)"
| "run_body (Lock_Again k) c = Inl Diverges"

text \<open>A step that may fail, and one body after another.\<close>

definition atomic :: "('c \<Rightarrow> ('a \<times> 'c) res) \<Rightarrow> ('c, 'a) body" where
  "atomic g =
     Act (\<lambda>c. case g c of Inl e \<Rightarrow> c | Inr (a, c') \<Rightarrow> c')
         (\<lambda>c. Return (case g c of Inl e \<Rightarrow> Inl e | Inr (a, c') \<Rightarrow> Inr a))"

primrec seq_body :: "('c, 'a) body \<Rightarrow> ('a \<Rightarrow> ('c, 'b) body) \<Rightarrow> ('c, 'b) body" where
  "seq_body (Return r) q = (case r of Inl e \<Rightarrow> Return (Inl e) | Inr a \<Rightarrow> q a)"
| "seq_body (Act f k) q = Act f (\<lambda>c. seq_body (k c) q)"
| "seq_body (Lock_Again k) q = Lock_Again (seq_body k q)"

lemma run_atomic [simp]: "run_body (atomic g) c = g c"
  by (auto simp: atomic_def split: sum.splits)

lemma run_seq_body [simp]: "run_body (seq_body b q) c = andThen (run_body b c) (\<lambda>(a, c). run_body (q a) c)"
  by (induction b arbitrary: c) (auto split: sum.splits)

section \<open>Threads\<close>

datatype ('o, 'c, 'a) thread = Idle | Waits 'o | Inside 'o "('c, 'a) body"

text \<open>\<open>mn_returned\<close> are the operations that have returned, with their answers, in that order.\<close>

record ('o, 'c, 'a) monitor =
  mn_shared :: 'c
  mn_owner :: "nat option"
  mn_threads :: "nat \<Rightarrow> ('o, 'c, 'a) thread"
  mn_returned :: "('o \<times> 'a) list"

definition monitor_start :: "'c \<Rightarrow> ('o, 'c, 'a) monitor" where
  "monitor_start c = \<lparr>mn_shared = c, mn_owner = None, mn_threads = (\<lambda>t. Idle), mn_returned = []\<rparr>"

definition set_thread :: "nat \<Rightarrow> ('o, 'c, 'a) thread \<Rightarrow> ('o, 'c, 'a) monitor \<Rightarrow> ('o, 'c, 'a) monitor" where
  "set_thread t th m = m\<lparr>mn_threads := (mn_threads m)(t := th)\<rparr>"

inductive monitor_step :: "('o \<Rightarrow> ('c, 'a) body) \<Rightarrow> ('o, 'c, 'a) monitor \<Rightarrow> ('o, 'c, 'a) monitor \<Rightarrow> bool"
  for body where
  call: "mn_threads m t = Idle \<Longrightarrow> monitor_step body m (set_thread t (Waits opn) m)"
| lock: "mn_threads m t = Waits opn \<Longrightarrow> mn_owner m = None \<Longrightarrow>
    monitor_step body m (set_thread t (Inside opn (body opn)) (m\<lparr>mn_owner := Some t\<rparr>))"
| act: "mn_threads m t = Inside opn (Act f k) \<Longrightarrow>
    monitor_step body m (set_thread t (Inside opn (k (mn_shared m))) (m\<lparr>mn_shared := f (mn_shared m)\<rparr>))"
| lock_again: "mn_threads m t = Inside opn (Lock_Again k) \<Longrightarrow> mn_owner m = None \<Longrightarrow>
    monitor_step body m (set_thread t (Inside opn k) (m\<lparr>mn_owner := Some t\<rparr>))"
| leave: "mn_threads m t = Inside opn (Return (Inr a)) \<Longrightarrow>
    monitor_step body m (set_thread t Idle (m\<lparr>mn_owner := None, mn_returned := mn_returned m @ [(opn, a)]\<rparr>))"

inductive monitor_run :: "('o \<Rightarrow> ('c, 'a) body) \<Rightarrow> ('o, 'c, 'a) monitor \<Rightarrow> ('o, 'c, 'a) monitor \<Rightarrow> bool"
  for body m0 where
  start: "monitor_run body m0 m0"
| step: "monitor_run body m0 m \<Longrightarrow> monitor_step body m m' \<Longrightarrow> monitor_run body m0 m'"

inductive_simps monitor_step_simps: "monitor_step body m m'"

lemma set_thread_simps [simp]:
  "mn_shared (set_thread t th m) = mn_shared m" "mn_owner (set_thread t th m) = mn_owner m"
  "mn_returned (set_thread t th m) = mn_returned m"
  "mn_threads (set_thread t th m) u = (if u = t then th else mn_threads m u)"
  by (simp_all add: set_thread_def)

lemma monitor_start_simps [simp]:
  "mn_shared (monitor_start c) = c" "mn_owner (monitor_start c) = None"
  "mn_threads (monitor_start c) t = Idle" "mn_returned (monitor_start c) = []"
  by (simp_all add: monitor_start_def)

lemma monitor_run_trans: "monitor_run body m1 m2 \<Longrightarrow> monitor_run body m0 m1 \<Longrightarrow> monitor_run body m0 m2"
  by (induction rule: monitor_run.induct) (auto intro: monitor_run.step)

lemma atomic_step:
  assumes "mn_threads m t = Inside opn (seq_body (atomic g) q)" "g (mn_shared m) = Inr (a, c)"
    and "monitor_run body m0 m"
  shows "monitor_run body m0 (set_thread t (Inside opn (q a)) (m\<lparr>mn_shared := c\<rparr>))"
  using monitor_run.step [OF assms(3) monitor_step.act] assms(1,2) by (fastforce simp: atomic_def)

section \<open>Mutual exclusion\<close>

definition is_inside :: "('o, 'c, 'a) monitor \<Rightarrow> nat \<Rightarrow> bool" where
  "is_inside m t \<longleftrightarrow> (\<exists>opn k. mn_threads m t = Inside opn k)"

text \<open>The threads inside a body are those that own the mutex.\<close>

definition exclusive :: "('o, 'c, 'a) monitor \<Rightarrow> bool" where
  "exclusive m \<longleftrightarrow> (\<forall>t. is_inside m t \<longleftrightarrow> mn_owner m = Some t)"

lemma exclusiveD: "exclusive m \<Longrightarrow> mn_threads m t = Inside opn k \<Longrightarrow> mn_owner m = Some t"
  by (auto simp: exclusive_def is_inside_def)

lemma is_inside_set_thread [simp]:
  "is_inside (set_thread t th m) u \<longleftrightarrow> (if u = t then \<exists>opn k. th = Inside opn k else is_inside m u)"
  by (simp add: is_inside_def)

lemma is_inside_simps [simp]:
  "is_inside (mn_shared_update f m) u = is_inside m u" "is_inside (mn_owner_update g m) u = is_inside m u"
  "is_inside (mn_returned_update h m) u = is_inside m u"
  by (simp_all add: is_inside_def)

lemma exclusive_step:
  assumes "monitor_step body m m'" "exclusive m"
  shows "exclusive m'"
proof -
  have inside: "is_inside m t \<longleftrightarrow> (case mn_threads m t of Inside opn k \<Rightarrow> True | _ \<Rightarrow> False)" for t
    by (auto simp: is_inside_def split: thread.splits)
  have own: "mn_owner m = Some t \<longleftrightarrow> is_inside m t" for t using assms(2) by (simp add: exclusive_def)
  from assms(1) show ?thesis
  proof (cases rule: monitor_step.cases)
    case (leave t opn a)
    then have "mn_owner m = Some t" using own inside by simp
    then have "\<not> is_inside m u" if "u \<noteq> t" for u using own [of u] that by simp
    then show ?thesis using leave by (simp add: exclusive_def)
  qed (use own inside in \<open>auto simp: exclusive_def\<close>)
qed

lemma exclusive_run: "monitor_run body m0 m \<Longrightarrow> exclusive m0 \<Longrightarrow> exclusive m"
  by (induction rule: monitor_run.induct) (auto dest: exclusive_step)

lemma exclusive_start [simp]: "exclusive (monitor_start c)"
  by (simp add: exclusive_def is_inside_def)

text \<open>A thread that locks the mutex it holds waits for itself, and so does everyone.\<close>

lemma lock_again_blocks:
  assumes "monitor_run body m m'" "exclusive m" "mn_threads m t = Inside opn (Lock_Again k)"
  shows "mn_owner m' = Some t \<and> mn_threads m' t = Inside opn (Lock_Again k) \<and>
    mn_shared m' = mn_shared m \<and> mn_returned m' = mn_returned m"
proof -
  have own: "mn_owner m = Some t" using assms(2,3) by (auto simp: exclusive_def is_inside_def)
  from assms(1) have "exclusive m' \<and> mn_owner m' = Some t \<and> mn_threads m' t = Inside opn (Lock_Again k) \<and>
      mn_shared m' = mn_shared m \<and> mn_returned m' = mn_returned m"
  proof (induction rule: monitor_run.induct)
    case start
    then show ?case using assms own by simp
  next
    case (step m1 m2)
    have only: "mn_threads m1 u = Inside opn' b \<Longrightarrow> u = t" for u opn' b
      using step.IH exclusiveD by fastforce
    have ex: "exclusive m2" using step exclusive_step by blast
    from step.hyps(2) show ?case
    proof (cases rule: monitor_step.cases)
      case (act u opn' f k')
      then show ?thesis using step.IH only [OF act(2)] by simp
    next
      case (leave u opn' a)
      then show ?thesis using step.IH only [OF leave(2)] by simp
    qed (use ex step.IH in auto)
  qed
  then show ?thesis by simp
qed

section \<open>What the threads do together\<close>

locale monitor_object =
  fixes body :: "'o \<Rightarrow> ('c, 'a) body"
    and cstep :: "'o \<Rightarrow> 'c \<Rightarrow> ('a \<times> 'c) res"
  assumes body_computes: "run_body (body opn) c = cstep opn c"
begin

text \<open>The operations that have returned ran one after the other up to \<open>c\<close>; one may be under way from there.\<close>

definition serial :: "'c \<Rightarrow> ('o, 'c, 'a) monitor \<Rightarrow> 'c \<Rightarrow> bool" where
  "serial c0 m c \<longleftrightarrow> op_run cstep c0 (mn_returned m) c \<and>
     (case mn_owner m of
        None \<Rightarrow> mn_shared m = c
      | Some t \<Rightarrow> \<exists>opn k. mn_threads m t = Inside opn k \<and> run_body k (mn_shared m) = cstep opn c)"

lemma serial_step:
  assumes "monitor_step body m m'" "exclusive m" "serial c0 m c"
  shows "\<exists>c'. serial c0 m' c'"
  using assms(1)
proof (cases rule: monitor_step.cases)
  case (call t opn)
  then show ?thesis using assms by (intro exI [of _ c]) (auto simp: serial_def split: option.splits)
next
  case (lock t opn)
  then show ?thesis using assms body_computes by (intro exI [of _ c]) (auto simp: serial_def)
next
  case (act t opn f k)
  then have "mn_owner m = Some t" using assms(2) by (auto simp: exclusive_def is_inside_def)
  then show ?thesis using assms act by (intro exI [of _ c]) (auto simp: serial_def)
next
  case (lock_again t opn k)
  then show ?thesis using assms(2) by (auto simp: exclusive_def is_inside_def)
next
  case (leave t opn a)
  then have own: "mn_owner m = Some t" using assms(2) by (auto simp: exclusive_def is_inside_def)
  then have "cstep opn c = Inr (a, mn_shared m)" using assms(3) leave by (auto simp: serial_def)
  then have "op_run cstep c0 (mn_returned m @ [(opn, a)]) (mn_shared m)"
    using assms(3) by (auto simp: serial_def intro: op_run.step)
  then show ?thesis using leave by (intro exI [of _ "mn_shared m"]) (simp add: serial_def)
qed

lemma serial_run:
  assumes "monitor_run body (monitor_start c0) m"
  shows "\<exists>c. serial c0 m c"
  using assms
proof (induction rule: monitor_run.induct)
  case start
  then show ?case by (auto simp: serial_def intro: op_run.start)
next
  case (step m m')
  then show ?case using serial_step exclusive_run [OF step.hyps(1)] by auto
qed

lemma between_operations:
  assumes "monitor_run body (monitor_start c0) m" "mn_owner m = None"
  shows "op_run cstep c0 (mn_returned m) (mn_shared m)"
  using serial_run [OF assms(1)] assms(2) by (auto simp: serial_def)

text \<open>An operation that returns when it runs alone can always be finished, and whoever waits is next.\<close>

lemma body_finishes:
  assumes "run_body k (mn_shared m) = Inr (a, c)" "mn_threads m t = Inside opn k"
  shows "monitor_run body m (set_thread t Idle (m\<lparr>mn_shared := c, mn_owner := None,
      mn_returned := mn_returned m @ [(opn, a)]\<rparr>))"
  using assms
proof (induction k arbitrary: m)
  case (Return r)
  then have "r = Inr a" "c = mn_shared m" by (auto simp: res_simps)
  then show ?case using Return monitor_step.leave [of m t opn a body] monitor_run.intros by fastforce
next
  case (Act f k)
  let ?m = "set_thread t (Inside opn (k (mn_shared m))) (m\<lparr>mn_shared := f (mn_shared m)\<rparr>)"
  have "monitor_run body m ?m" using Act.prems by (blast intro: monitor_run.intros monitor_step.act)
  moreover have "monitor_run body ?m (set_thread t Idle (?m\<lparr>mn_shared := c, mn_owner := None,
      mn_returned := mn_returned ?m @ [(opn, a)]\<rparr>))"
    by (rule Act.IH) (use Act.prems in auto)
  ultimately have "monitor_run body m (set_thread t Idle (?m\<lparr>mn_shared := c, mn_owner := None,
      mn_returned := mn_returned ?m @ [(opn, a)]\<rparr>))" by (rule monitor_run_trans [rotated])
  then show ?case by (simp add: set_thread_def)
next
  case (Lock_Again k)
  then show ?case by simp
qed

lemma call_returns:
  assumes "mn_owner m = None" "mn_threads m t = Waits opn" "cstep opn (mn_shared m) = Inr (a, c)"
  shows "monitor_run body m (set_thread t Idle (m\<lparr>mn_shared := c, mn_returned := mn_returned m @ [(opn, a)]\<rparr>))"
proof -
  let ?m = "set_thread t (Inside opn (body opn)) (m\<lparr>mn_owner := Some t\<rparr>)"
  have "monitor_run body m ?m" using assms by (blast intro: monitor_run.intros monitor_step.lock)
  moreover have "monitor_run body ?m (set_thread t Idle (?m\<lparr>mn_shared := c, mn_owner := None,
      mn_returned := mn_returned ?m @ [(opn, a)]\<rparr>))"
    by (rule body_finishes) (use assms body_computes in auto)
  ultimately have "monitor_run body m (set_thread t Idle (?m\<lparr>mn_shared := c, mn_owner := None,
      mn_returned := mn_returned ?m @ [(opn, a)]\<rparr>))" by (rule monitor_run_trans [rotated])
  moreover have "set_thread t Idle (?m\<lparr>mn_shared := c, mn_owner := None,
      mn_returned := mn_returned ?m @ [(opn, a)]\<rparr>) =
    set_thread t Idle (m\<lparr>mn_shared := c, mn_returned := mn_returned m @ [(opn, a)]\<rparr>)"
    using assms(1) by (simp add: set_thread_def)
  ultimately show ?thesis by simp
qed

end

text \<open>With a specification of the single operation: the returned operations are a series of it.\<close>

locale monitored_simulation = monitor_object body cstep + simulation cstep astep view keep
  for body :: "'o \<Rightarrow> ('c, 'a) body" and cstep astep and view :: "'c \<Rightarrow> 's" and keep
begin

lemma threads_simulate:
  assumes "monitor_run body (monitor_start c0) m" "keep c0"
  shows "\<exists>c. spec_run astep (view c0) (mn_returned m) (view c) \<and> keep c \<and> (mn_owner m = None \<longrightarrow> mn_shared m = c)"
proof -
  obtain c where c: "serial c0 m c" using serial_run [OF assms(1)] by blast
  then have "op_run cstep c0 (mn_returned m) c" by (simp add: serial_def)
  from run_simulates [OF this assms(2)] c show ?thesis by (auto simp: serial_def)
qed

end

end
