(* ===== verification/Server_Threads.thy ===== *)
theory Server_Threads
  imports Server_Registry Monitor
begin

text \<open>
  \<^verbatim>\<open>ServerList\<close> used by several threads: \<^verbatim>\<open>Add\<close>, \<^verbatim>\<open>Remove\<close>, both \<^verbatim>\<open>Get\<close>s and \<^verbatim>\<open>Count\<close> hold \<^verbatim>\<open>mMutex\<close>, and their
  bodies are written out step by step, as other threads can run between the steps. \<^verbatim>\<open>Items()\<close> takes
  no lock: it reads the shared list of any state.
\<close>

section \<open>The bodies of the operations\<close>

definition look :: "('c \<Rightarrow> 'a) \<Rightarrow> ('c, 'a) body" where
  "look f = atomic (\<lambda>c. Inr (f c, c))"

text \<open>An exception leaves the operation and is what the caller gets; any other fault ends the program.\<close>

definition give_up :: "fault \<Rightarrow> ('c, list_answer) body" where
  "give_up e = Return (case e of Throws x \<Rightarrow> Inr Threw | _ \<Rightarrow> Inl e)"

definition insert_server ::
    "(int \<Rightarrow> string) \<Rightarrow> string \<Rightarrow> int \<Rightarrow> server_list \<times> 'w \<Rightarrow> (ptr \<times> server_list \<times> 'w) res" where
  "insert_server lexcast host port lw =
     (let (l, w) = lw; p = sl_next l
      in Inr (p, set_item p (ServerItem host port 1)
           (l\<lparr>sl_servers := sl_servers l @ [(ToString lexcast host port, p)], sl_next := Suc p\<rparr>), w))"

definition distribute_server ::
    "(int \<Rightarrow> string) \<Rightarrow> md5 \<Rightarrow> ptr \<Rightarrow> server_list \<times> 'w \<Rightarrow> (unit res \<times> server_list \<times> 'w) res" where
  "distribute_server lexcast raw p lw =
     (let (l, w) = lw
      in case sl_algorithm l of None \<Rightarrow> Inr (Inl NullPointer, l, w)
         | Some a \<Rightarrow> (case distri_Add lexcast raw (sl_items l) (sl_algorithms l a) p of
             Inl e \<Rightarrow> Inr (Inl e, l, w)
           | Inr d \<Rightarrow> Inr (Inr (), l\<lparr>sl_algorithms := (sl_algorithms l)(a := d)\<rparr>, w)))"

definition connect_server ::
    "bool \<Rightarrow> ptr \<Rightarrow> server_list \<times> 'w \<Rightarrow> (unit res \<times> server_list \<times> 'w) res" where
  "connect_server resolves p lw =
     (let (l, w) = lw
      in case Connect resolves (si_socket (sl_items l p)) of
           Inl e \<Rightarrow> Inr (Inl e, l, w)
         | Inr c \<Rightarrow> Inr (Inr (), set_item p ((sl_items l p)\<lparr>si_socket := c\<rparr>) l, w))"

definition call_added ::
    "'w added_slot \<Rightarrow> ptr \<Rightarrow> server_list \<times> 'w \<Rightarrow> (unit res \<times> server_list \<times> 'w) res" where
  "call_added added p lw =
     (let (l, w) = lw
      in case added p (sl_items l p) w of
           Inl e \<Rightarrow> Inr (Inl e, l, w)
         | Inr (s, w) \<Rightarrow> Inr (Inr (), set_item p s l, w))"

text \<open>\<open>slot\<close> are the slots of \<^verbatim>\<open>OnServerAdded\<close>, which the list calls with its mutex held.\<close>

definition Add_body ::
    "(int \<Rightarrow> string) \<Rightarrow> md5 \<Rightarrow> (ptr \<Rightarrow> (server_list \<times> 'w, unit res) body) \<Rightarrow> string \<Rightarrow> int \<Rightarrow> bool
      \<Rightarrow> (server_list \<times> 'w, list_answer) body" where
  "Add_body lexcast raw slot host port resolves =
     seq_body (look (\<lambda>(l, w). map_of (sl_servers l) (ToString lexcast host port))) (\<lambda>found.
     case found of
       Some p \<Rightarrow> Return (Inr (Answered False))
     | None \<Rightarrow>
         seq_body (atomic (insert_server lexcast host port)) (\<lambda>p.
         seq_body (atomic (distribute_server lexcast raw p)) (case_sum give_up (\<lambda>_.
         seq_body (atomic (connect_server resolves p)) (case_sum give_up (\<lambda>_.
         seq_body (slot p) (case_sum give_up (\<lambda>_. Return (Inr (Answered True))))))))))"

definition distribute_remove :: "ptr \<Rightarrow> server_list \<times> 'w \<Rightarrow> (unit \<times> server_list \<times> 'w) res" where
  "distribute_remove p lw =
     (let (l, w) = lw
      in case sl_algorithm l of None \<Rightarrow> Inl NullPointer
         | Some a \<Rightarrow>
             Inr ((), l\<lparr>sl_algorithms := (sl_algorithms l)(a := distri_Remove (sl_algorithms l a) p)\<rparr>, w))"

definition call_removed :: "'w removed_slot \<Rightarrow> ptr \<Rightarrow> server_list \<times> 'w \<Rightarrow> (unit \<times> server_list \<times> 'w) res" where
  "call_removed removed p lw =
     (let (l, w) = lw in andThen (removed p (sl_items l p) w) (\<lambda>w. Inr ((), l, w)))"

definition erase_entry :: "string \<Rightarrow> server_list \<times> 'w \<Rightarrow> (unit \<times> server_list \<times> 'w) res" where
  "erase_entry key lw =
     (let (l, w) = lw in Inr ((), l\<lparr>sl_servers := AList.delete key (sl_servers l)\<rparr>, w))"

definition Remove_body ::
    "(int \<Rightarrow> string) \<Rightarrow> 'w removed_slot \<Rightarrow> string \<Rightarrow> int \<Rightarrow> (server_list \<times> 'w, list_answer) body" where
  "Remove_body lexcast removed host port =
     seq_body (look (\<lambda>(l, w). map_of (sl_servers l) (ToString lexcast host port))) (\<lambda>found.
     case found of
       None \<Rightarrow> Return (Inr (Answered False))
     | Some p \<Rightarrow>
         seq_body (atomic (distribute_remove p)) (\<lambda>_.
         seq_body (atomic (call_removed removed p)) (\<lambda>_.
         seq_body (atomic (erase_entry (ToString lexcast host port))) (\<lambda>_.
         Return (Inr (Answered True))))))"

definition Get_body :: "build \<Rightarrow> string \<Rightarrow> (server_list \<times> 'w, list_answer) body" where
  "Get_body b key =
     seq_body (atomic (\<lambda>(l, w). andThen (SL_Get b key l) (\<lambda>(r, l). Inr (r, l, w)))) (\<lambda>r.
     Return (Inr (Found r)))"

definition Get_server_body :: "(int \<Rightarrow> string) \<Rightarrow> string \<Rightarrow> int \<Rightarrow> (server_list \<times> 'w, list_answer) body" where
  "Get_server_body lexcast host port =
     seq_body (look (\<lambda>(l, w). SL_Get_server lexcast host port l)) (\<lambda>r. Return (Inr (Found r)))"

definition Count_body :: "(server_list \<times> 'w, list_answer) body" where
  "Count_body = seq_body (look (\<lambda>(l, w). SL_Count l)) (\<lambda>n. Return (Inr (Counted n)))"

fun list_body ::
    "build \<Rightarrow> (int \<Rightarrow> string) \<Rightarrow> md5 \<Rightarrow> (ptr \<Rightarrow> (server_list \<times> 'w, unit res) body) \<Rightarrow> 'w removed_slot \<Rightarrow> list_op
      \<Rightarrow> (server_list \<times> 'w, list_answer) body" where
  "list_body b lexcast raw slot removed (ListAdd host port resolves) =
     Add_body lexcast raw slot host port resolves"
| "list_body b lexcast raw slot removed (ListRemove host port) = Remove_body lexcast removed host port"
| "list_body b lexcast raw slot removed (ListLookup host port) = Get_server_body lexcast host port"
| "list_body b lexcast raw slot removed ListCount = Count_body"
| "list_body b lexcast raw slot removed (ListGet key) = Get_body b key"

text \<open>A slot that does not call the list again, as the one of the client, is one step.\<close>

definition plain_slot :: "'w added_slot \<Rightarrow> ptr \<Rightarrow> (server_list \<times> 'w, unit res) body" where
  "plain_slot added p = atomic (call_added added p)"

section \<open>Run alone, the bodies are the operations\<close>

lemma run_look [simp]: "run_body (look f) c = Inr (f c, c)"
  by (simp add: look_def)

lemma run_give_up [simp]:
  "run_body (give_up e) c = (case e of Throws x \<Rightarrow> Inr (Threw, c) | _ \<Rightarrow> Inl e)"
  by (cases e) (simp_all add: give_up_def)

lemmas add_steps = insert_server_def distribute_server_def connect_server_def call_added_def

lemmas remove_steps = distribute_remove_def call_removed_def erase_entry_def

lemma run_Add_body:
  "run_body (list_body b lexcast raw (plain_slot added) removed (ListAdd host port resolves)) (l, w) =
     list_step b lexcast raw added removed (ListAdd host port resolves) (l, w)"
  by (auto simp: Add_body_def plain_slot_def SL_Add_def add_steps set_item_def Let_def
      split: option.splits sum.splits fault.splits)

lemma run_Remove_body:
  "run_body (list_body b lexcast raw (plain_slot added) removed (ListRemove host port)) (l, w) =
     list_step b lexcast raw added removed (ListRemove host port) (l, w)"
proof (cases "map_of (sl_servers l) (ToString lexcast host port)")
  case (Some p)
  then show ?thesis
    by (cases "sl_algorithm l"; cases "removed p (sl_items l p) w")
      (simp_all add: Remove_body_def SL_Remove_def remove_steps Let_def)
qed (simp add: Remove_body_def SL_Remove_def)

lemma run_list_body:
  "run_body (list_body b lexcast raw (plain_slot added) removed opn) lw = list_step b lexcast raw added removed opn lw"
proof -
  obtain l w where lw: "lw = (l, w)" by (cases lw)
  show ?thesis
  proof (cases opn)
    case (ListAdd host port resolves)
    then show ?thesis unfolding lw by (simp only: run_Add_body)
  next
    case (ListRemove host port)
    then show ?thesis unfolding lw by (simp only: run_Remove_body)
  next
    case (ListGet key)
    then show ?thesis unfolding lw
      by (cases "SL_Get b key l") (auto simp: Get_body_def)
  qed (simp_all add: lw Get_server_body_def Count_body_def)
qed

interpretation list_threads: monitored_simulation "list_body b lexcast raw (plain_slot added) removed"
  "list_step b lexcast raw added removed" "registry_step lexcast"
  "\<lambda>(l, w). registry_of l" "\<lambda>(l, w). sl_invar lexcast l \<and> keeps_identity added"
  for b lexcast raw added removed
  by unfold_locales (rule run_list_body)

section \<open>Inside \<^verbatim>\<open>Add\<close>\<close>

text \<open>The only thread that has called runs \<^verbatim>\<open>Add\<close> and has got to \<open>k\<close>.\<close>

definition adding where
  "adding opn k lw m \<longleftrightarrow> mn_threads m 0 = Inside opn k \<and> mn_owner m = Some 0 \<and> mn_shared m = lw \<and> mn_returned m = []"

lemma adding_step:
  assumes "adding opn (seq_body (atomic g) q) lw m" "g lw = Inr (a, lw')"
    and "monitor_run body m0 m"
  shows "\<exists>m'. monitor_run body m0 m' \<and> adding opn (q a) lw' m'"
  using atomic_step [OF _ _ assms(3), of 0 opn g q a lw'] assms(1,2) unfolding adding_def by fastforce

lemma adding_start:
  "\<exists>m. monitor_run body (monitor_start lw) m \<and> adding opn (body opn) lw m"
proof -
  let ?m1 = "set_thread 0 (Waits opn) (monitor_start lw)"
  let ?m2 = "set_thread 0 (Inside opn (body opn)) (?m1\<lparr>mn_owner := Some 0\<rparr>)"
  have "monitor_run body (monitor_start lw) ?m1" by (rule monitor_run.step [OF monitor_run.start monitor_step.call]) simp
  then have "monitor_run body (monitor_start lw) ?m2" by (rule monitor_run.step) (rule monitor_step.lock, simp_all)
  then show ?thesis by (intro exI [of _ ?m2]) (simp add: adding_def)
qed

lemma Add_inserts:
  assumes "map_of (sl_servers l) (ToString lexcast host port) = None"
  defines "l1 \<equiv> set_item (sl_next l) (ServerItem host port 1)
      (l\<lparr>sl_servers := sl_servers l @ [(ToString lexcast host port, sl_next l)], sl_next := Suc (sl_next l)\<rparr>)"
  shows "\<exists>m. monitor_run (list_body b lexcast raw slot removed) (monitor_start (l, w)) m \<and>
    adding (ListAdd host port resolves)
      (seq_body (atomic (distribute_server lexcast raw (sl_next l))) (case_sum give_up (\<lambda>_.
         seq_body (atomic (connect_server resolves (sl_next l))) (case_sum give_up (\<lambda>_.
         seq_body (slot (sl_next l)) (case_sum give_up (\<lambda>_. Return (Inr (Answered True)))))))))
      (l1, w) m"
proof -
  obtain m0 where m0: "monitor_run (list_body b lexcast raw slot removed) (monitor_start (l, w)) m0"
    "adding (ListAdd host port resolves) (Add_body lexcast raw slot host port resolves) (l, w) m0"
    using adding_start [of "list_body b lexcast raw slot removed" "(l, w)" "ListAdd host port resolves"] by auto
  obtain m1 where m1: "monitor_run (list_body b lexcast raw slot removed) (monitor_start (l, w)) m1"
    "adding (ListAdd host port resolves) (seq_body (atomic (insert_server lexcast host port)) (\<lambda>p.
         seq_body (atomic (distribute_server lexcast raw p)) (case_sum give_up (\<lambda>_.
         seq_body (atomic (connect_server resolves p)) (case_sum give_up (\<lambda>_.
         seq_body (slot p) (case_sum give_up (\<lambda>_. Return (Inr (Answered True)))))))))) (l, w) m1"
    using adding_step [OF m0(2) [unfolded Add_body_def look_def] _ m0(1)] assms(1) by fastforce
  have "insert_server lexcast host port (l, w) = Inr (sl_next l, l1, w)"
    by (simp add: insert_server_def l1_def Let_def)
  from adding_step [OF m1(2) this m1(1)] show ?thesis .
qed

lemma Add_calls_slot:
  assumes "sl_invar lexcast l" "can_add lexcast raw host port a l"
  shows "\<exists>m l2. monitor_run (list_body b lexcast raw slot removed) (monitor_start (l, w)) m \<and>
    adding (ListAdd host port True)
      (seq_body (slot (sl_next l)) (case_sum give_up (\<lambda>_. Return (Inr (Answered True))))) (l2, w) m"
proof -
  let ?p = "sl_next l" and ?opn = "ListAdd host port True"
  let ?body = "list_body b lexcast raw slot removed"
  note add = can_addD [OF assms(2)]
  define l1 where "l1 = set_item ?p (ServerItem host port 1)
      (l\<lparr>sl_servers := sl_servers l @ [(ToString lexcast host port, ?p)], sl_next := Suc ?p\<rparr>)"
  obtain m1 where m1: "monitor_run ?body (monitor_start (l, w)) m1"
    "adding ?opn (seq_body (atomic (distribute_server lexcast raw ?p)) (case_sum give_up (\<lambda>_.
         seq_body (atomic (connect_server True ?p)) (case_sum give_up (\<lambda>_.
         seq_body (slot ?p) (case_sum give_up (\<lambda>_. Return (Inr (Answered True))))))))) (l1, w) m1"
    using Add_inserts [OF add(2), where slot = slot and b = b and removed = removed and w = w and raw = raw
        and resolves = True] unfolding l1_def by (elim exE conjE)
  obtain d where "distri_Add lexcast raw ((sl_items l)(?p := ServerItem host port 1)) (sl_algorithms l a) ?p = Inr d"
    using register [OF assms] by blast
  then have "distribute_server lexcast raw ?p (l1, w) =
      Inr (Inr (), l1\<lparr>sl_algorithms := (sl_algorithms l1)(a := d)\<rparr>, w)"
    using add(1) by (simp add: distribute_server_def l1_def set_item_def)
  from adding_step [OF m1(2) this m1(1)] obtain m2 l2 where
    m2: "monitor_run ?body (monitor_start (l, w)) m2"
    "adding ?opn (seq_body (atomic (connect_server True ?p)) (case_sum give_up (\<lambda>_.
         seq_body (slot ?p) (case_sum give_up (\<lambda>_. Return (Inr (Answered True))))))) (l2, w) m2"
    by auto
  obtain l3 where "connect_server True ?p (l2, w) = Inr (Inr (), l3, w)"
    by (simp add: connect_server_def Connect_def)
  from adding_step [OF m2(2) this m2(1)] show ?thesis by auto
qed

text \<open>
  \<^verbatim>\<open>Items()\<close> takes no lock. A copy made while another thread is inside \<^verbatim>\<open>Add\<close> can hold a server that
  no key can be given to and whose handlers are not set.
\<close>

theorem items_sees_half_added:
  assumes "sl_invar lexcast l" "can_add lexcast raw host port a l"
  shows "\<exists>m l'. monitor_run (list_body b lexcast raw slot removed) (monitor_start (l, w)) m \<and> mn_shared m = (l', w) \<and>
    (ToString lexcast host port, sl_next l) \<in> set (SL_Items l') \<and>
    sl_next l \<notin> distri_servers (sl_algorithms l' a) \<and> \<not> handlersSet (si_socket (sl_items l' (sl_next l)))"
proof -
  let ?l1 = "set_item (sl_next l) (ServerItem host port 1)
      (l\<lparr>sl_servers := sl_servers l @ [(ToString lexcast host port, sl_next l)], sl_next := Suc (sl_next l)\<rparr>)"
  have "sl_next l \<notin> distri_servers (sl_algorithms ?l1 a)"
    using sl_invarD(1) [OF assms(1)] sl_invarD(3) [OF assms(1) can_addD(1) [OF assms(2)]]
    by (simp add: set_item_def) blast
  then show ?thesis
    using Add_inserts [OF can_addD(2) [OF assms(2)]] unfolding adding_def
    by (fastforce simp: SL_Items_def ServerItem_def TcpClient_def)
qed

section \<open>Properties\<close>

text \<open>
  C13 Threads that call the list at the same time get the answers that a finite map from keys to
  servers may give to their calls, one after the other in the order in which they return. A state in
  which nobody holds the mutex is one the series leads to, and keeps the invariant of the list.
\<close>

theorem server_list_threads:
  assumes "monitor_run (list_body b lexcast raw (plain_slot added) removed) (monitor_start (l0, w0)) m"
    and "sl_invar lexcast l0" "keeps_identity added"
  shows "\<exists>l. spec_run (registry_step lexcast) (registry_of l0) (mn_returned m) (registry_of l) \<and>
    sl_invar lexcast l \<and> (mn_owner m = None \<longrightarrow> fst (mn_shared m) = l \<and>
      (\<forall>t opn answer lw. mn_threads m t = Waits opn \<longrightarrow>
        list_step b lexcast raw added removed opn (mn_shared m) = Inr (answer, lw) \<longrightarrow>
        (\<exists>m'. monitor_run (list_body b lexcast raw (plain_slot added) removed) m m' \<and>
          mn_returned m' = mn_returned m @ [(opn, answer)] \<and> mn_shared m' = lw)))"
proof -
  have next_call: "\<exists>m'. monitor_run (list_body b lexcast raw (plain_slot added) removed) m m' \<and>
      mn_returned m' = mn_returned m @ [(opn, answer)] \<and> mn_shared m' = lw"
    if "mn_owner m = None" "mn_threads m t = Waits opn"
      "list_step b lexcast raw added removed opn (mn_shared m) = Inr (answer, lw)" for t opn answer lw
    by (intro exI conjI, rule list_threads.call_returns [OF that]) simp_all
  show ?thesis
    using list_threads.threads_simulate [OF assms(1)] assms(2,3) next_call by fastforce
qed

lemma two_threads_run:
  "\<exists>m. monitor_run (list_body \<lparr>NDEBUG = False, HOST_LITTLE = True, ENDIAN_LITTLE = False\<rparr> decimal md5_blank
      (plain_slot (\<lambda>p s w. Inr (s, w))) (\<lambda>p s w. Inr w)) (monitor_start (two_servers, ())) m \<and>
    mn_returned m = [(ListRemove ''a'' 1, Answered True)] \<and> mn_owner m = None \<and> mn_threads m 1 = Waits ListCount"
proof -
  let ?b = "\<lparr>NDEBUG = False, HOST_LITTLE = True, ENDIAN_LITTLE = False\<rparr>"
  let ?body = "list_body ?b decimal md5_blank (plain_slot (\<lambda>p s w. Inr (s, w))) (\<lambda>p s w. Inr w)"
  let ?m1 = "set_thread 0 (Waits (ListRemove ''a'' 1))
      (monitor_start (two_servers, ()) :: (list_op, server_list \<times> unit, list_answer) monitor)"
  let ?m2 = "set_thread 1 (Waits ListCount) ?m1"
  have "monitor_run ?body (monitor_start (two_servers, ())) ?m1"
    by (rule monitor_run.step [OF monitor_run.start monitor_step.call]) simp
  then have run: "monitor_run ?body (monitor_start (two_servers, ())) ?m2"
    by (rule monitor_run.step [OF _ monitor_step.call]) simp
  have "\<exists>lw. list_step ?b decimal md5_blank (\<lambda>p s w. Inr (s, w)) (\<lambda>p s w. Inr w) (ListRemove ''a'' 1)
      (two_servers, ()) = Inr (Answered True, lw)"
    by (simp add: SL_Remove_def two_servers_simps ToString_def decimal_digits)
  then obtain lw where "list_step ?b decimal md5_blank (\<lambda>p s w. Inr (s, w)) (\<lambda>p s w. Inr w) (ListRemove ''a'' 1)
      (mn_shared ?m2) = Inr (Answered True, lw)" by auto
  from list_threads.call_returns [OF _ _ this, of 0] show ?thesis
    by (intro exI conjI, rule monitor_run_trans [OF _ run]) simp_all
qed

theorem server_list_threads_witness:
  "\<exists>l. spec_run (registry_step decimal) (registry_of two_servers) [(ListRemove ''a'' 1, Answered True)] (registry_of l) \<and>
    sl_invar decimal l"
proof -
  obtain m where m: "monitor_run (list_body \<lparr>NDEBUG = False, HOST_LITTLE = True, ENDIAN_LITTLE = False\<rparr> decimal md5_blank
      (plain_slot (\<lambda>p s w. Inr (s, w))) (\<lambda>p s w. Inr w)) (monitor_start (two_servers, ())) m"
    "mn_returned m = [(ListRemove ''a'' 1, Answered True)]" using two_threads_run by blast
  have "keeps_identity (\<lambda>p s w. Inr (s, w))" by (simp add: keeps_identity_def)
  from server_list_threads [OF m(1) two_servers_ok this] m(2) show ?thesis by auto
qed

text \<open>
  C25 The mutex is not recursive and is held while the slots run: when a slot of \<^verbatim>\<open>OnServerAdded\<close> calls an
  operation of the list, \<^verbatim>\<open>Add\<close> can get to a state from which no call of any thread ever returns.
\<close>

theorem slot_that_calls_list_blocks:
  assumes "sl_invar lexcast l" "can_add lexcast raw host port a l" "slot (sl_next l) = Lock_Again k"
  shows "\<exists>m. monitor_run (list_body b lexcast raw slot removed) (monitor_start (l, w)) m \<and>
    (\<forall>m'. monitor_run (list_body b lexcast raw slot removed) m m' \<longrightarrow>
      mn_owner m' = Some 0 \<and> mn_returned m' = [] \<and> mn_shared m' = mn_shared m)"
proof -
  obtain m l2 where m: "monitor_run (list_body b lexcast raw slot removed) (monitor_start (l, w)) m"
    "adding (ListAdd host port True)
      (Lock_Again (seq_body k (case_sum give_up (\<lambda>_. Return (Inr (Answered True)))))) (l2, w) m"
    using Add_calls_slot [OF assms(1,2), where slot = slot and b = b and removed = removed and w = w]
    unfolding assms(3) seq_body.simps by (elim exE conjE)
  have ex: "exclusive m" by (rule exclusive_run [OF m(1)]) simp
  have "mn_owner m' = Some 0 \<and> mn_returned m' = [] \<and> mn_shared m' = mn_shared m"
    if "monitor_run (list_body b lexcast raw slot removed) m m'" for m'
    using lock_again_blocks [OF that ex] m(2) by (auto simp: adding_def)
  with m(1) show ?thesis by blast
qed

theorem slot_that_calls_list_blocks_witness:
  "\<exists>m. mn_owner m = Some 0 \<and> mn_returned m = [] \<and>
    monitor_run (list_body \<lparr>NDEBUG = False, HOST_LITTLE = True, ENDIAN_LITTLE = False\<rparr> decimal md5_blank
      (\<lambda>p. Lock_Again (Return (Inr (Inr ())))) (\<lambda>p s w. Inr w)) (monitor_start (modulo_list, ())) m"
proof -
  let ?body = "list_body \<lparr>NDEBUG = False, HOST_LITTLE = True, ENDIAN_LITTLE = False\<rparr> decimal md5_blank
      (\<lambda>p. Lock_Again (Return (Inr (Inr ())))) (\<lambda>p s w. Inr w)"
  obtain m where "monitor_run ?body (monitor_start (modulo_list, ())) m"
    "\<forall>m'. monitor_run ?body m m' \<longrightarrow> mn_owner m' = Some 0 \<and> mn_returned m' = [] \<and> mn_shared m' = mn_shared m"
    using slot_that_calls_list_blocks [OF modulo_list_ok, where slot = "\<lambda>p. Lock_Again (Return (Inr (Inr ())))"
        and b = "\<lparr>NDEBUG = False, HOST_LITTLE = True, ENDIAN_LITTLE = False\<rparr>" and removed = "\<lambda>p s w. Inr w" and w = "()",
        OF refl] by (elim exE conjE)
  then show ?thesis using monitor_run.start [of ?body m] by blast
qed

end
