(* ===== verification/Protocol.thy ===== *)
theory Protocol
  imports Byte_Order Md5
begin

text \<open>
  The requests the client puts on the wire: the headers and buffers built by
  \<^verbatim>\<open>memcachedClient/Mem*.cpp\<close> and \<^verbatim>\<open>MemcachedClient::AdjustEndian\<close>.

  \<^verbatim>\<open>memcached/protocol_binary.h\<close> belongs to memcached. What the sources use of it (the magic
  byte, the opcodes, the sizes of the request structures and the offsets of their members)
  is the parameter \<open>protocol\<close>; \<open>binary_protocol\<close> states the documented values. A server's
  view of a byte stream is the reference \<open>parse_request\<close>, the framing of the binary protocol.
\<close>

section \<open>The header file of memcached\<close>

datatype command =
    CMD_GETQ | CMD_SET | CMD_ADD | CMD_REPLACE | CMD_DELETE | CMD_INCREMENT | CMD_DECREMENT
  | CMD_FLUSH | CMD_VERSION | CMD_APPEND | CMD_PREPEND | CMD_STAT

datatype req_struct =
    request_get | request_set | request_delete | request_incr | request_flush
  | request_version | request_append | request_stats

datatype member =
    m_magic | m_opcode | m_keylen | m_extlen | m_datatype | m_reserved | m_bodylen | m_opaque | m_cas
  | m_set_flags | m_set_expiration
  | m_incr_delta | m_incr_initial | m_incr_expiration
  | m_flush_expiration
  | m_resp_keylen | m_resp_extlen | m_resp_status | m_resp_bodylen | m_resp_opaque | m_resp_cas

record protocol =
  PROTOCOL_BINARY_REQ :: u8
  opcode_of :: "command \<Rightarrow> u8"
  sizeof :: "req_struct \<Rightarrow> nat"
  offsetof :: "member \<Rightarrow> nat"

fun wire_opcode :: "command \<Rightarrow> u8" where
  "wire_opcode CMD_GETQ = 0x09" | "wire_opcode CMD_SET = 0x01" | "wire_opcode CMD_ADD = 0x02"
| "wire_opcode CMD_REPLACE = 0x03" | "wire_opcode CMD_DELETE = 0x04"
| "wire_opcode CMD_INCREMENT = 0x05" | "wire_opcode CMD_DECREMENT = 0x06"
| "wire_opcode CMD_FLUSH = 0x08" | "wire_opcode CMD_VERSION = 0x0b"
| "wire_opcode CMD_APPEND = 0x0e" | "wire_opcode CMD_PREPEND = 0x0f" | "wire_opcode CMD_STAT = 0x10"

fun wire_offset :: "member \<Rightarrow> nat" where
  "wire_offset m_magic = 0" | "wire_offset m_opcode = 1" | "wire_offset m_keylen = 2"
| "wire_offset m_extlen = 4" | "wire_offset m_datatype = 5" | "wire_offset m_reserved = 6"
| "wire_offset m_bodylen = 8" | "wire_offset m_opaque = 12" | "wire_offset m_cas = 16"
| "wire_offset m_set_flags = 24" | "wire_offset m_set_expiration = 28"
| "wire_offset m_incr_delta = 24" | "wire_offset m_incr_initial = 32"
| "wire_offset m_incr_expiration = 40" | "wire_offset m_flush_expiration = 24"
| "wire_offset m_resp_keylen = 2" | "wire_offset m_resp_extlen = 4" | "wire_offset m_resp_status = 6"
| "wire_offset m_resp_bodylen = 8" | "wire_offset m_resp_opaque = 12" | "wire_offset m_resp_cas = 16"

text \<open>
  The structures without extras are the 24-byte header; those of increment and flush end in a
  32-bit member and may be padded.
\<close>

definition binary_protocol :: "protocol \<Rightarrow> bool" where
  "binary_protocol pr \<longleftrightarrow>
     PROTOCOL_BINARY_REQ pr = 0x80 \<and> opcode_of pr = wire_opcode \<and> offsetof pr = wire_offset \<and>
     (\<forall>s \<in> {request_get, request_delete, request_version, request_append, request_stats}.
        sizeof pr s = 24) \<and>
     sizeof pr request_set = 32 \<and>
     sizeof pr request_incr \<in> {44..48} \<and> sizeof pr request_flush \<in> {28..32}"

section \<open>Headers\<close>

record request_header =
  rq_magic :: u8
  rq_opcode :: u8
  rq_keylen :: u16
  rq_extlen :: u8
  rq_datatype :: u8
  rq_reserved :: u16
  rq_bodylen :: u32
  rq_opaque :: u32
  rq_cas :: u64

definition AdjustEndian_request :: "build \<Rightarrow> request_header \<Rightarrow> request_header" where
  "AdjustEndian_request b h =
     h\<lparr>rq_keylen := htons b (rq_keylen h), rq_bodylen := htonl b (rq_bodylen h),
       rq_cas := htonll b (rq_cas h)\<rparr>"

text \<open>The assignments to the header, which every request makes before \<^verbatim>\<open>AdjustEndian\<close>.\<close>

definition fill_header :: "protocol \<Rightarrow> u8 \<Rightarrow> nat \<Rightarrow> nat \<Rightarrow> i32 \<Rightarrow> request_header" where
  "fill_header pr cmd keylen bodylen requestId =
     \<lparr>rq_magic = PROTOCOL_BINARY_REQ pr, rq_opcode = cmd, rq_keylen = of_nat keylen, rq_extlen = 0,
      rq_datatype = 0, rq_reserved = 0, rq_bodylen = of_nat bodylen, rq_opaque = requestId,
      rq_cas = 0\<rparr>"

text \<open>The members in memory, and a series of assignments into an allocated buffer.\<close>

definition header_members :: "protocol \<Rightarrow> build \<Rightarrow> request_header \<Rightarrow> (nat \<times> u8 list) list" where
  "header_members pr b h =
     [(offsetof pr m_magic, [rq_magic h]), (offsetof pr m_opcode, [rq_opcode h]),
      (offsetof pr m_keylen, mem_bytes b 2 (rq_keylen h)), (offsetof pr m_extlen, [rq_extlen h]),
      (offsetof pr m_datatype, [rq_datatype h]), (offsetof pr m_reserved, mem_bytes b 2 (rq_reserved h)),
      (offsetof pr m_bodylen, mem_bytes b 4 (rq_bodylen h)),
      (offsetof pr m_opaque, mem_bytes b 4 (rq_opaque h)), (offsetof pr m_cas, mem_bytes b 8 (rq_cas h))]"

definition put_members :: "(nat \<times> u8 list) list \<Rightarrow> cell list \<Rightarrow> cell list res" where
  "put_members = foldRes (\<lambda>(off, bs) buf. poke buf off (map Some bs))"

text \<open>A request in a buffer from \<^verbatim>\<open>malloc\<close>: the header, more members, then the key by \<^verbatim>\<open>memcpy\<close>.\<close>

definition build_request ::
    "protocol \<Rightarrow> build \<Rightarrow> nat \<Rightarrow> request_header \<Rightarrow> (nat \<times> u8 list) list \<Rightarrow> nat \<Rightarrow> string \<Rightarrow> cell list res" where
  "build_request pr b requestSize h extras keyOffset key =
     andThen (put_members (header_members pr b (AdjustEndian_request b h)) (replicate requestSize None))
       (\<lambda>buf. andThen (put_members extras buf)
       (\<lambda>buf. poke buf keyOffset (map Some (string_bytes key))))"

section \<open>The requests\<close>

definition get_request :: "protocol \<Rightarrow> build \<Rightarrow> string \<Rightarrow> i32 \<Rightarrow> cell list res" where
  "get_request pr b key requestId =
     build_request pr b (sizeof pr request_get + length key)
       (fill_header pr (opcode_of pr CMD_GETQ) (length key) (length key) requestId)
       [] (sizeof pr request_get) key"

definition delete_request :: "protocol \<Rightarrow> build \<Rightarrow> string \<Rightarrow> i32 \<Rightarrow> cell list res" where
  "delete_request pr b key requestId =
     build_request pr b (sizeof pr request_delete + length key)
       (fill_header pr (opcode_of pr CMD_DELETE) (length key) (length key) requestId)
       [] (sizeof pr request_delete) key"

definition append_request ::
    "protocol \<Rightarrow> build \<Rightarrow> u8 \<Rightarrow> string \<Rightarrow> nat \<Rightarrow> i32 \<Rightarrow> cell list res" where
  "append_request pr b cmd key valueSize requestId =
     build_request pr b (sizeof pr request_get + length key)
       (fill_header pr cmd (length key) (length key + valueSize) requestId)
       [] (sizeof pr request_append) key"

definition store_request ::
    "protocol \<Rightarrow> build \<Rightarrow> u8 \<Rightarrow> string \<Rightarrow> u32 \<Rightarrow> u32 \<Rightarrow> nat \<Rightarrow> i32 \<Rightarrow> cell list res" where
  "store_request pr b cmd key flag expiry bufSize requestId =
     build_request pr b (sizeof pr request_set + length key)
       (fill_header pr cmd (length key) (length key + bufSize) requestId)
       [(offsetof pr m_set_flags, mem_bytes b 4 (htonl b flag)),
        (offsetof pr m_set_expiration, mem_bytes b 4 (htonl b expiry))]
       (sizeof pr request_get) key"

definition selfop_request ::
    "protocol \<Rightarrow> build \<Rightarrow> u8 \<Rightarrow> string \<Rightarrow> u64 \<Rightarrow> u64 \<Rightarrow> u32 \<Rightarrow> i32 \<Rightarrow> cell list res" where
  "selfop_request pr b cmd key delta initValue expiry requestId =
     build_request pr b (sizeof pr request_incr + length key)
       (fill_header pr cmd (length key) (length key) requestId)
       [(offsetof pr m_incr_delta, mem_bytes b 8 (htonll b delta)),
        (offsetof pr m_incr_initial, mem_bytes b 8 (htonll b initValue)),
        (offsetof pr m_incr_expiration, mem_bytes b 4 (htonl b expiry))]
       (sizeof pr request_incr) key"

definition flush_request :: "protocol \<Rightarrow> build \<Rightarrow> u32 \<Rightarrow> i32 \<Rightarrow> cell list res" where
  "flush_request pr b expiry requestId =
     build_request pr b (sizeof pr request_flush)
       (fill_header pr (opcode_of pr CMD_FLUSH) 0 0 requestId)
       [(offsetof pr m_flush_expiration, mem_bytes b 4 (htonl b expiry))] 0 []"

definition version_request :: "protocol \<Rightarrow> build \<Rightarrow> i32 \<Rightarrow> cell list res" where
  "version_request pr b requestId =
     build_request pr b (sizeof pr request_version)
       (fill_header pr (opcode_of pr CMD_VERSION) 0 0 requestId) [] 0 []"

definition stat_request :: "protocol \<Rightarrow> build \<Rightarrow> string \<Rightarrow> i32 \<Rightarrow> cell list res" where
  "stat_request pr b key requestId =
     build_request pr b (sizeof pr request_stats)
       (fill_header pr (opcode_of pr CMD_STAT) (length key) 0 requestId)
       [] (sizeof pr request_stats) key"

section \<open>The server's view\<close>

record packet =
  pk_opcode :: u8
  pk_opaque :: "u8 list"
  pk_extras :: "u8 list"
  pk_key :: "u8 list"
  pk_value :: "u8 list"

text \<open>
  One request off the front of the stream, and what is left: 24 bytes of header with the key
  length at 2, the extras length at 4 and the length of the whole body at 8, then the body.
\<close>

definition parse_request :: "u8 list \<Rightarrow> (packet \<times> u8 list) option" where
  "parse_request bs =
     (let hdr = take 24 bs;
          keylen = unat (be_word (take 2 (drop 2 hdr)) :: u16);
          extlen = unat (hdr ! 4);
          bodylen = unat (be_word (take 4 (drop 8 hdr)) :: u32);
          body = take bodylen (drop 24 bs)
      in if length hdr = 24 \<and> hdr ! 0 = 0x80 \<and> length body = bodylen \<and> extlen + keylen \<le> bodylen
         then Some (\<lparr>pk_opcode = hdr ! 1, pk_opaque = take 4 (drop 12 hdr),
                     pk_extras = take extlen body, pk_key = take keylen (drop extlen body),
                     pk_value = drop (extlen + keylen) body\<rparr>, drop (24 + bodylen) bs)
         else None)"

text \<open>The bytes memory may hold when its initialised cells are these.\<close>

definition may_hold :: "cell list \<Rightarrow> u8 list \<Rightarrow> bool" where
  "may_hold cells bs \<longleftrightarrow> list_all2 (\<lambda>c b. c = None \<or> c = Some b) cells bs"

text \<open>The 24 bytes a header has on the wire.\<close>

definition header_image :: "u8 \<Rightarrow> nat \<Rightarrow> nat \<Rightarrow> u8 list \<Rightarrow> u8 list" where
  "header_image cmd keylen bodylen opaque_bytes =
     [0x80, cmd] @ be_bytes 2 (of_nat keylen :: u16) @ [0, 0, 0, 0] @
     be_bytes 4 (of_nat bodylen :: u32) @ opaque_bytes @ replicate 8 0"

section \<open>Assignments side by side\<close>

fun side_by_side :: "nat \<Rightarrow> (nat \<times> u8 list) list \<Rightarrow> bool" where
  "side_by_side off [] = True"
| "side_by_side off ((o1, bs) # ms) = (o1 = off \<and> side_by_side (off + length bs) ms)"

lemma put_members_side_by_side:
  assumes "side_by_side off ms" "off + length (concat (map snd ms)) \<le> length buf"
  shows "put_members ms buf =
    Inr (take off buf @ map Some (concat (map snd ms)) @ drop (off + length (concat (map snd ms))) buf)"
  using assms
proof (induction off ms arbitrary: buf rule: side_by_side.induct)
  case (1 off)
  then show ?case by (simp add: put_members_def)
next
  case (2 off o1 bs ms)
  let ?buf = "take off buf @ map Some bs @ drop (off + length bs) buf"
  have poke: "poke buf off (map Some bs) = Inr ?buf" using 2 by (simp add: poke_def)
  have len: "length ?buf = length buf" using 2 by simp
  have "put_members ms ?buf = Inr (take (off + length bs) ?buf @ map Some (concat (map snd ms)) @
      drop (off + length bs + length (concat (map snd ms))) ?buf)"
    using 2 len by (intro "2.IH") simp_all
  moreover have "take (off + length bs) ?buf = take off buf @ map Some bs" using 2 by simp
  moreover have "drop (off + length bs + length (concat (map snd ms))) ?buf =
      drop (off + length bs + length (concat (map snd ms))) buf"
    using 2 by (simp add: drop_append ac_simps)
  ultimately show ?case using 2 poke by (simp add: put_members_def ac_simps)
qed

lemma le_bytes_zero: "le_bytes n 0 = replicate n 0"
  by (induction n) simp_all

lemma header_members_image:
  assumes "binary_protocol pr"
  shows "side_by_side 0 (header_members pr b (AdjustEndian_request b (fill_header pr cmd keylen bodylen r)))"
    and "concat (map snd (header_members pr b (AdjustEndian_request b (fill_header pr cmd keylen bodylen r)))) =
      header_image cmd keylen bodylen (mem_bytes b 4 r)"
proof -
  have "mem_bytes b 8 (htonll b 0) = replicate 8 0"
    unfolding mem_htonll by (simp add: be_bytes_def le_bytes_zero)
  moreover have "mem_bytes b 2 (0 :: u16) = [0, 0]"
    by (simp add: mem_bytes_def be_bytes_def le_bytes_zero) (simp add: numeral_eq_Suc)
  ultimately have zero: "mem_bytes b 8 (htonll b 0) = replicate 8 0" "mem_bytes b 2 (0 :: u16) = [0, 0]"
    by simp_all
  show "side_by_side 0 (header_members pr b (AdjustEndian_request b (fill_header pr cmd keylen bodylen r)))"
    using assms by (simp add: header_members_def binary_protocol_def)
  show "concat (map snd (header_members pr b (AdjustEndian_request b (fill_header pr cmd keylen bodylen r)))) =
      header_image cmd keylen bodylen (mem_bytes b 4 r)"
    using assms
    by (simp add: header_members_def AdjustEndian_request_def fill_header_def header_image_def
        binary_protocol_def mem_htons mem_htonl zero)
qed

lemma length_header_image [simp]: "length (header_image cmd k n opq) = 20 + length opq"
  by (simp add: header_image_def)

text \<open>The header takes the first 24 cells; what follows depends on the extras and the key.\<close>

lemma build_request_header:
  assumes "binary_protocol pr"
  shows "build_request pr b (24 + n) (fill_header pr cmd keylen bodylen r) extras keyOffset key =
    andThen (put_members extras (map Some (header_image cmd keylen bodylen (mem_bytes b 4 r)) @ replicate n None))
      (\<lambda>buf. poke buf keyOffset (map Some (string_bytes key)))"
  unfolding build_request_def
  by (subst put_members_side_by_side [OF header_members_image(1) [OF assms]])
    (simp_all add: header_members_image(2) [OF assms])

lemma build_plain_request:
  assumes "binary_protocol pr"
  shows "build_request pr b (24 + length key) (fill_header pr cmd keylen bodylen r) [] 24 key =
    Inr (map Some (header_image cmd keylen bodylen (mem_bytes b 4 r) @ string_bytes key))"
  using assms by (simp add: build_request_header put_members_def poke_def string_bytes_def)

section \<open>Reading a header back\<close>

lemma parse_header_image:
  assumes "length opq = 4" "keylen < 2 ^ 16" "bodylen < 2 ^ 32" "keylen \<le> bodylen"
    and "length body = bodylen"
  shows "parse_request (header_image cmd keylen bodylen opq @ body @ rest) =
    Some (\<lparr>pk_opcode = cmd, pk_opaque = opq, pk_extras = [], pk_key = take keylen body,
      pk_value = drop keylen body\<rparr>, rest)"
proof -
  define h where "h = header_image cmd keylen bodylen opq"
  have len: "length h = 24" using assms(1) by (simp add: h_def)
  have nth: "h ! 0 = 0x80" "h ! 1 = cmd" "h ! 4 = 0"
    by (simp_all add: h_def header_image_def nth_append)
  have "take 2 (drop 2 h) = be_bytes 2 (of_nat keylen :: u16)"
    by (simp add: h_def header_image_def)
  then have key: "unat (be_word (take 2 (drop 2 h)) :: u16) = keylen"
    using assms(2) by (simp only: be16.dec_enc unat_of_nat) simp
  have "take 4 (drop 8 h) = be_bytes 4 (of_nat bodylen :: u32)"
    by (simp add: h_def header_image_def drop_append)
  then have body: "unat (be_word (take 4 (drop 8 h)) :: u32) = bodylen"
    using assms(3) by (simp only: be32.dec_enc unat_of_nat) simp
  have opq: "take 4 (drop 12 h) = opq"
    using assms(1) by (simp add: h_def header_image_def drop_append)
  have split: "take 24 (h @ body @ rest) = h" "take bodylen (drop 24 (h @ body @ rest)) = body"
    "drop (24 + bodylen) (h @ body @ rest) = rest"
    using len assms(5) by simp_all
  have "parse_request (h @ body @ rest) = Some (\<lparr>pk_opcode = cmd, pk_opaque = opq, pk_extras = [],
      pk_key = take keylen body, pk_value = drop keylen body\<rparr>, rest)"
    unfolding parse_request_def Let_def split(1) key body split(2,3) opq nth
    using assms(4,5) len by simp
  then show ?thesis by (simp only: h_def)
qed

lemma string_bytes_Nil [simp]: "string_bytes [] = []"
  by (simp add: string_bytes_def)

lemma length_string_bytes [simp]: "length (string_bytes key) = length key"
  by (simp add: string_bytes_def)

lemma parse_plain:
  assumes "length key < 2 ^ 16" "length key + length value < 2 ^ 32"
  shows "parse_request ((header_image cmd (length key) (length key + length value) (mem_bytes b 4 (r :: i32)) @
      string_bytes key) @ value @ rest) =
    Some (\<lparr>pk_opcode = cmd, pk_opaque = mem_bytes b 4 r, pk_extras = [], pk_key = string_bytes key,
      pk_value = value\<rparr>, rest)"
  using parse_header_image [of "mem_bytes b 4 r" "length key" "length key + length value"
      "string_bytes key @ value" cmd rest] assms by simp

lemma may_hold_append:
  "may_hold (map Some xs @ cells) bs \<longleftrightarrow> (\<exists>zs. bs = xs @ zs \<and> may_hold cells zs)"
  by (induction xs arbitrary: bs) (auto simp: may_hold_def list_all2_Cons1)

lemma may_hold_length: "may_hold cells bs \<Longrightarrow> length bs = length cells"
  by (simp add: may_hold_def list_all2_lengthD)

section \<open>Properties\<close>

definition standard_protocol :: protocol where
  "standard_protocol = \<lparr>PROTOCOL_BINARY_REQ = 0x80, opcode_of = wire_opcode,
     sizeof = (\<lambda>s. case s of request_set \<Rightarrow> 32 | request_incr \<Rightarrow> 48 | request_flush \<Rightarrow> 32 | _ \<Rightarrow> 24),
     offsetof = wire_offset\<rparr>"

lemma standard_protocol_binary: "binary_protocol standard_protocol"
  by (simp add: binary_protocol_def standard_protocol_def)

text \<open>
  C5 Get, Delete, Append, PreAppend and Version write well-formed requests: the buffer is
  filled completely and within its bounds, and a server that reads it, followed by the value
  and by anything else, takes exactly this request off the stream.
\<close>

theorem plain_requests_parse:
  assumes "binary_protocol pr" "length key < 2 ^ 16" "length key + length value < 2 ^ 32"
  shows "\<exists>g d a v.
    get_request pr b key r = Inr (map Some g) \<and> delete_request pr b key r = Inr (map Some d) \<and>
    append_request pr b cmd key (length value) r = Inr (map Some a) \<and>
    version_request pr b r = Inr (map Some v) \<and>
    parse_request (g @ rest) = Some (\<lparr>pk_opcode = 0x09, pk_opaque = mem_bytes b 4 r,
      pk_extras = [], pk_key = string_bytes key, pk_value = []\<rparr>, rest) \<and>
    parse_request (d @ rest) = Some (\<lparr>pk_opcode = 0x04, pk_opaque = mem_bytes b 4 r,
      pk_extras = [], pk_key = string_bytes key, pk_value = []\<rparr>, rest) \<and>
    parse_request (a @ value @ rest) = Some (\<lparr>pk_opcode = cmd, pk_opaque = mem_bytes b 4 r,
      pk_extras = [], pk_key = string_bytes key, pk_value = value\<rparr>, rest) \<and>
    parse_request (v @ rest) = Some (\<lparr>pk_opcode = 0x0b, pk_opaque = mem_bytes b 4 r,
      pk_extras = [], pk_key = [], pk_value = []\<rparr>, rest)"
proof -
  let ?req = "\<lambda>cmd key n. header_image cmd (length key) (length key + n) (mem_bytes b 4 r) @ string_bytes key"
  have parse: "parse_request (?req cmd key (length val) @ val @ rest) = Some (\<lparr>pk_opcode = cmd,
      pk_opaque = mem_bytes b 4 r, pk_extras = [], pk_key = string_bytes key, pk_value = val\<rparr>, rest)"
    if "length key < 2 ^ 16" "length key + length val < 2 ^ 32" for cmd key val
    using that by (rule parse_plain)
  have "get_request pr b key r = Inr (map Some (?req 0x09 key 0))"
    "delete_request pr b key r = Inr (map Some (?req 0x04 key 0))"
    "append_request pr b cmd key (length value) r = Inr (map Some (?req cmd key (length value)))"
    "version_request pr b r = Inr (map Some (?req 0x0b [] 0))"
    using assms(1) build_plain_request [OF assms(1), of b key] build_request_header [OF assms(1), of b 0]
    by (simp_all add: get_request_def delete_request_def append_request_def version_request_def
        binary_protocol_def put_members_def poke_def string_bytes_def)
  then show ?thesis
    using parse [of key "[]" "0x09"] parse [of key "[]" "0x04"] parse [of key "value" cmd]
      parse [of "[]" "[]" "0x0b"] assms(2,3)
    by (intro exI conjI) (assumption | simp)+
qed

theorem plain_requests_parse_witness:
  "\<exists>g d a v.
    get_request standard_protocol \<lparr>NDEBUG = False, HOST_LITTLE = True, ENDIAN_LITTLE = False\<rparr> ''key'' 7 =
      Inr (map Some g) \<and>
    delete_request standard_protocol \<lparr>NDEBUG = False, HOST_LITTLE = True, ENDIAN_LITTLE = False\<rparr> ''key'' 7 =
      Inr (map Some d) \<and>
    append_request standard_protocol \<lparr>NDEBUG = False, HOST_LITTLE = True, ENDIAN_LITTLE = False\<rparr> 0x0e ''key''
      (length [5 :: u8, 6]) 7 = Inr (map Some a) \<and>
    version_request standard_protocol \<lparr>NDEBUG = False, HOST_LITTLE = True, ENDIAN_LITTLE = False\<rparr> 7 =
      Inr (map Some v) \<and>
    parse_request (g @ [1]) = Some (\<lparr>pk_opcode = 0x09,
      pk_opaque = mem_bytes \<lparr>NDEBUG = False, HOST_LITTLE = True, ENDIAN_LITTLE = False\<rparr> 4 (7 :: i32),
      pk_extras = [], pk_key = string_bytes ''key'', pk_value = []\<rparr>, [1])"
  using plain_requests_parse [OF standard_protocol_binary, of "''key''" "[5, 6]"
      "\<lparr>NDEBUG = False, HOST_LITTLE = True, ENDIAN_LITTLE = False\<rparr>" 7 "0x0e" "[1]"]
  by (simp, blast)

text \<open>
  Set, Add and Replace write misframed requests. The header announces no extras and a body of
  key and value, yet the buffer carries eight more bytes, and the key is written over the
  flags and the expiration: the server sees the right key, a value whose first eight bytes
  are not the user's, and is left with the last eight bytes of what was sent, which it takes
  for the start of the next request.
\<close>

theorem store_request_misframed:
  assumes "binary_protocol pr" "length key < 2 ^ 16" "length key + length value < 2 ^ 32"
  shows "\<exists>buf. store_request pr b cmd key flag expiry (length value) r = Inr buf \<and>
    (\<forall>bs. may_hold buf bs \<longrightarrow> (\<exists>junk. length junk = 8 \<and>
      parse_request (bs @ value) = Some (\<lparr>pk_opcode = cmd, pk_opaque = mem_bytes b 4 r,
        pk_extras = [], pk_key = string_bytes key, pk_value = take (length value) (junk @ value)\<rparr>,
        drop (length value) (junk @ value))))"
proof -
  let ?h = "header_image cmd (length key) (length key + length value) (mem_bytes b 4 r)"
  let ?ext = "[(24, be_bytes 4 flag), (28, be_bytes 4 expiry)]"
  let ?tail = "map Some (be_bytes 4 flag @ be_bytes 4 expiry) @ replicate (length key) None"
  have "put_members ?ext (map Some ?h @ replicate (8 + length key) None) = Inr (map Some ?h @ ?tail)"
    by (subst put_members_side_by_side [of 24]) simp_all
  moreover have "store_request pr b cmd key flag expiry (length value) r =
      andThen (put_members ?ext (map Some ?h @ replicate (8 + length key) None))
        (\<lambda>buf. poke buf 24 (map Some (string_bytes key)))"
    using assms(1) build_request_header [OF assms(1), of b "8 + length key"]
    by (simp add: store_request_def binary_protocol_def mem_htonl ac_simps)
  moreover have "poke (map Some ?h @ ?tail) 24 (map Some (string_bytes key)) =
      Inr (map Some (?h @ string_bytes key) @ drop (length key) ?tail)"
    by (simp add: poke_def)
  ultimately have buf: "store_request pr b cmd key flag expiry (length value) r =
      Inr (map Some (?h @ string_bytes key) @ drop (length key) ?tail)" by simp
  have "\<exists>junk. length junk = 8 \<and> parse_request (bs @ value) = Some (\<lparr>pk_opcode = cmd,
      pk_opaque = mem_bytes b 4 r, pk_extras = [], pk_key = string_bytes key,
      pk_value = take (length value) (junk @ value)\<rparr>, drop (length value) (junk @ value))"
    if hold: "may_hold (map Some (?h @ string_bytes key) @ drop (length key) ?tail) bs" for bs
  proof -
    obtain junk where junk: "bs = (?h @ string_bytes key) @ junk" "may_hold (drop (length key) ?tail) junk"
      using hold may_hold_append by blast
    have "length junk = 8"
      unfolding may_hold_length [OF junk(2)] length_drop by simp
    moreover have "(junk @ value) = take (length value) (junk @ value) @ drop (length value) (junk @ value)"
      by (rule append_take_drop_id [symmetric])
    moreover have "length (take (length value) (junk @ value)) = length value" by simp
    ultimately show ?thesis
      using parse_plain [of key "take (length value) (junk @ value)" cmd b r
          "drop (length value) (junk @ value)"] assms(2,3) junk(1)
      by (metis append_assoc)
  qed
  with buf show ?thesis by blast
qed

theorem store_request_misframed_witness:
  "\<exists>buf. store_request standard_protocol \<lparr>NDEBUG = True, HOST_LITTLE = True, ENDIAN_LITTLE = False\<rparr> 0x01 ''k''
      5 60 (length [65 :: u8, 66]) 3 = Inr buf \<and>
    (\<forall>bs. may_hold buf bs \<longrightarrow> (\<exists>junk. length junk = 8 \<and> parse_request (bs @ [65, 66]) =
      Some (\<lparr>pk_opcode = 0x01,
        pk_opaque = mem_bytes \<lparr>NDEBUG = True, HOST_LITTLE = True, ENDIAN_LITTLE = False\<rparr> 4 (3 :: i32),
        pk_extras = [], pk_key = string_bytes ''k'', pk_value = take (length [65 :: u8, 66]) (junk @ [65, 66])\<rparr>,
        drop (length [65 :: u8, 66]) (junk @ [65, 66]))))"
  by (rule store_request_misframed [OF standard_protocol_binary]) simp_all

text \<open>What \<^verbatim>\<open>SelfOp\<close> leaves in the buffer, \<open>p\<close> being the padding of the structure.\<close>

definition incr_extras :: "build \<Rightarrow> u64 \<Rightarrow> u64 \<Rightarrow> u32 \<Rightarrow> u8 list" where
  "incr_extras b delta initValue expiry =
     mem_bytes b 8 (htonll b delta) @ mem_bytes b 8 (htonll b initValue) @ be_bytes 4 expiry"

lemma selfop_request_cells:
  assumes "binary_protocol pr" "sizeof pr request_incr = 24 + (20 + p)"
  shows "selfop_request pr b cmd key delta initValue expiry r =
    Inr (map Some (header_image cmd (length key) (length key) (mem_bytes b 4 r) @
      incr_extras b delta initValue expiry) @ replicate p None @ map Some (string_bytes key))"
proof -
  let ?h = "header_image cmd (length key) (length key) (mem_bytes b 4 r)"
  let ?ms = "[(24, mem_bytes b 8 (htonll b delta)), (32, mem_bytes b 8 (htonll b initValue)),
      (40, be_bytes 4 expiry)]"
  let ?ext = "incr_extras b delta initValue expiry"
  have "put_members ?ms (map Some ?h @ replicate (20 + p + length key) None) =
      Inr (map Some (?h @ ?ext) @ replicate (p + length key) None)"
    by (subst put_members_side_by_side [of 24]) (simp_all add: incr_extras_def)
  moreover have "selfop_request pr b cmd key delta initValue expiry r =
      andThen (put_members ?ms (map Some ?h @ replicate (20 + p + length key) None))
        (\<lambda>buf. poke buf (44 + p) (map Some (string_bytes key)))"
    using assms(1) build_request_header [OF assms(1), of b "20 + p + length key"]
    by (simp add: selfop_request_def binary_protocol_def assms(2) mem_htonl ac_simps)
  moreover have "poke (map Some (?h @ ?ext) @ replicate (p + length key) None) (44 + p)
      (map Some (string_bytes key)) =
      Inr (map Some (?h @ ?ext) @ replicate p None @ map Some (string_bytes key))"
    by (simp add: poke_def incr_extras_def)
  ultimately show ?thesis by simp
qed

lemma parse_keyed:
  assumes "length key < 2 ^ 16" "length key \<le> length t"
  shows "parse_request (header_image cmd (length key) (length key) (mem_bytes b 4 (r :: i32)) @ t) =
    Some (\<lparr>pk_opcode = cmd, pk_opaque = mem_bytes b 4 r, pk_extras = [],
      pk_key = take (length key) t, pk_value = []\<rparr>, drop (length key) t)"
  using parse_header_image [of "mem_bytes b 4 r" "length key" "length key" "take (length key) t" cmd
      "drop (length key) t"] assms by simp

lemma may_hold_padding:
  assumes "may_hold (replicate p None @ map Some xs) zs"
  obtains pad where "length pad = p" "zs = pad @ xs"
proof -
  obtain us vs where uv: "zs = us @ vs" "length us = p" "may_hold (map Some xs) vs"
    using assms by (auto simp: may_hold_def list_all2_append1)
  then have "vs = xs" using may_hold_append [of xs "[]" vs] by (auto simp: may_hold_def)
  with uv that show thesis by blast
qed

text \<open>
  Increment and Decrement carry 20 bytes of extras, and a padding, that the header does not
  announce. A server takes the first of these bytes for the key of the counter and the rest
  of the request for the start of the next one.
\<close>

theorem counter_request_misframed:
  assumes "binary_protocol pr" "length key < 2 ^ 16"
  shows "\<exists>buf. selfop_request pr b cmd key delta initValue expiry r = Inr buf \<and>
      (\<forall>bs. may_hold buf bs \<longrightarrow> (\<exists>pad.
        parse_request bs = Some (\<lparr>pk_opcode = cmd, pk_opaque = mem_bytes b 4 r, pk_extras = [],
          pk_key = take (length key) (incr_extras b delta initValue expiry @ pad @ string_bytes key),
          pk_value = []\<rparr>,
          drop (length key) (incr_extras b delta initValue expiry @ pad @ string_bytes key))))"
proof -
  obtain p where p: "sizeof pr request_incr = 24 + (20 + p)"
    using assms(1) by (auto simp: binary_protocol_def dest!: le_Suc_ex)
  note buf = selfop_request_cells [OF assms(1) p, of b cmd key delta initValue expiry r]
  let ?h = "header_image cmd (length key) (length key) (mem_bytes b 4 r)"
  let ?ext = "incr_extras b delta initValue expiry"
  have "\<exists>pad. parse_request bs = Some (\<lparr>pk_opcode = cmd, pk_opaque = mem_bytes b 4 r, pk_extras = [],
      pk_key = take (length key) (?ext @ pad @ string_bytes key), pk_value = []\<rparr>,
      drop (length key) (?ext @ pad @ string_bytes key))"
    if hold: "may_hold (map Some (?h @ ?ext) @ replicate p None @ map Some (string_bytes key)) bs" for bs
  proof -
    obtain zs where zs: "bs = (?h @ ?ext) @ zs" "may_hold (replicate p None @ map Some (string_bytes key)) zs"
      using hold may_hold_append by blast
    obtain pad where "zs = pad @ string_bytes key" using may_hold_padding [OF zs(2)] by blast
    then show ?thesis
      using zs(1) parse_keyed [OF assms(2), of "?ext @ pad @ string_bytes key" cmd b r] by auto
  qed
  with buf show ?thesis by blast
qed

theorem counter_request_misframed_witness:
  "\<exists>buf. selfop_request standard_protocol \<lparr>NDEBUG = True, HOST_LITTLE = True, ENDIAN_LITTLE = False\<rparr> 0x05 ''ctr''
      1 0 0 9 = Inr buf \<and>
    (\<forall>bs. may_hold buf bs \<longrightarrow> (\<exists>pad. parse_request bs =
      Some (\<lparr>pk_opcode = 0x05,
        pk_opaque = mem_bytes \<lparr>NDEBUG = True, HOST_LITTLE = True, ENDIAN_LITTLE = False\<rparr> 4 (9 :: i32),
        pk_extras = [], pk_key = take (length ''ctr'')
          (incr_extras \<lparr>NDEBUG = True, HOST_LITTLE = True, ENDIAN_LITTLE = False\<rparr> 1 0 0 @ pad @ string_bytes ''ctr''),
        pk_value = []\<rparr>, drop (length ''ctr'')
          (incr_extras \<lparr>NDEBUG = True, HOST_LITTLE = True, ENDIAN_LITTLE = False\<rparr> 1 0 0 @ pad @ string_bytes ''ctr''))))"
  by (rule counter_request_misframed [OF standard_protocol_binary]) simp

text \<open>
  Flush carries its expiration unannounced: a server flushes at once and is left with the
  expiration as the start of the next request.
\<close>

theorem flush_request_misframed:
  assumes "binary_protocol pr"
  shows "\<exists>buf. flush_request pr b expiry r = Inr buf \<and>
      (\<forall>bs. may_hold buf bs \<longrightarrow> (\<exists>pad.
        parse_request bs = Some (\<lparr>pk_opcode = 0x08, pk_opaque = mem_bytes b 4 r, pk_extras = [],
          pk_key = [], pk_value = []\<rparr>, be_bytes 4 expiry @ pad)))"
proof -
  obtain p where p: "sizeof pr request_flush = 24 + (4 + p)"
    using assms by (auto simp: binary_protocol_def dest!: le_Suc_ex)
  let ?h = "header_image 0x08 0 0 (mem_bytes b 4 r)"
  have "put_members [(24, be_bytes 4 expiry)] (map Some ?h @ replicate (4 + p) None) =
      Inr (map Some (?h @ be_bytes 4 expiry) @ replicate p None)"
    by (subst put_members_side_by_side [of 24]) simp_all
  then have buf: "flush_request pr b expiry r = Inr (map Some (?h @ be_bytes 4 expiry) @ replicate p None)"
    using assms build_request_header [OF assms, of b "4 + p"]
    by (simp add: flush_request_def binary_protocol_def p mem_htonl poke_def)
  have "\<exists>pad. parse_request bs = Some (\<lparr>pk_opcode = 0x08, pk_opaque = mem_bytes b 4 r, pk_extras = [],
      pk_key = [], pk_value = []\<rparr>, be_bytes 4 expiry @ pad)"
    if hold: "may_hold (map Some (?h @ be_bytes 4 expiry) @ replicate p None) bs" for bs
  proof -
    obtain pad where "bs = (?h @ be_bytes 4 expiry) @ pad" using hold may_hold_append by blast
    then show ?thesis
      using parse_keyed [of "[]" "be_bytes 4 expiry @ pad" "0x08" b r] by simp
  qed
  with buf show ?thesis by blast
qed

theorem flush_request_misframed_witness:
  "\<exists>buf. flush_request standard_protocol \<lparr>NDEBUG = True, HOST_LITTLE = True, ENDIAN_LITTLE = False\<rparr> 10 2 = Inr buf \<and>
    (\<forall>bs. may_hold buf bs \<longrightarrow> (\<exists>pad. parse_request bs = Some (\<lparr>pk_opcode = 0x08,
      pk_opaque = mem_bytes \<lparr>NDEBUG = True, HOST_LITTLE = True, ENDIAN_LITTLE = False\<rparr> 4 (2 :: i32),
      pk_extras = [], pk_key = [], pk_value = []\<rparr>, be_bytes 4 (10 :: u32) @ pad)))"
  by (rule flush_request_misframed [OF standard_protocol_binary])

text \<open>
  Stat allocates the header only and copies the key behind it: every key but the empty one
  is written outside the buffer.
\<close>

theorem stat_request_overflows:
  assumes "binary_protocol pr"
  shows "stat_request pr b key r =
    (if key = [] then Inr (map Some (header_image 0x10 0 0 (mem_bytes b 4 r))) else Inl OutOfBounds)"
proof -
  have "stat_request pr b key r = andThen (put_members []
      (map Some (header_image 0x10 (length key) 0 (mem_bytes b 4 r)) @ replicate 0 None))
      (\<lambda>buf. poke buf 24 (map Some (string_bytes key)))"
    using assms build_request_header [OF assms, of b 0]
    by (simp add: stat_request_def binary_protocol_def)
  then show ?thesis by (simp add: put_members_def poke_def)
qed

theorem stat_request_overflows_witness:
  "stat_request standard_protocol \<lparr>NDEBUG = True, HOST_LITTLE = True, ENDIAN_LITTLE = False\<rparr> ''items'' 1 =
     Inl OutOfBounds"
  using stat_request_overflows [OF standard_protocol_binary,
      of "\<lparr>NDEBUG = True, HOST_LITTLE = True, ENDIAN_LITTLE = False\<rparr>" "''items''" 1] by simp

end
