(* ===== verification/Mem_Result.thy ===== *)
theory Mem_Result
  imports Protocol
begin

text \<open>
  \<^verbatim>\<open>memcachedClient/MemResult.h\<close>, \<^verbatim>\<open>MemResult.cpp\<close> and \<^verbatim>\<open>RequestItem\<close>: the object a caller gets
  for a request, the buffers it offers for the body of the reply, and how its waiting thread
  and its callback are told. The virtual functions dispatch on \<open>mr_kind\<close>. The memory behind a
  \<^verbatim>\<open>Buffer\<close> is kept with the result it belongs to; \<open>(p, f)\<close> is the address of member \<open>f\<close> of the
  result at \<open>p\<close>.
\<close>

section \<open>Status codes\<close>

datatype request_status =
    ERequest_SUCCESS | ERequest_KEY_ENOENT | ERequest_KEY_EEXISTS | ERequest_E2BIG
  | ERequest_EINVAL | ERequest_NOT_STORED | ERequest_DELTA_BADVAL | ERequest_AUTH_ERROR
  | ERequest_AUTH_CONTINUE | ERequest_UNKNOWN_COMMAND | ERequest_ENOMEM | ERequest_NETWORK_ERROR
  | ERequest_PENDING

text \<open>A value of the enumeration type, which the code also casts from wire values.\<close>

type_synonym ERequestStatus = u32

fun status_code :: "request_status \<Rightarrow> ERequestStatus" where
  "status_code ERequest_SUCCESS = 0x00" | "status_code ERequest_KEY_ENOENT = 0x01"
| "status_code ERequest_KEY_EEXISTS = 0x02" | "status_code ERequest_E2BIG = 0x03"
| "status_code ERequest_EINVAL = 0x04" | "status_code ERequest_NOT_STORED = 0x05"
| "status_code ERequest_DELTA_BADVAL = 0x06" | "status_code ERequest_AUTH_ERROR = 0x20"
| "status_code ERequest_AUTH_CONTINUE = 0x21" | "status_code ERequest_UNKNOWN_COMMAND = 0x81"
| "status_code ERequest_ENOMEM = 0x82" | "status_code ERequest_NETWORK_ERROR = 0x86"
| "status_code ERequest_PENDING = 0xFF"

section \<open>Results\<close>

datatype result_kind = PlainResult | GetResult | IncResult | StatResult

text \<open>The thread in \<^verbatim>\<open>Finish\<close>, if any: blocked on the condition variable, or back with a status.\<close>

datatype waiter = NotWaiting | Waiting | Returned ERequestStatus

record mem_result =
  mKey :: string
  mErrorCode :: ERequestStatus
  mValue :: "cell list option"
  mr_kind :: result_kind
  mFlag :: "cell list"
  mCounter :: "cell list"
  mStats :: "(cell list \<times> cell list) list"
  mHasMoreResult :: "bool option"
  mr_waiter :: waiter

definition MemResult :: "string \<Rightarrow> cell list option \<Rightarrow> mem_result" where
  "MemResult key buffer =
     \<lparr>mKey = key, mErrorCode = status_code ERequest_PENDING, mValue = buffer, mr_kind = PlainResult,
      mFlag = replicate 4 None, mCounter = replicate 8 None, mStats = [], mHasMoreResult = None,
      mr_waiter = NotWaiting\<rparr>"

definition MemGetResult :: "string \<Rightarrow> cell list option \<Rightarrow> mem_result" where
  "MemGetResult key buffer = (MemResult key buffer)\<lparr>mr_kind := GetResult\<rparr>"

definition MemIncResult :: "string \<Rightarrow> mem_result" where
  "MemIncResult key = (MemResult key None)\<lparr>mr_kind := IncResult\<rparr>"

definition MemStatResult :: "string \<Rightarrow> mem_result" where
  "MemStatResult key = (MemResult key None)\<lparr>mr_kind := StatResult\<rparr>"

text \<open>
  \<^verbatim>\<open>Finish\<close> blocks without looking at \<^verbatim>\<open>mErrorCode\<close>; \<open>wake\<close> is the return of \<^verbatim>\<open>wait\<close>, which
  \<^verbatim>\<open>notify_all\<close> causes and which may also happen spuriously.
\<close>

definition Finish :: "mem_result \<Rightarrow> mem_result" where
  "Finish r = r\<lparr>mr_waiter := Waiting\<rparr>"

definition wake :: "mem_result \<Rightarrow> mem_result" where
  "wake r = (if mr_waiter r = Waiting then r\<lparr>mr_waiter := Returned (mErrorCode r)\<rparr> else r)"

definition Notify :: "ERequestStatus \<Rightarrow> mem_result \<Rightarrow> mem_result" where
  "Notify err r = wake (r\<lparr>mErrorCode := err\<rparr>)"

section \<open>Buffers for the body\<close>

definition flag_addr :: "ptr \<Rightarrow> addr" where "flag_addr p = (p, 0)"
definition value_addr :: "ptr \<Rightarrow> addr" where "value_addr p = (p, 1)"
definition counter_addr :: "ptr \<Rightarrow> addr" where "counter_addr p = (p, 2)"
definition stat_key_addr :: "ptr \<Rightarrow> addr" where "stat_key_addr p = (p, 3)"
definition stat_value_addr :: "ptr \<Rightarrow> addr" where "stat_value_addr p = (p, 4)"

lemmas addr_defs = flag_addr_def value_addr_def counter_addr_def stat_key_addr_def stat_value_addr_def

type_synonym vbuffer = "(addr \<times> nat) list"

text \<open>
  A negative \<^verbatim>\<open>valueLen\<close> becomes a huge \<^verbatim>\<open>size_t\<close>: \<^verbatim>\<open>malloc\<close> fails and the read goes through a null
  pointer, \<^verbatim>\<open>resize\<close> throws.
\<close>

definition Base_FillReceiveBuffer ::
    "ptr \<Rightarrow> vbuffer \<Rightarrow> i32 \<Rightarrow> mem_result \<Rightarrow> (bool \<times> vbuffer \<times> mem_result) res" where
  "Base_FillReceiveBuffer p bufs valueLen r =
     (case mValue r of
        None \<Rightarrow>
          if sint valueLen < 0 then Inl OutOfBounds
          else Inr (True, bufs @ [(value_addr p, nat (sint valueLen))],
                    r\<lparr>mValue := Some (replicate (nat (sint valueLen)) None)\<rparr>)
      | Some v \<Rightarrow> Inr (True, bufs @ [(value_addr p, length v)], r))"

definition Get_FillReceiveBuffer ::
    "ptr \<Rightarrow> ERequestStatus \<Rightarrow> vbuffer \<Rightarrow> i32 \<Rightarrow> mem_result \<Rightarrow> (bool \<times> vbuffer \<times> mem_result) res" where
  "Get_FillReceiveBuffer p status bufs valueLen r =
     Base_FillReceiveBuffer p
       (if status = status_code ERequest_SUCCESS then bufs @ [(flag_addr p, 4)] else bufs) valueLen r"

definition Inc_FillReceiveBuffer ::
    "ptr \<Rightarrow> ERequestStatus \<Rightarrow> vbuffer \<Rightarrow> i32 \<Rightarrow> mem_result \<Rightarrow> (bool \<times> vbuffer \<times> mem_result) res" where
  "Inc_FillReceiveBuffer p status bufs valueLen r =
     (if status = status_code ERequest_SUCCESS then Inr (True, bufs @ [(counter_addr p, 8)], r)
      else Base_FillReceiveBuffer p bufs valueLen r)"

definition Stat_FillReceiveBuffer ::
    "ptr \<Rightarrow> vbuffer \<Rightarrow> i32 \<Rightarrow> i32 \<Rightarrow> mem_result \<Rightarrow> (bool \<times> vbuffer \<times> mem_result) res" where
  "Stat_FillReceiveBuffer p bufs valueLen keyLen r =
     (if valueLen = 0 then Inr (False, bufs, r\<lparr>mHasMoreResult := Some False\<rparr>)
      else if sint valueLen < 0 \<or> sint keyLen < 0 then Inl (Throws ''length_error'')
      else let k = nat (sint keyLen); v = nat (sint valueLen)
        in Inr (True, bufs @ [(stat_key_addr p, k), (stat_value_addr p, v)],
             r\<lparr>mStats := mStats r @ [(replicate k (Some 0), replicate v (Some 0))]\<rparr>))"

definition FillReceiveBuffer ::
    "ptr \<Rightarrow> ERequestStatus \<Rightarrow> vbuffer \<Rightarrow> i32 \<Rightarrow> i32 \<Rightarrow> mem_result \<Rightarrow> (bool \<times> vbuffer \<times> mem_result) res" where
  "FillReceiveBuffer p status bufs valueLen keyLen r =
     (case mr_kind r of
        PlainResult \<Rightarrow> Base_FillReceiveBuffer p bufs valueLen r
      | GetResult \<Rightarrow> Get_FillReceiveBuffer p status bufs valueLen r
      | IncResult \<Rightarrow> Inc_FillReceiveBuffer p status bufs valueLen r
      | StatResult \<Rightarrow> Stat_FillReceiveBuffer p bufs valueLen keyLen r)"

definition HasMoreResult :: "mem_result \<Rightarrow> bool res" where
  "HasMoreResult r =
     (case mr_kind r of
        StatResult \<Rightarrow> (case mHasMoreResult r of None \<Rightarrow> Inl Uninitialised | Some m \<Rightarrow> Inr m)
      | _ \<Rightarrow> Inr False)"

text \<open>The bytes asio puts at an address of a result.\<close>

definition overlay :: "u8 list \<Rightarrow> cell list \<Rightarrow> cell list" where
  "overlay bytes cells = map Some bytes @ drop (length bytes) cells"

definition write_result :: "nat \<Rightarrow> u8 list \<Rightarrow> mem_result \<Rightarrow> mem_result" where
  "write_result f bytes r =
     (if f = 0 then r\<lparr>mFlag := overlay bytes (mFlag r)\<rparr>
      else if f = 1 then r\<lparr>mValue := map_option (overlay bytes) (mValue r)\<rparr>
      else if f = 2 then r\<lparr>mCounter := overlay bytes (mCounter r)\<rparr>
      else if f = 3 then r\<lparr>mStats := butlast (mStats r) @ [map_prod (overlay bytes) id (last (mStats r))]\<rparr>
      else r\<lparr>mStats := butlast (mStats r) @ [map_prod id (overlay bytes) (last (mStats r))]\<rparr>)"

text \<open>\<^verbatim>\<open>MemIncResult::Value\<close> reads the counter as the host stores integers.\<close>

definition counter_value :: "build \<Rightarrow> mem_result \<Rightarrow> u64 res" where
  "counter_value b r =
     (if None \<in> set (mCounter r) then Inl Uninitialised else Inr (mem_word b (map the (mCounter r))))"

text \<open>The accessors: the status as it was set, the flags as the host reads the four bytes received.\<close>

definition ErrorCode :: "mem_result \<Rightarrow> i32" where
  "ErrorCode r = mErrorCode r"

definition Flag :: "build \<Rightarrow> mem_result \<Rightarrow> i32 res" where
  "Flag b r =
     (if None \<in> set (mFlag r) then Inl Uninitialised else Inr (mem_word b (map the (mFlag r))))"

section \<open>Facts\<close>

lemma wake_Notify_code [simp]: "mErrorCode (wake r) = mErrorCode r" "mErrorCode (Notify err r) = err"
  by (simp_all add: wake_def Notify_def)

lemma write_result_code [simp]: "mErrorCode (write_result f bytes r) = mErrorCode r"
  by (simp add: write_result_def)

lemma write_result_kind [simp]: "mr_kind (write_result f bytes r) = mr_kind r"
  by (simp add: write_result_def)

lemma write_result_more [simp]: "mHasMoreResult (write_result f bytes r) = mHasMoreResult r"
  by (simp add: write_result_def)

lemmas fill_defs = FillReceiveBuffer_def Base_FillReceiveBuffer_def Get_FillReceiveBuffer_def
  Inc_FillReceiveBuffer_def Stat_FillReceiveBuffer_def Let_def

lemma FillReceiveBuffer_code:
  "FillReceiveBuffer p status bufs valueLen keyLen r = Inr (ok, bufs', r') \<Longrightarrow>
     mErrorCode r' = mErrorCode r \<and> mr_kind r' = mr_kind r"
  by (auto simp: fill_defs split: result_kind.splits option.splits if_splits)

end
