(* ===== verification/Memcached_Client.thy ===== *)
theory Memcached_Client
  imports Server_List Mem_Result
begin

text \<open>
  \<^verbatim>\<open>memcachedClient/MemcachedClient.h\<close>, \<^verbatim>\<open>MemcachedClient.cpp\<close> and the operations in
  \<^verbatim>\<open>MemGet.cpp\<close> to \<^verbatim>\<open>MemVersion.cpp\<close>: the client on top of the server list, the connections and
  the results. The state is the server list, which holds the connections, and \<open>requests\<close>, the
  members of \<^verbatim>\<open>MemcachedClient\<close> with the heap of results, the tasks \<^verbatim>\<open>FinishRequest\<close> has posted
  and the callbacks that were called. An iterator into \<^verbatim>\<open>mRequests\<close> is the identifier of its
  request: it is valid as long as the map has the identifier. That an insertion may rehash the map, which
  invalidates the iterator a posted task holds, is left out.
\<close>

section \<open>State\<close>

record request_item =
  ri_result :: ptr
  ri_callback :: "nat option"

record requests =
  mNextRequestId :: i32
  mRequests :: "(i32 \<times> request_item) list"
  results :: "ptr \<Rightarrow> mem_result"
  nextResult :: ptr
  notifies :: "(i32 \<times> ERequestStatus) list"
  called :: "(nat \<times> ptr) list"

type_synonym memcached_client = "server_list \<times> requests"

definition MemcachedClient :: "(ptr \<Rightarrow> mem_result) \<Rightarrow> requests" where
  "MemcachedClient heap =
     \<lparr>mNextRequestId = 0, mRequests = [], results = heap, nextResult = 0, notifies = [], called = []\<rparr>"

definition set_result :: "ptr \<Rightarrow> mem_result \<Rightarrow> requests \<Rightarrow> requests" where
  "set_result p res r = r\<lparr>results := (results r)(p := res)\<rparr>"

text \<open>\<^verbatim>\<open>RequestItem::Notify\<close>: the result is told first, then the callback, when there is one.\<close>

definition item_Notify :: "request_item \<Rightarrow> ERequestStatus \<Rightarrow> requests \<Rightarrow> requests" where
  "item_Notify it status r =
     (let p = ri_result it; r = set_result p (Notify status (results r p)) r
      in case ri_callback it of None \<Rightarrow> r | Some cb \<Rightarrow> r\<lparr>called := called r @ [(cb, p)]\<rparr>)"

section \<open>Responses\<close>

definition FinishRequest :: "i32 \<Rightarrow> ERequestStatus \<Rightarrow> requests \<Rightarrow> requests res" where
  "FinishRequest requestIt err r =
     (case map_of (mRequests r) requestIt of
        None \<Rightarrow> Inl BadIterator
      | Some it \<Rightarrow> andThen (HasMoreResult (results r (ri_result it))) (\<lambda>more.
          if \<not> more then Inr (r\<lparr>notifies := notifies r @ [(requestIt, err)]\<rparr>) else Inr r))"

text \<open>The task \<^verbatim>\<open>FinishRequest\<close> posts.\<close>

definition run_notify :: "requests \<Rightarrow> requests res" where
  "run_notify r =
     (case notifies r of
        [] \<Rightarrow> Inr r
      | (requestIt, err) # ts \<Rightarrow> (case map_of (mRequests r) requestIt of
          None \<Rightarrow> Inl BadIterator
        | Some it \<Rightarrow>
            (let r = item_Notify it err (r\<lparr>notifies := ts\<rparr>)
             in Inr (r\<lparr>mRequests := AList.delete requestIt (mRequests r)\<rparr>))))"

record response_header =
  rp_keylen :: u16
  rp_extlen :: u8
  rp_status :: u16
  rp_bodylen :: u32
  rp_opaque :: u32
  rp_cas :: u64

text \<open>The header buffer read as a structure, and the changed members written back.\<close>

definition read_response :: "protocol \<Rightarrow> build \<Rightarrow> u8 list \<Rightarrow> response_header" where
  "read_response pr b hdr =
     (let at = (\<lambda>n m. take n (drop (offsetof pr m) hdr))
      in \<lparr>rp_keylen = mem_word b (at 2 m_resp_keylen), rp_extlen = hdr ! offsetof pr m_resp_extlen,
          rp_status = mem_word b (at 2 m_resp_status), rp_bodylen = mem_word b (at 4 m_resp_bodylen),
          rp_opaque = mem_word b (at 4 m_resp_opaque), rp_cas = mem_word b (at 8 m_resp_cas)\<rparr>)"

definition write_member :: "nat \<Rightarrow> u8 list \<Rightarrow> u8 list \<Rightarrow> u8 list" where
  "write_member off bs hdr = take off hdr @ bs @ drop (off + length bs) hdr"

definition write_response :: "protocol \<Rightarrow> build \<Rightarrow> response_header \<Rightarrow> u8 list \<Rightarrow> u8 list" where
  "write_response pr b h hdr =
     write_member (offsetof pr m_resp_cas) (mem_bytes b 8 (rp_cas h))
     (write_member (offsetof pr m_resp_bodylen) (mem_bytes b 4 (rp_bodylen h))
     (write_member (offsetof pr m_resp_status) (mem_bytes b 2 (rp_status h))
     (write_member (offsetof pr m_resp_keylen) (mem_bytes b 2 (rp_keylen h)) hdr)))"

definition AdjustEndian_response :: "build \<Rightarrow> response_header \<Rightarrow> response_header" where
  "AdjustEndian_response b h =
     (let h = h\<lparr>rp_keylen := ntohs b (rp_keylen h)\<rparr>;
          h = h\<lparr>rp_status := ntohs b (rp_status h)\<rparr>;
          h = h\<lparr>rp_bodylen := ntohl b (rp_bodylen h)\<rparr>;
          h = h\<lparr>rp_cas := ntohll b (rp_cas h)\<rparr>
      in h\<lparr>rp_status := ntohs b (rp_status h)\<rparr>)"

definition value_length :: "response_header \<Rightarrow> i32" where
  "value_length h = rp_bodylen h - ucast (rp_extlen h) - ucast (rp_keylen h)"

definition OnHeaderReaded :: "protocol \<Rightarrow> build \<Rightarrow> (addr, requests) header_handler" where
  "OnHeaderReaded pr b header r =
     (let h = AdjustEndian_response b (read_response pr b header);
          header = write_response pr b h header;
          requestId = rp_opaque h;
          valueLen = value_length h
      in case map_of (mRequests r) requestId of
        None \<Rightarrow> Inr (False, header, [], r)
      | Some it \<Rightarrow>
          if valueLen = 0
          then andThen (FinishRequest requestId (ucast (rp_status h)) r) (\<lambda>r. Inr (False, header, [], r))
          else andThen (FillReceiveBuffer (ri_result it) (ucast (rp_status h)) [] valueLen
                 (ucast (rp_keylen h)) (results r (ri_result it)))
               (\<lambda>(hasBody, body, res). Inr (hasBody, header, body, set_result (ri_result it) res r)))"

definition OnBodayReaded :: "protocol \<Rightarrow> build \<Rightarrow> requests body_handler" where
  "OnBodayReaded pr b header r =
     (let h = read_response pr b header; requestId = rp_opaque h
      in case map_of (mRequests r) requestId of
        None \<Rightarrow> Inr r
      | Some it \<Rightarrow> FinishRequest requestId (ucast (rp_status h)) r)"

text \<open>Where asio scatters the body.\<close>

definition store_bytes :: "addr \<Rightarrow> u8 list \<Rightarrow> requests \<Rightarrow> requests" where
  "store_bytes a bytes r = set_result (fst a) (write_result (snd a) bytes (results r (fst a))) r"

section \<open>Servers coming and going\<close>

definition OnServerAdded :: "requests added_slot" where
  "OnServerAdded p s r = Inr (s\<lparr>si_socket := (si_socket s)\<lparr>handlersSet := True\<rparr>\<rparr>, r)"

definition OnServerRemoved :: "requests removed_slot" where
  "OnServerRemoved p s r =
     foldRes (\<lambda>request. FinishRequest request (status_code ERequest_NETWORK_ERROR)) (si_pending s) r"

definition add_server ::
    "(int \<Rightarrow> string) \<Rightarrow> md5 \<Rightarrow> string \<Rightarrow> int \<Rightarrow> bool \<Rightarrow> memcached_client \<Rightarrow> bool res \<times> memcached_client" where
  "add_server lexcast raw host port resolves = SL_Add lexcast raw OnServerAdded host port resolves"

definition remove_server ::
    "(int \<Rightarrow> string) \<Rightarrow> string \<Rightarrow> int \<Rightarrow> memcached_client \<Rightarrow> (bool \<times> memcached_client) res" where
  "remove_server lexcast host port = SL_Remove lexcast OnServerRemoved host port"

text \<open>
  One input of the connection of server \<open>p\<close>. The slot \<^verbatim>\<open>ServerList::Add\<close> connected to \<^verbatim>\<open>OnError\<close>
  removes the server. It has captured a reference to the pointer in the map, which is gone when
  the server has been removed. Every handler emits its signal last.
\<close>

definition is_error :: "socket_signal \<Rightarrow> bool" where
  "is_error e = (case e of OnError t \<Rightarrow> True | _ \<Rightarrow> False)"

definition on_error :: "(int \<Rightarrow> string) \<Rightarrow> ptr \<Rightarrow> memcached_client \<Rightarrow> memcached_client res" where
  "on_error lexcast p lr =
     (if p \<notin> snd ` set (sl_servers (fst lr)) then Inl UseAfterFree
      else andThen (remove_server lexcast (si_host (sl_items (fst lr) p)) (si_port (sl_items (fst lr) p)) lr)
       (\<lambda>(done, lr). Inr lr))"

definition socket_input ::
    "(int \<Rightarrow> string) \<Rightarrow> protocol \<Rightarrow> build \<Rightarrow> ptr \<Rightarrow> tcp_input \<Rightarrow> memcached_client \<Rightarrow> memcached_client res" where
  "socket_input lexcast pr b p i lr =
     (let (l, r) = lr; s = sl_items l p; c = si_socket s
      in andThen (handle (OnHeaderReaded pr b) (OnBodayReaded pr b) store_bytes i (c, r)) (\<lambda>(c', r).
         foldRes (\<lambda>e. on_error lexcast p)
           (filter is_error (drop (length (signals c)) (signals c')))
           (set_item p (s\<lparr>si_socket := c'\<rparr>) l, r)))"

section \<open>Requests\<close>

text \<open>
  \<^verbatim>\<open>mNextRequestId.fetch_add\<close>, \<^verbatim>\<open>make_shared\<close> of the result and \<^verbatim>\<open>mRequests.insert\<close>, which leaves an
  entry that is already there.
\<close>

definition fetch_add :: "requests \<Rightarrow> i32 \<times> requests" where
  "fetch_add r = (mNextRequestId r, r\<lparr>mNextRequestId := mNextRequestId r + 1\<rparr>)"

definition register_request ::
    "i32 \<Rightarrow> nat option \<Rightarrow> mem_result \<Rightarrow> requests \<Rightarrow> ptr \<times> requests" where
  "register_request requestId callback res r =
     (let p = nextResult r;
          r = set_result p res (r\<lparr>nextResult := Suc p\<rparr>)
      in (p, if map_of (mRequests r) requestId = None
             then r\<lparr>mRequests := mRequests r @ [(requestId, \<lparr>ri_result = p, ri_callback = callback\<rparr>)]\<rparr>
             else r))"

definition send_to ::
    "ptr option \<Rightarrow> (server_item \<Rightarrow> server_item) \<Rightarrow> server_list \<Rightarrow> server_list res" where
  "send_to server send l =
     (case server of None \<Rightarrow> Inl NullPointer | Some s \<Rightarrow> Inr (set_item s (send (sl_items l s)) l))"

definition MC_Get ::
    "protocol \<Rightarrow> build \<Rightarrow> string \<Rightarrow> cell list option \<Rightarrow> nat option \<Rightarrow> memcached_client
      \<Rightarrow> (ptr \<times> memcached_client) res" where
  "MC_Get pr b key buf callback lr =
     (let (l, r) = lr; (requestId, r) = fetch_add r
      in andThen (SL_Get b key l) (\<lambda>(server, l).
         let (result, r) = register_request requestId callback (MemGetResult key buf) r
         in andThen (get_request pr b key requestId) (\<lambda>requestBuf.
            andThen (send_to server (SendRequest requestId requestBuf) l) (\<lambda>l.
            Inr (result, l, r)))))"

definition MC_Get_key where
  "MC_Get_key pr b key callback lr = MC_Get pr b key None callback lr"

definition MC_Delete ::
    "protocol \<Rightarrow> build \<Rightarrow> string \<Rightarrow> nat option \<Rightarrow> memcached_client \<Rightarrow> (ptr \<times> memcached_client) res" where
  "MC_Delete pr b key callback lr =
     (let (l, r) = lr; (requestId, r) = fetch_add r
      in andThen (SL_Get b key l) (\<lambda>(server, l).
         let (result, r) = register_request requestId callback (MemResult key None) r
         in andThen (delete_request pr b key requestId) (\<lambda>requestBuf.
            andThen (send_to server (SendRequest requestId requestBuf) l) (\<lambda>l.
            Inr (result, l, r)))))"

text \<open>The value is a \<^verbatim>\<open>ConstBuffer\<close>, whose \<^verbatim>\<open>Size\<close> goes through its pointer.\<close>

definition buffer_Size :: "cell list option \<Rightarrow> nat res" where
  "buffer_Size buf = (case buf of None \<Rightarrow> Inl NullPointer | Some v \<Rightarrow> Inr (length v))"

definition MC_Append_cmd ::
    "protocol \<Rightarrow> build \<Rightarrow> u8 \<Rightarrow> string \<Rightarrow> cell list option \<Rightarrow> nat option \<Rightarrow> memcached_client
      \<Rightarrow> (ptr \<times> memcached_client) res" where
  "MC_Append_cmd pr b cmd key val callback lr =
     (let (l, r) = lr; (requestId, r) = fetch_add r
      in andThen (SL_Get b key l) (\<lambda>(server, l).
         let (result, r) = register_request requestId callback (MemResult key None) r
         in andThen (buffer_Size val) (\<lambda>size.
            andThen (append_request pr b cmd key size requestId) (\<lambda>requestBuf.
            andThen (send_to server (SendRequests requestId [requestBuf, the val]) l) (\<lambda>l.
            Inr (result, l, r))))))"

definition MC_Append where
  "MC_Append pr b key val callback lr = MC_Append_cmd pr b (opcode_of pr CMD_APPEND) key val callback lr"

definition MC_PreAppend where
  "MC_PreAppend pr b key val callback lr = MC_Append_cmd pr b (opcode_of pr CMD_PREPEND) key val callback lr"

definition MC_Store ::
    "protocol \<Rightarrow> build \<Rightarrow> u8 \<Rightarrow> string \<Rightarrow> u32 \<Rightarrow> u32 \<Rightarrow> cell list option \<Rightarrow> nat option \<Rightarrow> memcached_client
      \<Rightarrow> (ptr \<times> memcached_client) res" where
  "MC_Store pr b cmd key flag expiry buf callback lr =
     (let (l, r) = lr; (requestId, r) = fetch_add r
      in andThen (SL_Get b key l) (\<lambda>(server, l).
         let (result, r) = register_request requestId callback (MemResult key None) r
         in andThen (buffer_Size buf) (\<lambda>size.
            andThen (store_request pr b cmd key flag expiry size requestId) (\<lambda>requestBuf.
            andThen (send_to server (SendRequests requestId [requestBuf, the buf]) l) (\<lambda>l.
            Inr (result, l, r))))))"

definition MC_Set where
  "MC_Set pr b key flag expiry buf callback lr =
     MC_Store pr b (opcode_of pr CMD_SET) key flag expiry buf callback lr"

definition MC_Add where
  "MC_Add pr b key flag expiry buf callback lr =
     MC_Store pr b (opcode_of pr CMD_ADD) key flag expiry buf callback lr"

definition MC_Replace where
  "MC_Replace pr b key flag expiry buf callback lr =
     MC_Store pr b (opcode_of pr CMD_REPLACE) key flag expiry buf callback lr"

definition MC_SelfOp ::
    "protocol \<Rightarrow> build \<Rightarrow> u8 \<Rightarrow> string \<Rightarrow> u64 \<Rightarrow> u64 \<Rightarrow> u32 \<Rightarrow> nat option \<Rightarrow> memcached_client
      \<Rightarrow> (ptr \<times> memcached_client) res" where
  "MC_SelfOp pr b cmd key delta initValue expiry callback lr =
     (let (l, r) = lr; (requestId, r) = fetch_add r
      in andThen (SL_Get b key l) (\<lambda>(server, l).
         let (result, r) = register_request requestId callback (MemIncResult key) r
         in andThen (selfop_request pr b cmd key delta initValue expiry requestId) (\<lambda>requestBuf.
            andThen (send_to server (SendRequest requestId requestBuf) l) (\<lambda>l.
            Inr (result, l, r)))))"

definition MC_Increment where
  "MC_Increment pr b key delta initValue expiry callback lr =
     MC_SelfOp pr b (opcode_of pr CMD_INCREMENT) key delta initValue expiry callback lr"

definition MC_Decrement where
  "MC_Decrement pr b key delta initValue expiry callback lr =
     MC_SelfOp pr b (opcode_of pr CMD_DECREMENT) key delta initValue expiry callback lr"

text \<open>The operations on a server given by the caller.\<close>

definition MC_Flush ::
    "protocol \<Rightarrow> build \<Rightarrow> ptr option \<Rightarrow> u32 \<Rightarrow> nat option \<Rightarrow> memcached_client
      \<Rightarrow> (ptr \<times> memcached_client) res" where
  "MC_Flush pr b server expiry callback lr =
     (let (l, r) = lr; (requestId, r) = fetch_add r;
          (result, r) = register_request requestId callback (MemResult ''flush'' None) r
      in andThen (flush_request pr b expiry requestId) (\<lambda>requestBuf.
         andThen (send_to server (SendRequest requestId requestBuf) l) (\<lambda>l.
         Inr (result, l, r))))"

definition MC_Version ::
    "protocol \<Rightarrow> build \<Rightarrow> ptr option \<Rightarrow> nat option \<Rightarrow> memcached_client
      \<Rightarrow> (ptr \<times> memcached_client) res" where
  "MC_Version pr b server callback lr =
     (let (l, r) = lr; (requestId, r) = fetch_add r;
          (result, r) = register_request requestId callback (MemResult ''version'' None) r
      in andThen (version_request pr b requestId) (\<lambda>requestBuf.
         andThen (send_to server (SendRequest requestId requestBuf) l) (\<lambda>l.
         Inr (result, l, r))))"

definition MC_Stat ::
    "protocol \<Rightarrow> build \<Rightarrow> ptr option \<Rightarrow> string \<Rightarrow> nat option \<Rightarrow> memcached_client
      \<Rightarrow> (ptr \<times> memcached_client) res" where
  "MC_Stat pr b server key callback lr =
     (let (l, r) = lr; (requestId, r) = fetch_add r;
          (result, r) = register_request requestId callback (MemStatResult key) r
      in andThen (stat_request pr b key requestId) (\<lambda>requestBuf.
         andThen (send_to server (SendRequest requestId requestBuf) l) (\<lambda>l.
         Inr (result, l, r))))"

end
