(* ===== verification/Client_Correct.thy ===== *)
theory Client_Correct
  imports Memcached_Client
begin

text \<open>
  What holds of the client in every state it can reach: runs over all its inputs, the
  invariant that ties the request map, the results and the servers together, the invariant \<open>served_inv\<close>
  on top of it, by which a request is notified or waits at a server of the list, and how lost
  servers complete requests.
\<close>

section \<open>Runs\<close>

datatype client_input =
    Do_Get string "cell list option" "nat option"
  | Do_Delete string "nat option"
  | Do_Append u8 string "cell list option" "nat option"
  | Do_Store u8 string u32 u32 "cell list option" "nat option"
  | Do_SelfOp u8 string u64 u64 u32 "nat option"
  | Do_Flush "ptr option" u32 "nat option"
  | Do_Version "ptr option" "nat option"
  | Do_Stat "ptr option" string "nat option"
  | Do_Finish ptr
  | Spurious_Wake ptr
  | Add_Server string int bool
  | Remove_Server string int
  | Socket ptr tcp_input
  | Run_Notify

text \<open>A \<^verbatim>\<open>ServerItem::Ptr\<close> a caller passes is null or points to an item; completions obey asio.\<close>

fun can_happen :: "client_input \<Rightarrow> memcached_client \<Rightarrow> bool" where
  "can_happen (Do_Flush s e cb) (l, r) = (case s of None \<Rightarrow> True | Some p \<Rightarrow> p < sl_next l)"
| "can_happen (Do_Version s cb) (l, r) = (case s of None \<Rightarrow> True | Some p \<Rightarrow> p < sl_next l)"
| "can_happen (Do_Stat s k cb) (l, r) = (case s of None \<Rightarrow> True | Some p \<Rightarrow> p < sl_next l)"
| "can_happen (Socket p i) (l, r) = (p < sl_next l \<and> enabled i (si_socket (sl_items l p)))"
| "can_happen Run_Notify (l, r) = (notifies r \<noteq> [])"
| "can_happen i lr = True"

text \<open>An exception out of \<^verbatim>\<open>Servers.Add\<close> leaves the client as it is at the throw.\<close>

fun client_step ::
    "(int \<Rightarrow> string) \<Rightarrow> md5 \<Rightarrow> protocol \<Rightarrow> build \<Rightarrow> client_input \<Rightarrow> memcached_client \<Rightarrow> memcached_client res" where
  "client_step lexcast raw pr b (Do_Get key buf cb) lr = andThen (MC_Get pr b key buf cb lr) (\<lambda>(p, lr). Inr lr)"
| "client_step lexcast raw pr b (Do_Delete key cb) lr = andThen (MC_Delete pr b key cb lr) (\<lambda>(p, lr). Inr lr)"
| "client_step lexcast raw pr b (Do_Append cmd key val cb) lr =
     andThen (MC_Append_cmd pr b cmd key val cb lr) (\<lambda>(p, lr). Inr lr)"
| "client_step lexcast raw pr b (Do_Store cmd key flag expiry buf cb) lr =
     andThen (MC_Store pr b cmd key flag expiry buf cb lr) (\<lambda>(p, lr). Inr lr)"
| "client_step lexcast raw pr b (Do_SelfOp cmd key delta ini expiry cb) lr =
     andThen (MC_SelfOp pr b cmd key delta ini expiry cb lr) (\<lambda>(p, lr). Inr lr)"
| "client_step lexcast raw pr b (Do_Flush s expiry cb) lr = andThen (MC_Flush pr b s expiry cb lr) (\<lambda>(p, lr). Inr lr)"
| "client_step lexcast raw pr b (Do_Version s cb) lr = andThen (MC_Version pr b s cb lr) (\<lambda>(p, lr). Inr lr)"
| "client_step lexcast raw pr b (Do_Stat s key cb) lr = andThen (MC_Stat pr b s key cb lr) (\<lambda>(p, lr). Inr lr)"
| "client_step lexcast raw pr b (Do_Finish p) (l, r) = Inr (l, set_result p (Finish (results r p)) r)"
| "client_step lexcast raw pr b (Spurious_Wake p) (l, r) = Inr (l, set_result p (wake (results r p)) r)"
| "client_step lexcast raw pr b (Add_Server host port resolves) lr =
     (case add_server lexcast raw host port resolves lr of
        (Inl (Throws e), lr) \<Rightarrow> Inr lr | (Inl e, lr) \<Rightarrow> Inl e | (Inr added, lr) \<Rightarrow> Inr lr)"
| "client_step lexcast raw pr b (Remove_Server host port) lr =
     andThen (remove_server lexcast host port lr) (\<lambda>(gone, lr). Inr lr)"
| "client_step lexcast raw pr b (Socket p i) lr = socket_input lexcast pr b p i lr"
| "client_step lexcast raw pr b Run_Notify (l, r) = andThen (run_notify r) (\<lambda>r. Inr (l, r))"

inductive client_run ::
    "(int \<Rightarrow> string) \<Rightarrow> md5 \<Rightarrow> protocol \<Rightarrow> build \<Rightarrow> memcached_client \<Rightarrow> client_input list
      \<Rightarrow> memcached_client \<Rightarrow> bool"
  for lexcast raw pr b s where
  start: "client_run lexcast raw pr b s [] s"
| step: "client_run lexcast raw pr b s is t \<Longrightarrow> can_happen i t \<Longrightarrow>
    client_step lexcast raw pr b i t = Inr u \<Longrightarrow> client_run lexcast raw pr b s (is @ [i]) u"

section \<open>Invariant\<close>

text \<open>
  Requests in the map have distinct identifiers and results of their own, and those results
  are still pending.
\<close>

definition req_inv :: "requests \<Rightarrow> bool" where
  "req_inv r \<longleftrightarrow>
     distinct (map fst (mRequests r)) \<and> distinct (map (ri_result \<circ> snd) (mRequests r)) \<and>
     (\<forall>(i, it) \<in> set (mRequests r). ri_result it < nextResult r \<and>
        mErrorCode (results r (ri_result it)) = status_code ERequest_PENDING)"

text \<open>Every request in the map waits at some server that exists.\<close>

definition waits_at :: "server_list \<Rightarrow> i32 \<Rightarrow> bool" where
  "waits_at l i \<longleftrightarrow> (\<exists>p < sl_next l. i \<in> set (si_pending (sl_items l p)))"

definition client_inv :: "(int \<Rightarrow> string) \<Rightarrow> memcached_client \<Rightarrow> bool" where
  "client_inv lexcast lr \<longleftrightarrow> sl_invar lexcast (fst lr) \<and> req_inv (snd lr) \<and>
     (\<forall>i \<in> fst ` set (mRequests (snd lr)). waits_at (fst lr) i)"

subsection \<open>The request map\<close>

lemma req_inv_set_result:
  assumes "req_inv r" "mErrorCode res = mErrorCode (results r p)"
  shows "req_inv (set_result p res r)"
  using assms by (auto simp: req_inv_def set_result_def)

lemma req_inv_notifies [simp]: "req_inv (r\<lparr>notifies := ns\<rparr>) = req_inv r"
  by (simp add: req_inv_def)

lemma req_inv_next [simp]: "req_inv (r\<lparr>mNextRequestId := i\<rparr>) = req_inv r"
  by (simp add: req_inv_def)

lemma set_result_requests [simp]:
  "mRequests (set_result p res r) = mRequests r" "nextResult (set_result p res r) = nextResult r"
  "notifies (set_result p res r) = notifies r" "called (set_result p res r) = called r"
  "mNextRequestId (set_result p res r) = mNextRequestId r"
  "results (set_result p res r) = (results r)(p := res)"
  by (simp_all add: set_result_def)

lemma register_request_inv:
  assumes "req_inv r" "mErrorCode res = status_code ERequest_PENDING"
    and "register_request i cb res r = (p, r')"
  shows "req_inv r'" and "fst ` set (mRequests r') \<subseteq> insert i (fst ` set (mRequests r))"
proof -
  have old: "ri_result it \<noteq> nextResult r" if "(j, it) \<in> set (mRequests r)" for j it
    using assms(1) that by (auto simp: req_inv_def)
  have new: "nextResult r \<notin> set (map (ri_result \<circ> snd) (mRequests r))"
    using old by force
  show "req_inv r'"
    using assms old new
    by (auto simp: req_inv_def register_request_def Let_def map_of_eq_None_iff less_Suc_eq
        split: if_splits)
  show "fst ` set (mRequests r') \<subseteq> insert i (fst ` set (mRequests r))"
    using assms(3) by (auto simp: register_request_def Let_def split: if_splits)
qed

lemma FinishRequest_inv:
  "FinishRequest i err r = Inr r' \<Longrightarrow> mRequests r' = mRequests r \<and> (req_inv r' = req_inv r)"
  by (auto simp: FinishRequest_def res_simps split: option.splits if_splits)

lemma run_notify_inv:
  assumes "req_inv r" "run_notify r = Inr r'"
  shows "req_inv r'" and "fst ` set (mRequests r') \<subseteq> fst ` set (mRequests r)"
proof -
  consider "r' = r" | i err ts it where "notifies r = (i, err) # ts" "map_of (mRequests r) i = Some it"
    "mRequests r' = AList.delete i (mRequests r)" "nextResult r' = nextResult r"
    "results r' = (results r)(ri_result it := Notify err (results r (ri_result it)))"
    using assms(2) by (auto simp: run_notify_def item_Notify_def Let_def split: list.splits option.splits)
  then have "req_inv r' \<and> fst ` set (mRequests r') \<subseteq> fst ` set (mRequests r)"
  proof cases
    case 1
    then show ?thesis using assms by simp
  next
    case (2 i err ts it)
    have it: "(i, it) \<in> set (mRequests r)" using 2(2) by (rule map_of_SomeD)
    have other: "ri_result it' \<noteq> ri_result it" if "(j, it') \<in> set (mRequests r)" "j \<noteq> i" for j it'
    proof
      assume "ri_result it' = ri_result it"
      then have "(j, it') = (i, it)"
        using assms(1) that(1) it unfolding req_inv_def distinct_map inj_on_def by force
      with that(2) show False by simp
    qed
    have "req_inv r'"
      using assms(1) other 2 unfolding req_inv_def
      by (auto simp: AList.delete_eq distinct_map_filter)
    then show ?thesis using 2(3) by (auto simp: AList.delete_eq)
  qed
  then show "req_inv r'" "fst ` set (mRequests r') \<subseteq> fst ` set (mRequests r)" by simp_all
qed

lemma OnServerRemoved_inv:
  assumes "OnServerRemoved p s r = Inr r'"
  shows "mRequests r' = mRequests r \<and> (req_inv r \<longrightarrow> req_inv r')"
  by (rule foldRes_invariant [OF assms [unfolded OnServerRemoved_def]])
    (auto dest: FinishRequest_inv)

subsection \<open>The handlers of a connection\<close>

lemma OnHeaderReaded_outcome:
  assumes "OnHeaderReaded pr b bytes r = Inr (ok, header, bufs, r')"
  shows "r' = r \<or> (\<exists>i err. FinishRequest i err r = Inr r') \<or>
    (\<exists>p status valueLen keyLen res.
      FillReceiveBuffer p status [] valueLen keyLen (results r p) = Inr (ok, bufs, res) \<and>
      r' = set_result p res r)"
proof -
  define h where "h = AdjustEndian_response b (read_response pr b bytes)"
  note step = assms [unfolded OnHeaderReaded_def Let_def h_def [symmetric]]
  show ?thesis
  proof (cases "map_of (mRequests r) (rp_opaque h)")
    case None
    then show ?thesis using step by simp
  next
    case (Some it)
    show ?thesis
    proof (cases "value_length h = 0")
      case True
      then have "FinishRequest (rp_opaque h) (ucast (rp_status h)) r = Inr r'"
        using step Some by (auto simp: res_simps)
      then show ?thesis by blast
    next
      case False
      then obtain res where "FillReceiveBuffer (ri_result it) (ucast (rp_status h)) [] (value_length h)
          (ucast (rp_keylen h)) (results r (ri_result it)) = Inr (ok, bufs, res)"
          "r' = set_result (ri_result it) res r"
        using step Some by (auto simp: res_simps)
      then show ?thesis by blast
    qed
  qed
qed

lemma OnBodayReaded_outcome:
  assumes "OnBodayReaded pr b header r = Inr r'"
  shows "r' = r \<or> (\<exists>i err. FinishRequest i err r = Inr r')"
  using assms by (simp add: OnBodayReaded_def Let_def split: option.splits) blast

definition same_requests :: "(i32 \<times> request_item) list \<Rightarrow> requests \<Rightarrow> bool" where
  "same_requests rs r \<longleftrightarrow> mRequests r = rs \<and> req_inv r"

interpretation user: connection_user "OnHeaderReaded pr b" "OnBodayReaded pr b" store_bytes
  "same_requests rs" for pr b rs
proof
  fix r bytes ok header bufs r'
  assume r: "same_requests rs r"
  show "same_requests rs r'" if "OnHeaderReaded pr b bytes r = Inr (ok, header, bufs, r')"
    using r OnHeaderReaded_outcome [OF that]
    by (elim disjE exE conjE)
      (auto simp: same_requests_def intro!: req_inv_set_result dest: FinishRequest_inv FillReceiveBuffer_code)
  show "same_requests rs r'" if "OnBodayReaded pr b header r = Inr r'"
    using r OnBodayReaded_outcome [OF that] by (elim disjE exE conjE) (auto simp: same_requests_def dest: FinishRequest_inv)
  show "same_requests rs (store_bytes a bytes r)" for a
    using r by (auto simp: same_requests_def store_bytes_def intro: req_inv_set_result)
qed

subsection \<open>Issuing a request\<close>

lemma waits_at_set_item:
  assumes "waits_at l i" "set (si_pending (sl_items l p)) \<subseteq> set (si_pending s)"
  shows "waits_at (set_item p s l) i"
  using assms by (auto simp: waits_at_def set_item_def)

lemma client_inv_set_item:
  assumes "client_inv lexcast (l, r)" "si_host s = si_host (sl_items l p)"
    and "si_port s = si_port (sl_items l p)" "set (si_pending (sl_items l p)) \<subseteq> set (si_pending s)"
  shows "client_inv lexcast (set_item p s l, r)"
  using assms by (auto simp: client_inv_def intro: sl_invar_set_item waits_at_set_item)

lemma client_inv_cong:
  assumes "client_inv lexcast (l, r)" "sl_invar lexcast l'" "sl_items l' = sl_items l" "sl_next l' = sl_next l"
  shows "client_inv lexcast (l', r)"
  using assms by (auto simp: client_inv_def waits_at_def)

text \<open>The shape of both \<^verbatim>\<open>SendRequest\<close>s.\<close>

definition queues :: "i32 \<Rightarrow> (server_item \<Rightarrow> server_item) \<Rightarrow> bool" where
  "queues i send \<longleftrightarrow> (\<forall>s. si_host (send s) = si_host s \<and> si_port (send s) = si_port s \<and>
     si_pending (send s) = si_pending s @ [i])"

lemma SendRequest_queues [simp]: "queues i (SendRequest i buf)" "queues i (SendRequests i bufs)"
  by (simp_all add: queues_def SendRequest_def SendRequests_def Let_def)

lemma issue_inv:
  assumes inv: "client_inv lexcast (l, r)" and p: "p < sl_next l" and send: "queues i send"
    and reg: "register_request i cb res (r\<lparr>mNextRequestId := j\<rparr>) = (q, r')"
    and res: "mErrorCode res = status_code ERequest_PENDING"
  shows "client_inv lexcast (set_item p (send (sl_items l p)) l, r')"
proof -
  let ?l = "set_item p (send (sl_items l p)) l"
  have "req_inv (r\<lparr>mNextRequestId := j\<rparr>)" using inv by (simp add: client_inv_def)
  note reg = register_request_inv [OF this res reg]
  have inv': "client_inv lexcast (?l, r)"
    using inv send by (intro client_inv_set_item) (auto simp: queues_def)
  have wait: "waits_at ?l i"
    using p send by (auto simp: waits_at_def queues_def intro!: exI [of _ p])
  have old: "\<forall>j \<in> fst ` set (mRequests r). waits_at ?l j"
    using inv' unfolding client_inv_def fst_conv snd_conv by (elim conjE)
  have sub: "fst ` set (mRequests r') \<subseteq> insert i (fst ` set (mRequests r))" using reg(2) by simp
  have "\<forall>j \<in> fst ` set (mRequests r'). waits_at ?l j" by (rule ball_insert_subset [OF sub wait old])
  with inv' reg(1) show ?thesis by (simp add: client_inv_def)
qed

lemma SL_Get_inv:
  assumes "client_inv lexcast (l, r)" "SL_Get b key l = Inr (server, l')"
  shows "client_inv lexcast (l', r)" and "case server of None \<Rightarrow> True | Some p \<Rightarrow> p < sl_next l'"
proof -
  have inv: "sl_invar lexcast l" using assms(1) by (simp add: client_inv_def)
  have frame: "sl_items l' = sl_items l" "sl_next l' = sl_next l"
    using assms(2) by (auto simp: SL_Get_def res_simps split: option.splits)
  show "client_inv lexcast (l', r)"
    using client_inv_cong [OF assms(1)] sl_invar_get [OF inv assms(2)] frame by blast
  show "case server of None \<Rightarrow> True | Some p \<Rightarrow> p < sl_next l'"
    using sl_invar_get(3) [OF inv assms(2)] inv frame by (fastforce simp: sl_invar_def split: option.splits)
qed

lemma issue_to_inv:
  assumes "client_inv lexcast (l, r)" "case server of None \<Rightarrow> True | Some p \<Rightarrow> p < sl_next l"
    and "register_request i cb res (r\<lparr>mNextRequestId := j\<rparr>) = (q, r')"
    and "send_to server send l = Inr l'" "queues i send"
    and "mErrorCode res = status_code ERequest_PENDING"
  shows "client_inv lexcast (l', r')"
  using assms issue_inv [OF assms(1) _ assms(5,3,6)] by (auto simp: send_to_def split: option.splits)

lemma new_result_pending [simp]:
  "mErrorCode (MemResult key buf) = status_code ERequest_PENDING"
  "mErrorCode (MemGetResult key buf) = status_code ERequest_PENDING"
  "mErrorCode (MemIncResult key) = status_code ERequest_PENDING"
  "mErrorCode (MemStatResult key) = status_code ERequest_PENDING"
  by (simp_all add: MemResult_def MemGetResult_def MemIncResult_def MemStatResult_def)

lemma new_result_more [simp]:
  "mHasMoreResult (MemResult key buf) = None" "mHasMoreResult (MemGetResult key buf) = None"
  "mHasMoreResult (MemIncResult key) = None" "mHasMoreResult (MemStatResult key) = None"
  by (simp_all add: MemResult_def MemGetResult_def MemIncResult_def MemStatResult_def)

text \<open>
  What every operation that succeeds has done: it has registered a fresh result and queued its bytes
  at the server, which is chosen by the key or given by the caller.
\<close>

lemmas op_defs = fetch_add_def Let_def res_simps

definition sends :: "server_list \<Rightarrow> requests \<Rightarrow> ptr option \<Rightarrow> server_list \<Rightarrow> requests \<Rightarrow> bool" where
  "sends l r server l' r' \<longleftrightarrow> (\<exists>i cb res j q send.
     register_request i cb res (r\<lparr>mNextRequestId := j\<rparr>) = (q, r') \<and> send_to server send l = Inr l' \<and>
     queues i send \<and> mErrorCode res = status_code ERequest_PENDING \<and> mHasMoreResult res = None)"

lemma sendsI:
  "register_request i cb res (r\<lparr>mNextRequestId := j\<rparr>) = (q, r') \<Longrightarrow> send_to server send l = Inr l' \<Longrightarrow>
     queues i send \<Longrightarrow> mErrorCode res = status_code ERequest_PENDING \<Longrightarrow> mHasMoreResult res = None \<Longrightarrow>
     sends l r server l' r'"
  unfolding sends_def by blast

definition keyed_sends :: "build \<Rightarrow> server_list \<Rightarrow> requests \<Rightarrow> server_list \<Rightarrow> requests \<Rightarrow> bool" where
  "keyed_sends b l r l' r' \<longleftrightarrow> (\<exists>key server l1. SL_Get b key l = Inr (server, l1) \<and> sends l1 r server l' r')"

lemma keyed_sendsI:
  "SL_Get b key l = Inr (server, l1) \<Longrightarrow> register_request i cb res (r\<lparr>mNextRequestId := j\<rparr>) = (q, r') \<Longrightarrow>
     send_to server send l1 = Inr l' \<Longrightarrow> queues i send \<Longrightarrow>
     mErrorCode res = status_code ERequest_PENDING \<Longrightarrow> mHasMoreResult res = None \<Longrightarrow> keyed_sends b l r l' r'"
  unfolding keyed_sends_def by (blast intro: sendsI)

lemma request_ops_send:
  shows "MC_Get pr b key buf cb (l, r) = Inr (p, l', r') \<Longrightarrow> keyed_sends b l r l' r'"
    and "MC_Delete pr b key cb (l, r) = Inr (p, l', r') \<Longrightarrow> keyed_sends b l r l' r'"
    and "MC_Append_cmd pr b cmd key val cb (l, r) = Inr (p, l', r') \<Longrightarrow> keyed_sends b l r l' r'"
    and "MC_Store pr b cmd key flag expiry val cb (l, r) = Inr (p, l', r') \<Longrightarrow> keyed_sends b l r l' r'"
    and "MC_SelfOp pr b cmd key delta ini expiry cb (l, r) = Inr (p, l', r') \<Longrightarrow> keyed_sends b l r l' r'"
proof -
  let ?i = "mNextRequestId r" and ?r = "r\<lparr>mNextRequestId := mNextRequestId r + 1\<rparr>"
  show "keyed_sends b l r l' r'" if "MC_Get pr b key buf cb (l, r) = Inr (p, l', r')"
    using that by (cases "register_request ?i cb (MemGetResult key buf) ?r")
      (auto simp: MC_Get_def op_defs, erule (2) keyed_sendsI, simp_all)
  show "keyed_sends b l r l' r'" if "MC_Delete pr b key cb (l, r) = Inr (p, l', r')"
    using that by (cases "register_request ?i cb (MemResult key None) ?r")
      (auto simp: MC_Delete_def op_defs, erule (2) keyed_sendsI, simp_all)
  show "keyed_sends b l r l' r'" if "MC_Append_cmd pr b cmd key val cb (l, r) = Inr (p, l', r')"
    using that by (cases "register_request ?i cb (MemResult key None) ?r")
      (auto simp: MC_Append_cmd_def op_defs, erule (2) keyed_sendsI, simp_all)
  show "keyed_sends b l r l' r'" if "MC_Store pr b cmd key flag expiry val cb (l, r) = Inr (p, l', r')"
    using that by (cases "register_request ?i cb (MemResult key None) ?r")
      (auto simp: MC_Store_def op_defs, erule (2) keyed_sendsI, simp_all)
  show "keyed_sends b l r l' r'" if "MC_SelfOp pr b cmd key delta ini expiry cb (l, r) = Inr (p, l', r')"
    using that by (cases "register_request ?i cb (MemIncResult key) ?r")
      (auto simp: MC_SelfOp_def op_defs, erule (2) keyed_sendsI, simp_all)
qed

lemma server_ops_send:
  shows "MC_Flush pr b server expiry cb (l, r) = Inr (p, l', r') \<Longrightarrow> sends l r server l' r'"
    and "MC_Version pr b server cb (l, r) = Inr (p, l', r') \<Longrightarrow> sends l r server l' r'"
    and "MC_Stat pr b server key cb (l, r) = Inr (p, l', r') \<Longrightarrow> sends l r server l' r'"
proof -
  let ?i = "mNextRequestId r" and ?r = "r\<lparr>mNextRequestId := mNextRequestId r + 1\<rparr>"
  show "sends l r server l' r'" if "MC_Flush pr b server expiry cb (l, r) = Inr (p, l', r')"
    using that by (cases "register_request ?i cb (MemResult ''flush'' None) ?r")
      (auto simp: MC_Flush_def op_defs, erule (1) sendsI, simp_all)
  show "sends l r server l' r'" if "MC_Version pr b server cb (l, r) = Inr (p, l', r')"
    using that by (cases "register_request ?i cb (MemResult ''version'' None) ?r")
      (auto simp: MC_Version_def op_defs, erule (1) sendsI, simp_all)
  show "sends l r server l' r'" if "MC_Stat pr b server key cb (l, r) = Inr (p, l', r')"
    using that by (cases "register_request ?i cb (MemStatResult key) ?r")
      (auto simp: MC_Stat_def op_defs, erule (1) sendsI, simp_all)
qed

lemma sends_inv:
  assumes "client_inv lexcast (l, r)" "sends l r server l' r'"
    and "case server of None \<Rightarrow> True | Some p \<Rightarrow> p < sl_next l"
  shows "client_inv lexcast (l', r')"
  using assms(2) issue_to_inv [OF assms(1,3)] unfolding sends_def by blast

lemma keyed_sends_inv:
  assumes "client_inv lexcast (l, r)" "keyed_sends b l r l' r'"
  shows "client_inv lexcast (l', r')"
  using assms(2) SL_Get_inv [OF assms(1)] unfolding keyed_sends_def by (blast intro: sends_inv)

lemmas request_ops_inv = keyed_sends_inv [OF _ request_ops_send(1)]
  keyed_sends_inv [OF _ request_ops_send(2)]
  keyed_sends_inv [OF _ request_ops_send(3)]
  keyed_sends_inv [OF _ request_ops_send(4)]
  keyed_sends_inv [OF _ request_ops_send(5)]

lemmas server_ops_inv = sends_inv [OF _ server_ops_send(1)]
  sends_inv [OF _ server_ops_send(2)]
  sends_inv [OF _ server_ops_send(3)]

subsection \<open>Servers and connections\<close>

lemma remove_server_inv:
  assumes "client_inv lexcast (l, r)" "remove_server lexcast host port (l, r) = Inr (gone, l', r')"
  shows "client_inv lexcast (l', r')"
proof (cases gone)
  case False
  then have "l' = l" "r' = r"
    using assms(2) by (auto simp: remove_server_def SL_Remove_def Let_def res_simps split: option.splits)
  with assms(1) show ?thesis by simp
next
  case True
  have rem: "SL_Remove lexcast OnServerRemoved host port (l, r) = Inr (True, l', r')"
    using assms(2) True by (simp add: remove_server_def)
  then obtain p where p: "map_of (sl_servers l) (ToString lexcast host port) = Some p"
    "OnServerRemoved p (sl_items l p) r = Inr r'" "sl_items l' = sl_items l" "sl_next l' = sl_next l"
    by (auto simp: SL_Remove_def Let_def res_simps split: option.splits)
  have "sl_invar lexcast l'"
    using sl_invar_remove(1) [OF _ rem p(1)] assms(1) by (simp add: client_inv_def)
  with assms(1) p(3,4) OnServerRemoved_inv [OF p(2)] show ?thesis
    by (auto simp: client_inv_def waits_at_def)
qed

lemma on_error_inv:
  "client_inv lexcast lr \<Longrightarrow> on_error lexcast p lr = Inr lr' \<Longrightarrow> client_inv lexcast lr'"
  by (cases lr; cases lr') (auto simp: on_error_def res_simps dest: remove_server_inv split: if_splits)

lemma socket_input_inv:
  assumes "client_inv lexcast (l, r)" "socket_input lexcast pr b p i (l, r) = Inr lr'"
  shows "client_inv lexcast lr'"
proof -
  let ?s = "sl_items l p"
  obtain c' r1 where h: "handle (OnHeaderReaded pr b) (OnBodayReaded pr b) store_bytes i (si_socket ?s, r) =
      Inr (c', r1)"
    "foldRes (\<lambda>e. on_error lexcast p)
      (filter is_error (drop (length (signals (si_socket ?s))) (signals c')))
      (set_item p (?s\<lparr>si_socket := c'\<rparr>) l, r1) = Inr lr'"
    using assms(2) by (auto simp: socket_input_def Let_def res_simps)
  have "same_requests (mRequests r) r1"
    by (rule user.handle_keep [OF _ h(1)]) (use assms(1) in \<open>simp add: same_requests_def client_inv_def\<close>)
  then have "client_inv lexcast (l, r1)"
    using assms(1) by (auto simp: client_inv_def same_requests_def)
  then have "client_inv lexcast (set_item p (?s\<lparr>si_socket := c'\<rparr>) l, r1)"
    by (intro client_inv_set_item) auto
  then show ?thesis by (rule foldRes_invariant [OF h(2)]) (rule on_error_inv)
qed

lemma OnServerAdded_identity: "keeps_identity OnServerAdded"
  by (auto simp: keeps_identity_def OnServerAdded_def)

lemma add_server_inv:
  assumes inv: "client_inv lexcast (l, r)"
    and step: "client_step lexcast raw pr b (Add_Server host port resolves) (l, r) = Inr (l', r')"
  shows "client_inv lexcast (l', r')"
proof -
  obtain res where add: "SL_Add lexcast raw OnServerAdded host port resolves (l, r) = (res, l', r')"
    and res: "res \<noteq> Inl NullPointer"
    using step by (auto simp: add_server_def split: prod.splits sum.splits fault.splits)
  have sl: "sl_invar lexcast l" using inv by (simp add: client_inv_def)
  have wait: "waits_at (set_item (sl_next l) s (registered lexcast host port a d l)) i"
    if "waits_at l i" for s a d i
    using that by (force simp: waits_at_def registered_def set_item_def less_Suc_eq)
  have reg: "client_inv lexcast (set_item (sl_next l) s (registered lexcast host port a d l), r)"
    if "sl_invar lexcast (registered lexcast host port a d l)" "si_host s = host" "si_port s = port" for s a d
  proof -
    have "sl_invar lexcast (set_item (sl_next l) s (registered lexcast host port a d l))"
      by (rule sl_invar_set_item [OF that(1)]) (simp_all add: that ServerItem_def)
    then show ?thesis using inv wait unfolding client_inv_def fst_conv snd_conv by blast
  qed
  from add res show ?thesis
  proof (cases rule: SL_Add_outcome)
    case refused
    then show ?thesis using inv by simp
  next
    case (failed a)
    then have "sl_invar lexcast (registered lexcast host port a (sl_algorithms l a) l)"
      using sl by (intro sl_invar_registered) (auto simp: sl_invar_def)
    from reg [OF this, of "ServerItem host port 1"] failed show ?thesis
      by (simp add: ServerItem_def registered_def set_item_def)
  next
    case (added a d s)
    have "sl_next l \<notin> distri_servers (sl_algorithms l a)"
      using sl_invarD(1) [OF sl] sl_invarD(3) [OF sl added(1)] by (rule contra_subsetD [rotated])
    then have "distri_invar d \<and> distri_servers d \<subseteq> insert (sl_next l) (distri_servers (sl_algorithms l a))"
      by (rule distri_Add_sound [OF added(3) sl_invarD(2) [OF sl added(1)]])
    then have "sl_invar lexcast (registered lexcast host port a d l)"
      using sl_invar_registered [OF sl added(1,2)] by blast
    moreover have "r' = r" using added(6) by (auto simp: OnServerAdded_def)
    ultimately show ?thesis using reg added(4,5) OnServerAdded_identity by auto
  qed
qed

subsection \<open>All steps\<close>

lemma client_step_inv:
  assumes "client_inv lexcast lr" "can_happen i lr" "client_step lexcast raw pr b i lr = Inr lr'"
  shows "client_inv lexcast lr'"
proof -
  obtain l r where lr: "lr = (l, r)" by (cases lr)
  obtain l' r' where lr': "lr' = (l', r')" by (cases lr')
  note inv = assms(1) [unfolded lr]
  note ops = request_ops_inv [OF inv] server_ops_inv [OF inv] remove_server_inv [OF inv]
  note step = assms(2,3) [unfolded lr lr']
  have result: "client_inv lexcast (l, set_result p res r)" if "mErrorCode res = mErrorCode (results r p)" for p res
    using inv that by (auto simp: client_inv_def intro: req_inv_set_result)
  show ?thesis
  proof (cases i)
    case (Do_Finish p)
    then show ?thesis using step result [of "Finish (results r p)" p] by (auto simp: lr' Finish_def)
  next
    case (Spurious_Wake p)
    then show ?thesis using step result [of "wake (results r p)" p] by (auto simp: lr')
  next
    case (Add_Server host port resolves)
    then show ?thesis using step(2) unfolding lr' by (blast intro: add_server_inv [OF inv])
  next
    case (Socket p j)
    then show ?thesis using step unfolding lr' by (auto intro: socket_input_inv [OF inv])
  next
    case Run_Notify
    then have n: "run_notify r = Inr r'" "l' = l" using step by (auto simp: res_simps)
    have r: "req_inv r" "\<forall>j \<in> fst ` set (mRequests r). waits_at l j"
      using inv by (auto simp: client_inv_def)
    show ?thesis
      using run_notify_inv(1) [OF r(1) n(1)] ball_subset [OF run_notify_inv(2) [OF r(1) n(1)] r(2)] inv n(2)
      by (simp add: lr' client_inv_def)
  qed (use step in \<open>auto simp: lr' res_simps dest: ops\<close>)
qed

lemma client_run_inv:
  "client_run lexcast raw pr b s is t \<Longrightarrow> client_inv lexcast s \<Longrightarrow> client_inv lexcast t"
  by (induction rule: client_run.induct) (auto dest: client_step_inv)

lemma client_inv_start: "sl_invar lexcast l \<Longrightarrow> client_inv lexcast (l, MemcachedClient heap)"
  by (simp add: client_inv_def req_inv_def MemcachedClient_def)

section \<open>Where requests wait\<close>

text \<open>
  A request in the map either has a notification posted, or waits at a server on the list, whose
  loss will notify it. That rests on the results not asking for more, which \<^verbatim>\<open>FinishRequest\<close> would
  wait for, and on direct calls giving a server of the list.
\<close>

definition no_more :: "requests \<Rightarrow> bool" where
  "no_more r \<longleftrightarrow> (\<forall>(i, it) \<in> set (mRequests r). mHasMoreResult (results r (ri_result it)) \<noteq> Some True)"

definition served :: "server_list \<Rightarrow> requests \<Rightarrow> bool" where
  "served l r \<longleftrightarrow> (\<forall>i \<in> fst ` set (mRequests r). i \<in> fst ` set (notifies r) \<or>
     (\<exists>p \<in> snd ` set (sl_servers l). i \<in> set (si_pending (sl_items l p))))"

lemma served_mono:
  assumes "served l r" "fst ` set (mRequests r') \<subseteq> fst ` set (mRequests r)"
    and "fst ` set (notifies r) \<subseteq> fst ` set (notifies r')"
    and "\<And>p. p \<in> snd ` set (sl_servers l) \<Longrightarrow> p \<in> snd ` set (sl_servers l') \<and>
      set (si_pending (sl_items l p)) \<subseteq> set (si_pending (sl_items l' p))"
  shows "served l' r'"
  unfolding served_def
proof
  fix i
  assume "i \<in> fst ` set (mRequests r')"
  then have "i \<in> fst ` set (mRequests r)" by (rule subsetD [OF assms(2)])
  from bspec [OF assms(1) [unfolded served_def] this]
  show "i \<in> fst ` set (notifies r') \<or> (\<exists>p \<in> snd ` set (sl_servers l'). i \<in> set (si_pending (sl_items l' p)))"
  proof (elim disjE bexE)
    assume "i \<in> fst ` set (notifies r)"
    then show ?thesis by (intro disjI1 subsetD [OF assms(3)])
  next
    fix p
    assume "p \<in> snd ` set (sl_servers l)" "i \<in> set (si_pending (sl_items l p))"
    then show ?thesis by (intro disjI2 bexI [of _ p]) (use assms(4) [of p] in simp_all, blast)
  qed
qed

lemma no_more_set_result:
  "no_more r \<Longrightarrow> mHasMoreResult res \<in> {mHasMoreResult (results r p), Some False} \<Longrightarrow> no_more (set_result p res r)"
  by (auto simp: no_more_def)

lemma FillReceiveBuffer_more:
  "FillReceiveBuffer p status bufs valueLen keyLen r = Inr (ok, bufs', r') \<Longrightarrow>
     mHasMoreResult r' \<in> {mHasMoreResult r, Some False}"
  by (auto simp: fill_defs split: result_kind.splits option.splits if_splits)

lemma wake_more [simp]: "mHasMoreResult (wake r) = mHasMoreResult r" "mHasMoreResult (Notify err r) = mHasMoreResult r"
  by (simp_all add: wake_def Notify_def)

lemma FinishRequest_posts:
  assumes "no_more r" "FinishRequest i err r = Inr r'"
  shows "r' = r\<lparr>notifies := notifies r @ [(i, err)]\<rparr>"
proof -
  obtain it more where it: "map_of (mRequests r) i = Some it" "HasMoreResult (results r (ri_result it)) = Inr more"
    using assms(2) by (auto simp: FinishRequest_def res_simps split: option.splits)
  then have "mHasMoreResult (results r (ri_result it)) \<noteq> Some True"
    using assms(1) map_of_SomeD [OF it(1)] by (auto simp: no_more_def)
  then have "\<not> more"
    using it(2) by (auto simp: HasMoreResult_def split: result_kind.splits option.splits)
  then show ?thesis using assms(2) it by (simp add: FinishRequest_def)
qed

lemma OnServerRemoved_posts:
  assumes "no_more r" "OnServerRemoved p s r = Inr r'"
  shows "r' = r\<lparr>notifies := notifies r @ map (\<lambda>i. (i, status_code ERequest_NETWORK_ERROR)) (si_pending s)\<rparr>"
proof -
  have "foldRes (\<lambda>i. FinishRequest i err) is r = Inr r' \<Longrightarrow> no_more r \<Longrightarrow>
      r' = r\<lparr>notifies := notifies r @ map (\<lambda>i. (i, err)) is\<rparr>" for err "is" r
  proof (induction "is" arbitrary: r)
    case (Cons i "is")
    then obtain r1 where r1: "FinishRequest i err r = Inr r1" "foldRes (\<lambda>i. FinishRequest i err) is r1 = Inr r'"
      by (auto simp: res_simps)
    then have "r1 = r\<lparr>notifies := notifies r @ [(i, err)]\<rparr>" using FinishRequest_posts Cons.prems(2) by blast
    with Cons.IH [OF r1(2)] Cons.prems(2) show ?case by (simp add: no_more_def)
  qed simp
  with assms show ?thesis by (simp add: OnServerRemoved_def)
qed

text \<open>The handlers of a connection leave the map, keep what is posted and add to it.\<close>

definition posts_only :: "(i32 \<times> request_item) list \<Rightarrow> (i32 \<times> ERequestStatus) set \<Rightarrow> requests \<Rightarrow> bool" where
  "posts_only rs ns r \<longleftrightarrow> mRequests r = rs \<and> ns \<subseteq> set (notifies r) \<and> no_more r"

lemma posts_only_finish: "posts_only rs ns r \<Longrightarrow> FinishRequest i err r = Inr r' \<Longrightarrow> posts_only rs ns r'"
  using FinishRequest_posts [of r i err r'] by (auto simp: posts_only_def no_more_def)

lemma posts_only_result:
  "posts_only rs ns r \<Longrightarrow> mHasMoreResult res \<in> {mHasMoreResult (results r p), Some False} \<Longrightarrow>
     posts_only rs ns (set_result p res r)"
  using no_more_set_result [of r res p] by (auto simp: posts_only_def)

interpretation posting: connection_user "OnHeaderReaded pr b" "OnBodayReaded pr b" store_bytes
  "posts_only rs ns" for pr b rs ns
proof
  fix r bytes ok header bufs r'
  assume r: "posts_only rs ns r"
  show "posts_only rs ns r'" if "OnHeaderReaded pr b bytes r = Inr (ok, header, bufs, r')"
    using OnHeaderReaded_outcome [OF that]
    by (elim disjE exE conjE)
      (use r in \<open>auto intro: posts_only_finish posts_only_result dest: FillReceiveBuffer_more\<close>)
  show "posts_only rs ns r'" if "OnBodayReaded pr b header r = Inr r'"
    using OnBodayReaded_outcome [OF that] r by (elim disjE exE) (auto intro: posts_only_finish)
  show "posts_only rs ns (store_bytes a bytes r)" for a
    using r by (auto simp: store_bytes_def intro: posts_only_result)
qed

definition served_inv :: "(int \<Rightarrow> string) \<Rightarrow> memcached_client \<Rightarrow> bool" where
  "served_inv lexcast lr \<longleftrightarrow> client_inv lexcast lr \<and> served (fst lr) (snd lr) \<and> no_more (snd lr)"

lemma served_sends:
  assumes inv: "served_inv lexcast (l, r)" and send: "sends l r (Some p) l' r'"
    and p: "p \<in> snd ` set (sl_servers l)"
  shows "served l' r'" and "no_more r'"
proof -
  obtain i cb res j q send where s: "register_request i cb res (r\<lparr>mNextRequestId := j\<rparr>) = (q, r')"
    "l' = set_item p (send (sl_items l p)) l" "queues i send" "mHasMoreResult res = None"
    using send by (auto simp: sends_def send_to_def)
  have old: "\<forall>(i, it) \<in> set (mRequests r). ri_result it < nextResult r"
    using inv by (auto simp: served_inv_def client_inv_def req_inv_def)
  then show "no_more r'"
    using inv s(1,4) by (fastforce simp: served_inv_def no_more_def register_request_def Let_def split: if_splits)
  have reg: "fst ` set (mRequests r') \<subseteq> insert i (fst ` set (mRequests r))" "notifies r' = notifies r"
    using s(1) by (auto simp: register_request_def Let_def split: if_splits)
  have pend: "set (si_pending (sl_items l q)) \<subseteq> set (si_pending (sl_items l' q))" "i \<in> set (si_pending (sl_items l' p))"
    for q using s(2,3) by (auto simp: set_item_def queues_def)
  have same: "sl_servers l' = sl_servers l" by (simp add: s(2))
  have "\<forall>j \<in> fst ` set (mRequests r). j \<in> fst ` set (notifies r) \<or>
      (\<exists>q \<in> snd ` set (sl_servers l). j \<in> set (si_pending (sl_items l q)))"
    using inv by (simp add: served_inv_def served_def)
  then have old: "\<forall>j \<in> fst ` set (mRequests r). j \<in> fst ` set (notifies r') \<or>
      (\<exists>q \<in> snd ` set (sl_servers l'). j \<in> set (si_pending (sl_items l' q)))"
    unfolding same reg(2) using pend(1) by blast
  show "served l' r'"
    unfolding served_def
    by (rule ball_insert_subset [OF reg(1) _ old]) (use p pend(2) in \<open>auto simp only: same\<close>)
qed

lemma served_keyed:
  assumes inv: "served_inv lexcast (l, r)" and send: "keyed_sends b l r l' r'"
  shows "served l' r'" and "no_more r'"
proof -
  obtain key server l1 where get: "SL_Get b key l = Inr (server, l1)" "sends l1 r server l' r'"
    using send by (auto simp: keyed_sends_def)
  have sl: "sl_invar lexcast l" using inv by (simp add: served_inv_def client_inv_def)
  have same: "sl_servers l1 = sl_servers l" "sl_items l1 = sl_items l"
    using get(1) by (auto simp: SL_Get_def res_simps split: option.splits)
  have "client_inv lexcast (l1, r)" using SL_Get_inv(1) [OF _ get(1)] inv by (simp add: served_inv_def)
  then have inv1: "served_inv lexcast (l1, r)" using inv same by (simp add: served_inv_def served_def)
  obtain p where p: "server = Some p" using get(2) by (auto simp: sends_def send_to_def split: option.splits)
  have "p \<in> snd ` set (sl_servers l1)" using sl_invar_get(3) [OF sl get(1)] p same by simp
  from served_sends [OF inv1 get(2) [unfolded p] this] show "served l' r'" "no_more r'" .
qed

lemma served_remove:
  assumes inv: "served_inv lexcast (l, r)" and rem: "remove_server lexcast host port (l, r) = Inr (gone, l', r')"
  shows "served_inv lexcast (l', r')"
proof (cases gone)
  case False
  then have "l' = l" "r' = r"
    using rem by (auto simp: remove_server_def SL_Remove_def Let_def res_simps split: option.splits)
  with inv show ?thesis by simp
next
  case True
  have sl: "sl_invar lexcast l" using inv by (simp add: served_inv_def client_inv_def)
  obtain p where p: "map_of (sl_servers l) (ToString lexcast host port) = Some p"
    "OnServerRemoved p (sl_items l p) r = Inr r'" "sl_items l' = sl_items l"
    "SL_Remove lexcast OnServerRemoved host port (l, r) = Inr (True, l', r')"
    using rem True by (auto simp: remove_server_def SL_Remove_def Let_def res_simps split: option.splits)
  have left: "snd ` set (sl_servers l') = snd ` set (sl_servers l) - {p}"
    by (rule sl_invar_remove(2) [OF sl p(4,1)])
  have r': "r' = r\<lparr>notifies := notifies r @
      map (\<lambda>i. (i, status_code ERequest_NETWORK_ERROR)) (si_pending (sl_items l p))\<rparr>"
    using OnServerRemoved_posts [OF _ p(2)] inv by (simp add: served_inv_def)
  have sv: "\<forall>i \<in> fst ` set (mRequests r). i \<in> fst ` set (notifies r) \<or>
      (\<exists>q \<in> snd ` set (sl_servers l). i \<in> set (si_pending (sl_items l q)))"
    using inv unfolding served_inv_def served_def fst_conv snd_conv by (elim conjE)
  have "i \<in> fst ` set (notifies r') \<or> (\<exists>q \<in> snd ` set (sl_servers l'). i \<in> set (si_pending (sl_items l' q)))"
    if "i \<in> fst ` set (mRequests r)" for i
    using bspec [OF sv that]
  proof (elim disjE bexE)
    fix q
    assume "q \<in> snd ` set (sl_servers l)" "i \<in> set (si_pending (sl_items l q))"
    then show ?thesis by (cases "q = p") (use left p(3) in \<open>simp_all add: r' image_Un image_image\<close>, blast)
  qed (simp add: r' image_Un)
  then have "served l' r'" by (simp add: served_def r')
  then show ?thesis
    using inv remove_server_inv [OF _ rem] by (simp add: served_inv_def r' no_more_def)
qed

lemma served_socket:
  assumes inv: "served_inv lexcast (l, r)" and step: "socket_input lexcast pr b p i (l, r) = Inr lr'"
  shows "served_inv lexcast lr'"
proof -
  let ?s = "sl_items l p"
  obtain c' r1 where h: "handle (OnHeaderReaded pr b) (OnBodayReaded pr b) store_bytes i (si_socket ?s, r) =
      Inr (c', r1)"
    "foldRes (\<lambda>e. on_error lexcast p)
      (filter is_error (drop (length (signals (si_socket ?s))) (signals c')))
      (set_item p (?s\<lparr>si_socket := c'\<rparr>) l, r1) = Inr lr'"
    using step by (auto simp: socket_input_def Let_def res_simps)
  let ?l = "set_item p (?s\<lparr>si_socket := c'\<rparr>) l"
  have "posts_only (mRequests r) (set (notifies r)) r1"
    by (rule posting.handle_keep [OF _ h(1)]) (use inv in \<open>simp add: posts_only_def served_inv_def\<close>)
  then have r1: "mRequests r1 = mRequests r" "set (notifies r) \<subseteq> set (notifies r1)" "no_more r1"
    by (simp_all add: posts_only_def)
  have "same_requests (mRequests r) r1"
    by (rule user.handle_keep [OF _ h(1)]) (use inv in \<open>simp add: same_requests_def served_inv_def client_inv_def\<close>)
  then have "client_inv lexcast (l, r1)"
    using inv by (auto simp: served_inv_def client_inv_def same_requests_def)
  then have "client_inv lexcast (?l, r1)" by (intro client_inv_set_item) auto
  moreover have "served ?l r1"
    by (rule served_mono [of l r]) (use inv r1 in \<open>auto simp: served_inv_def set_item_def\<close>)
  ultimately have "served_inv lexcast (?l, r1)" using r1(3) by (simp add: served_inv_def)
  then show ?thesis
  proof (rule foldRes_invariant [OF h(2)])
    fix e s t
    assume "served_inv lexcast s" "on_error lexcast p s = Inr t"
    then show "served_inv lexcast t"
      by (cases s; cases t) (auto simp: on_error_def res_simps dest: served_remove split: if_splits)
  qed
qed

lemma served_add:
  assumes inv: "served_inv lexcast (l, r)"
    and step: "client_step lexcast raw pr b (Add_Server host port resolves) (l, r) = Inr (l', r')"
  shows "served l' r'" and "no_more r'"
proof -
  obtain res where add: "SL_Add lexcast raw OnServerAdded host port resolves (l, r) = (res, l', r')"
    and res: "res \<noteq> Inl NullPointer"
    using step by (auto simp: add_server_def split: prod.splits sum.splits fault.splits)
  have fresh: "sl_next l \<notin> snd ` set (sl_servers l)"
    using inv by (intro sl_invarD(1)) (auto simp: served_inv_def client_inv_def)
  have same: "r' = r \<and> (\<forall>p \<in> snd ` set (sl_servers l). p \<in> snd ` set (sl_servers l') \<and> sl_items l' p = sl_items l p)"
    using add res
  proof (cases rule: SL_Add_outcome)
    case (added a d s)
    then have "r' = r" by (auto simp: OnServerAdded_def)
    moreover have "sl_items l' p = sl_items l p" if "p \<noteq> sl_next l" for p
      using that added(4) by (simp add: set_item_def registered_def)
    ultimately show ?thesis using added(4) fresh by force
  next
    case (failed a)
    then have "sl_items l' p = sl_items l p" if "p \<noteq> sl_next l" for p
      using that by (simp add: set_item_def registered_def)
    then show ?thesis using failed fresh by force
  qed auto
  then show "no_more r'" using inv by (simp add: served_inv_def)
  have kept: "p \<in> snd ` set (sl_servers l') \<and> set (si_pending (sl_items l p)) \<subseteq> set (si_pending (sl_items l' p))"
    if "p \<in> snd ` set (sl_servers l)" for p
    using bspec [OF conjunct2 [OF same] that] by simp
  have old: "served l r" using inv by (simp add: served_inv_def)
  show "served l' r'"
    unfolding conjunct1 [OF same] by (rule served_mono [OF old subset_refl subset_refl kept])
qed

lemma served_notify:
  assumes inv: "served_inv lexcast (l, r)" and run: "run_notify r = Inr r'"
  shows "served l r'" and "no_more r'"
proof -
  consider "r' = r" | i err ts it where "notifies r = (i, err) # ts" "map_of (mRequests r) i = Some it"
    "mRequests r' = AList.delete i (mRequests r)" "notifies r' = ts"
    "results r' = (results r)(ri_result it := Notify err (results r (ri_result it)))"
    using run by (auto simp: run_notify_def item_Notify_def Let_def split: list.splits option.splits)
  then have "served l r' \<and> no_more r'"
  proof cases
    case (2 i err ts it)
    then have "\<forall>j \<in> fst ` set (mRequests r'). j \<noteq> i \<and> j \<in> fst ` set (mRequests r)"
      by (auto simp: AList.delete_eq)
    then have "served l r'"
      using inv 2(1,4) unfolding served_inv_def served_def fst_conv snd_conv
      by (elim conjE) (intro ballI, drule (1) bspec, elim conjE, drule (1) bspec, auto)
    moreover have "no_more r'"
      using inv 2(3,5) by (auto simp: served_inv_def no_more_def AList.delete_eq)
    ultimately show ?thesis by simp
  qed (use inv in \<open>simp add: served_inv_def\<close>)
  then show "served l r'" "no_more r'" by simp_all
qed

text \<open>The servers a direct call is made to, and runs in which they are on the list at the call.\<close>

fun given_server :: "client_input \<Rightarrow> ptr set" where
  "given_server (Do_Flush s expiry cb) = set_option s"
| "given_server (Do_Version s cb) = set_option s"
| "given_server (Do_Stat s key cb) = set_option s"
| "given_server i = {}"

definition calls_listed ::
    "(int \<Rightarrow> string) \<Rightarrow> md5 \<Rightarrow> protocol \<Rightarrow> build \<Rightarrow> memcached_client \<Rightarrow> client_input list \<Rightarrow> bool" where
  "calls_listed lexcast raw pr b s is \<longleftrightarrow> (\<forall>js i ks t. is = js @ i # ks \<and> client_run lexcast raw pr b s js t \<longrightarrow>
     given_server i \<subseteq> snd ` set (sl_servers (fst t)))"

lemma served_step:
  assumes inv: "served_inv lexcast (l, r)" and can: "can_happen i (l, r)"
    and listed: "given_server i \<subseteq> snd ` set (sl_servers l)"
    and step: "client_step lexcast raw pr b i (l, r) = Inr (l', r')"
  shows "served_inv lexcast (l', r')"
proof -
  have client: "client_inv lexcast (l', r')"
    using client_step_inv [OF _ can step] inv by (simp add: served_inv_def)
  note keyed = served_keyed [OF inv] and direct = served_sends [OF inv]
  have same: "served l r" "no_more r" using inv by (simp_all add: served_inv_def)
  have given: "served l' r' \<and> no_more r'" if "sends l r s l' r'" "set_option s \<subseteq> snd ` set (sl_servers l)" for s
    using that direct by (cases s) (auto simp: sends_def send_to_def)
  have "served l' r' \<and> no_more r'"
  proof (cases i)
    case (Do_Finish p)
    then have "l' = l" "r' = set_result p (Finish (results r p)) r" using step by auto
    then show ?thesis using same by (auto simp: served_def Finish_def intro: no_more_set_result)
  next
    case (Spurious_Wake p)
    then have "l' = l" "r' = set_result p (wake (results r p)) r" using step by auto
    then show ?thesis using same by (auto simp: served_def intro: no_more_set_result)
  next
    case (Add_Server host port resolves)
    then show ?thesis using served_add [OF inv] step by blast
  next
    case (Remove_Server host port)
    then show ?thesis using served_remove [OF inv] step by (auto simp: res_simps served_inv_def)
  next
    case (Socket p j)
    then show ?thesis using served_socket [OF inv] step by (auto simp: served_inv_def)
  next
    case Run_Notify
    then show ?thesis using served_notify [OF inv] step by (auto simp: res_simps)
  next
    case (Do_Flush s e cb)
    then show ?thesis using step listed by (auto simp: res_simps intro!: given dest: server_ops_send)
  next
    case (Do_Version s cb)
    then show ?thesis using step listed by (auto simp: res_simps intro!: given dest: server_ops_send)
  next
    case (Do_Stat s k cb)
    then show ?thesis using step listed by (auto simp: res_simps intro!: given dest: server_ops_send)
  qed (use step in \<open>auto simp: res_simps dest!: request_ops_send intro: keyed\<close>)
  with client show ?thesis by (simp add: served_inv_def)
qed

lemma client_run_served:
  "client_run lexcast raw pr b s is t \<Longrightarrow> served_inv lexcast s \<Longrightarrow> calls_listed lexcast raw pr b s is \<Longrightarrow>
     served_inv lexcast t"
proof (induction rule: client_run.induct)
  case (step "is" t i u)
  obtain l r l' r' where t: "t = (l, r)" "u = (l', r')" by (cases t; cases u)
  have "calls_listed lexcast raw pr b s is"
    using step.prems(2) unfolding calls_listed_def by (metis append.assoc append_Cons)
  moreover have "given_server i \<subseteq> snd ` set (sl_servers (fst t))"
    using step.prems(2) step.hyps(1) unfolding calls_listed_def by blast
  ultimately show ?case using served_step step t by (metis fst_conv)
qed simp

section \<open>A thread that waits too late\<close>

text \<open>
  A result whose request is no longer in the map, with a thread in \<^verbatim>\<open>Finish\<close>.
\<close>

definition left_waiting :: "ptr \<Rightarrow> requests \<Rightarrow> bool" where
  "left_waiting q r \<longleftrightarrow> q < nextResult r \<and> (\<forall>(i, it) \<in> set (mRequests r). ri_result it \<noteq> q) \<and>
     mr_waiter (results r q) = Waiting"

lemma FillReceiveBuffer_waiter:
  "FillReceiveBuffer p status bufs valueLen keyLen r = Inr (ok, bufs', r') \<Longrightarrow> mr_waiter r' = mr_waiter r"
  by (auto simp: fill_defs split: result_kind.splits option.splits if_splits)

lemma write_result_waiter [simp]: "mr_waiter (write_result f bytes r) = mr_waiter r"
  by (simp add: write_result_def)

lemma left_waiting_set_result:
  "left_waiting q r \<Longrightarrow> p = q \<longrightarrow> mr_waiter res = Waiting \<Longrightarrow> left_waiting q (set_result p res r)"
  by (auto simp: left_waiting_def)

lemma left_waiting_set_same:
  "left_waiting q r \<Longrightarrow> mr_waiter res = mr_waiter (results r p) \<Longrightarrow> left_waiting q (set_result p res r)"
  by (auto simp: left_waiting_def)

lemma left_waiting_FinishRequest: "left_waiting q r \<Longrightarrow> FinishRequest i err r = Inr r' \<Longrightarrow> left_waiting q r'"
  by (auto simp: FinishRequest_def left_waiting_def res_simps split: option.splits if_splits)

interpretation waiting: connection_user "OnHeaderReaded pr b" "OnBodayReaded pr b" store_bytes
  "left_waiting q" for pr b q
proof
  fix r bytes ok header bufs r'
  assume r: "left_waiting q r"
  show "left_waiting q r'" if "OnHeaderReaded pr b bytes r = Inr (ok, header, bufs, r')"
    using r OnHeaderReaded_outcome [OF that]
    by (elim disjE exE conjE)
      (auto intro: left_waiting_set_same FillReceiveBuffer_waiter dest: left_waiting_FinishRequest)
  show "left_waiting q r'" if "OnBodayReaded pr b header r = Inr r'"
    using r OnBodayReaded_outcome [OF that] by (elim disjE exE conjE) (auto dest: left_waiting_FinishRequest)
  show "left_waiting q (store_bytes a bytes r)" for a
    using r by (auto simp: store_bytes_def intro: left_waiting_set_same)
qed

lemma left_waiting_removed: "left_waiting q r \<Longrightarrow> OnServerRemoved p s r = Inr r' \<Longrightarrow> left_waiting q r'"
  unfolding OnServerRemoved_def by (erule foldRes_invariant) (auto dest: left_waiting_FinishRequest)

lemma left_waiting_remove_server:
  "left_waiting q r \<Longrightarrow> remove_server lexcast host port (l, r) = Inr (gone, l', r') \<Longrightarrow> left_waiting q r'"
  by (auto simp: remove_server_def SL_Remove_def Let_def res_simps
      dest: left_waiting_removed split: option.splits)

lemma left_waiting_register:
  assumes "left_waiting q r" "register_request i cb res (r\<lparr>mNextRequestId := j\<rparr>) = (p, r')"
  shows "left_waiting q r'"
  using assms by (auto simp: left_waiting_def register_request_def Let_def split: if_splits)

lemma left_waiting_run_notify:
  assumes "left_waiting q r" "run_notify r = Inr r'"
  shows "left_waiting q r'"
proof (cases "notifies r")
  case Nil
  then show ?thesis using assms by (simp add: run_notify_def)
next
  case (Cons n ts)
  obtain i err where n: "n = (i, err)" by (cases n)
  then obtain it where it: "map_of (mRequests r) i = Some it"
    using assms(2) Cons by (auto simp: run_notify_def split: option.splits)
  then have "ri_result it \<noteq> q" using assms(1) map_of_SomeD [OF it] by (auto simp: left_waiting_def)
  with assms Cons n it show ?thesis
    by (auto simp: run_notify_def item_Notify_def Let_def left_waiting_def AList.delete_eq
        split: option.splits)
qed

lemma left_waiting_sends:
  "left_waiting q r \<Longrightarrow> sends l r server l' r' \<Longrightarrow> left_waiting q r'"
  "left_waiting q r \<Longrightarrow> keyed_sends b l r l' r' \<Longrightarrow> left_waiting q r'"
  unfolding keyed_sends_def sends_def using left_waiting_register by blast+

lemmas left_waiting_ops = left_waiting_sends(2) [OF _ request_ops_send(1)]
  left_waiting_sends(2) [OF _ request_ops_send(2)]
  left_waiting_sends(2) [OF _ request_ops_send(3)]
  left_waiting_sends(2) [OF _ request_ops_send(4)]
  left_waiting_sends(2) [OF _ request_ops_send(5)]
  left_waiting_sends(1) [OF _ server_ops_send(1)]
  left_waiting_sends(1) [OF _ server_ops_send(2)]
  left_waiting_sends(1) [OF _ server_ops_send(3)]

lemma left_waiting_socket:
  assumes "left_waiting q r" "socket_input lexcast pr b p i (l, r) = Inr lr'"
  shows "left_waiting q (snd lr')"
proof -
  let ?s = "sl_items l p"
  obtain c' r1 where h: "handle (OnHeaderReaded pr b) (OnBodayReaded pr b) store_bytes i (si_socket ?s, r) =
      Inr (c', r1)"
    "foldRes (\<lambda>e. on_error lexcast p)
      (filter is_error (drop (length (signals (si_socket ?s))) (signals c')))
      (set_item p (?s\<lparr>si_socket := c'\<rparr>) l, r1) = Inr lr'"
    using assms(2) by (auto simp: socket_input_def Let_def res_simps)
  have "left_waiting q r1" by (rule waiting.handle_keep [OF assms(1) h(1)])
  then have "left_waiting q (snd (set_item p (?s\<lparr>si_socket := c'\<rparr>) l, r1))" by simp
  then show ?thesis
    by (rule foldRes_invariant [OF h(2)])
      (auto simp: on_error_def res_simps dest: left_waiting_remove_server split: if_splits)
qed

lemma left_waiting_step:
  assumes "left_waiting q r" "i \<noteq> Spurious_Wake q" "client_step lexcast raw pr b i (l, r) = Inr lr'"
  shows "left_waiting q (snd lr')"
proof -
  obtain l' r' where lr': "lr' = (l', r')" by (cases lr')
  note step = assms(2,3) [unfolded lr']
  show ?thesis
  proof (cases i)
    case (Do_Finish p)
    then show ?thesis
      using step assms(1) by (auto simp: lr' Finish_def intro!: left_waiting_set_result)
  next
    case (Spurious_Wake p)
    then show ?thesis using step assms(1) by (auto simp: lr' intro!: left_waiting_set_result)
  next
    case (Add_Server host port resolves)
    then show ?thesis
      using step assms(1)
      by (auto simp: lr' add_server_def SL_Add_def OnServerAdded_def Let_def
          split: prod.splits sum.splits fault.splits option.splits)
  next
    case (Socket p j)
    then show ?thesis using step left_waiting_socket [OF assms(1)] by (auto simp: lr')
  next
    case Run_Notify
    then show ?thesis using step left_waiting_run_notify [OF assms(1)] by (auto simp: lr' res_simps)
  qed (use step in \<open>auto simp: lr' res_simps dest: left_waiting_ops [OF assms(1)]
      left_waiting_remove_server [OF assms(1)]\<close>)
qed

section \<open>Properties\<close>

text \<open>
  C1 In every state the client can reach without a fault, whatever calls, replies, errors and
  servers come and go: the requests in the map have distinct identifiers and each a result of its own
  that is still pending, and the server list keeps its invariant. When the servers given to
  \<^verbatim>\<open>Flush\<close>, \<^verbatim>\<open>Version\<close> and \<^verbatim>\<open>Stat\<close> are on the list at the call, no request is forgotten: each in the
  map has a notification posted or waits at a server that is on the list, and so has not been
  removed and destroyed.
\<close>

theorem client_invariant:
  assumes "client_run lexcast raw pr b (l, MemcachedClient heap) is (l', r')" "sl_invar lexcast l"
  shows "distinct (map fst (mRequests r')) \<and> distinct (map (ri_result \<circ> snd) (mRequests r')) \<and>
    (\<forall>(i, it) \<in> set (mRequests r'). mErrorCode (results r' (ri_result it)) = status_code ERequest_PENDING) \<and>
    (calls_listed lexcast raw pr b (l, MemcachedClient heap) is \<longrightarrow>
      (\<forall>i \<in> fst ` set (mRequests r'). i \<in> fst ` set (notifies r') \<or>
        (\<exists>p \<in> snd ` set (sl_servers l'). i \<in> set (si_pending (sl_items l' p))))) \<and>
    sl_invar lexcast l'"
proof -
  have start: "served_inv lexcast (l, MemcachedClient heap)"
    using client_inv_start [OF assms(2)] by (simp add: served_inv_def served_def no_more_def MemcachedClient_def)
  have "served l' r'" if "calls_listed lexcast raw pr b (l, MemcachedClient heap) is"
    using client_run_served [OF assms(1) start that] by (simp add: served_inv_def)
  moreover have "client_inv lexcast (l', r')"
    using client_run_inv [OF assms(1)] start by (simp add: served_inv_def)
  then have "req_inv r'" "sl_invar lexcast l'" by (simp_all add: client_inv_def)
  ultimately show ?thesis
    unfolding req_inv_def served_def by (intro conjI) (auto simp only: prod.case)
qed

lemma one_version_run:
  obtains l' r' where "client_run decimal md5_blank standard_protocol
      \<lparr>NDEBUG = False, HOST_LITTLE = True, ENDIAN_LITTLE = False\<rparr>
      (two_servers, MemcachedClient (\<lambda>_. MemResult [] None)) [Do_Version (Some 1) None] (l', r')"
    "map fst (mRequests r') = [0]"
proof -
  let ?b = "\<lparr>NDEBUG = False, HOST_LITTLE = True, ENDIAN_LITTLE = False\<rparr>"
  let ?s = "(two_servers, MemcachedClient (\<lambda>_. MemResult [] None))"
  have "\<exists>buf. version_request standard_protocol ?b 0 = Inr buf"
    using build_request_header [OF standard_protocol_binary, of ?b 0]
    by (simp add: version_request_def standard_protocol_def put_members_def poke_def)
  then obtain buf where buf: "version_request standard_protocol ?b 0 = Inr buf" ..
  then have "\<exists>l' r'. client_step decimal md5_blank standard_protocol ?b (Do_Version (Some 1) None) ?s = Inr (l', r') \<and>
      map fst (mRequests r') = [0]"
    by (simp add: MC_Version_def fetch_add_def register_request_def MemcachedClient_def send_to_def Let_def)
  moreover have "can_happen (Do_Version (Some 1) None) ?s"
    by (simp add: two_servers_def)
  ultimately show ?thesis
    using that client_run.step [OF client_run.start, of "Do_Version (Some 1) None" ?s] by fastforce
qed

inductive_cases client_run_NilE: "client_run lexcast raw pr b s [] t"

lemma one_call_listed: "given_server i \<subseteq> snd ` set (sl_servers (fst s)) \<Longrightarrow> calls_listed lexcast raw pr b s [i]"
  unfolding calls_listed_def Cons_eq_append_conv by (auto elim!: client_run_NilE)

theorem client_invariant_witness:
  "\<exists>(l' :: server_list) (r' :: requests). map fst (mRequests r') = [0] \<and>
    (\<forall>(i, it) \<in> set (mRequests r'). mErrorCode (results r' (ri_result it)) = status_code ERequest_PENDING) \<and>
    (0 \<in> fst ` set (notifies r') \<or> (\<exists>p \<in> snd ` set (sl_servers l'). 0 \<in> set (si_pending (sl_items l' p)))) \<and>
    sl_invar decimal l'"
proof -
  let ?b = "\<lparr>NDEBUG = False, HOST_LITTLE = True, ENDIAN_LITTLE = False\<rparr>"
  let ?s = "(two_servers, MemcachedClient (\<lambda>_. MemResult [] None))"
  obtain l' r' where run: "client_run decimal md5_blank standard_protocol ?b ?s [Do_Version (Some 1) None] (l', r')"
    "map fst (mRequests r') = [0]" by (rule one_version_run)
  have "calls_listed decimal md5_blank standard_protocol ?b ?s [Do_Version (Some 1) None]"
    by (rule one_call_listed) (simp add: two_servers_simps)
  moreover have "0 \<in> fst ` set (mRequests r')" using run(2) by (metis list.set_intros(1) set_map)
  ultimately show ?thesis
    using client_invariant [OF run(1) two_servers_ok] run(2)
    by (intro exI [of _ l'] exI [of _ r']) blast
qed

lemma left_waiting_run:
  assumes "client_run lexcast raw pr b s is t" "left_waiting q (snd s)" "Spurious_Wake q \<notin> set is"
  shows "left_waiting q (snd t)"
  using assms
proof (induction rule: client_run.induct)
  case start
  then show ?case by simp
next
  case (step "is" t i t')
  obtain l1 r1 where t: "t = (l1, r1)" by (cases t)
  have "left_waiting q r1" "i \<noteq> Spurious_Wake q" using step t by auto
  from left_waiting_step [OF this] show ?case using step.hyps t by blast
qed

text \<open>
  \<^verbatim>\<open>Finish\<close> called after the request has completed waits for a notification that has already
  been given: whatever the client does afterwards, only a spurious wake-up ends the wait.
\<close>

theorem finish_after_completion_waits:
  assumes "client_run lexcast raw pr b (l, r) is (l', r')" "Spurious_Wake q \<notin> set is"
    and "q < nextResult r" "\<forall>(i, it) \<in> set (mRequests r). ri_result it \<noteq> q"
    and "mr_waiter (results r q) = Waiting"
  shows "mr_waiter (results r' q) = Waiting"
proof -
  have "left_waiting q (snd (l', r'))"
    by (rule left_waiting_run [OF assms(1) _ assms(2)]) (use assms(3-5) in \<open>simp add: left_waiting_def\<close>)
  then show ?thesis by (simp add: left_waiting_def)
qed

theorem finish_after_completion_waits_witness:
  "mr_waiter (results ((MemcachedClient (\<lambda>_. Finish (Notify 0 (MemResult ''k'' None))))\<lparr>nextResult := 1\<rparr>) 0) =
     Waiting"
  using finish_after_completion_waits [OF client_run.start, of 0
      "(MemcachedClient (\<lambda>_. Finish (Notify 0 (MemResult ''k'' None))))\<lparr>nextResult := 1\<rparr>"]
  by (simp add: MemcachedClient_def Finish_def)

lemma FinishRequest_plain:
  assumes "map_of (mRequests r) i = Some it" "mr_kind (results r (ri_result it)) \<noteq> StatResult"
  shows "FinishRequest i err r = Inr (r\<lparr>notifies := notifies r @ [(i, err)]\<rparr>)"
  using assms by (cases "mr_kind (results r (ri_result it))") (simp_all add: FinishRequest_def HasMoreResult_def)

lemma finish_all:
  assumes "\<forall>i \<in> set is. \<exists>it. map_of (mRequests r) i = Some it \<and> mr_kind (results r (ri_result it)) \<noteq> StatResult"
  shows "foldRes (\<lambda>i. FinishRequest i err) is r = Inr (r\<lparr>notifies := notifies r @ map (\<lambda>i. (i, err)) is\<rparr>)"
  using assms
proof (induction "is" arbitrary: r)
  case Nil
  then show ?case by simp
next
  case (Cons i "is")
  then obtain it where it: "map_of (mRequests r) i = Some it" "mr_kind (results r (ri_result it)) \<noteq> StatResult"
    by auto
  show ?case using Cons.prems by (simp add: FinishRequest_plain [OF it] Cons.IH)
qed

lemma finish_missing:
  assumes "i \<in> set is" "map_of (mRequests r) i = None"
  shows "foldRes (\<lambda>i. FinishRequest i err) is r \<in> {Inl BadIterator, Inl Uninitialised}"
  using assms
proof (induction "is" arbitrary: r)
  case Nil
  then show ?case by simp
next
  case (Cons j "is")
  show ?case
  proof (cases "FinishRequest j err r")
    case (Inl e)
    then show ?thesis
      by (auto simp: FinishRequest_def HasMoreResult_def res_simps split: option.splits result_kind.splits if_splits)
  next
    case (Inr r')
    then have "mRequests r' = mRequests r" "i \<noteq> j"
      using Cons.prems(2) by (auto simp: FinishRequest_def res_simps split: option.splits if_splits)
    then show ?thesis using Cons Inr by auto
  qed
qed

text \<open>
  C14 A server that is lost completes its requests: when every identifier the server still lists is
  in the map and none belongs to a Stat, removing the server posts one notification with
  \<^verbatim>\<open>ERequest_NETWORK_ERROR\<close> for each of them, in order, and the server is off the list. The theorem
  \<open>lost_server_after_reply_faults\<close> is about an identifier that is not in the map any more.
\<close>

theorem lost_server_fails_requests:
  assumes "sl_algorithm l = Some a" "SL_Get_server lexcast host port l = Some p"
    and "\<forall>i \<in> set (si_pending (sl_items l p)). \<exists>it. map_of (mRequests r) i = Some it \<and>
      mr_kind (results r (ri_result it)) \<noteq> StatResult"
  shows "\<exists>l'. remove_server lexcast host port (l, r) = Inr (True, l',
      r\<lparr>notifies := notifies r @
        map (\<lambda>i. (i, status_code ERequest_NETWORK_ERROR)) (si_pending (sl_items l p))\<rparr>) \<and>
    SL_Get_server lexcast host port l' = None"
  using assms(1,2) finish_all [OF assms(3), of "status_code ERequest_NETWORK_ERROR"]
  by (simp add: remove_server_def SL_Remove_def SL_Get_server_def OnServerRemoved_def Let_def delete_conv)

lemma two_servers_found:
  "SL_Get_server decimal ''a'' 1 two_servers = Some 0" "si_pending (sl_items two_servers 0) = []"
  by (simp_all add: SL_Get_server_def two_servers_def modulo_list_def ToString_def decimal_digits ServerItem_def)

theorem lost_server_fails_requests_witness:
  "\<exists>l'. remove_server decimal ''a'' 1
      (set_item 0 ((sl_items two_servers 0)\<lparr>si_pending := [4]\<rparr>) two_servers,
       (MemcachedClient (\<lambda>_. MemResult [] None))\<lparr>mRequests := [(4, \<lparr>ri_result = 0, ri_callback = None\<rparr>)]\<rparr>) =
      Inr (True, l', (MemcachedClient (\<lambda>_. MemResult [] None))
        \<lparr>mRequests := [(4, \<lparr>ri_result = 0, ri_callback = None\<rparr>)],
          notifies := [(4, status_code ERequest_NETWORK_ERROR)]\<rparr>) \<and>
    SL_Get_server decimal ''a'' 1 l' = None"
proof -
  let ?l = "set_item 0 ((sl_items two_servers 0)\<lparr>si_pending := [4]\<rparr>) two_servers"
  have "sl_algorithm ?l = Some 7" "SL_Get_server decimal ''a'' 1 ?l = Some 0"
    "si_pending (sl_items ?l 0) = [4]"
    using two_servers_found by (simp_all add: set_item_def two_servers_simps SL_Get_server_def)
  then show ?thesis
    using lost_server_fails_requests [of ?l 7 decimal "''a''" 1 0 "(MemcachedClient (\<lambda>_. MemResult [] None))
        \<lparr>mRequests := [(4, \<lparr>ri_result = 0, ri_callback = None\<rparr>)]\<rparr>"]
    by (simp add: MemcachedClient_def MemResult_def)
qed

text \<open>
  Nothing takes a completed request off the list of its server, so that losing a server after one
  of its requests has been answered dereferences an iterator that is not in the map, unless a Stat
  before it stops the loop first.
\<close>

theorem lost_server_after_reply_faults:
  assumes "sl_algorithm l = Some a" "SL_Get_server lexcast host port l = Some p"
    and "i \<in> set (si_pending (sl_items l p))" "map_of (mRequests r) i = None"
  shows "remove_server lexcast host port (l, r) \<in> {Inl BadIterator, Inl Uninitialised}"
proof -
  have "OnServerRemoved p (sl_items l p) r \<in> {Inl BadIterator, Inl Uninitialised}"
    unfolding OnServerRemoved_def by (rule finish_missing [OF assms(3,4)])
  then show ?thesis
    using assms(1,2) by (auto simp: remove_server_def SL_Remove_def SL_Get_server_def Let_def)
qed

theorem lost_server_after_reply_faults_witness:
  "remove_server decimal ''a'' 1
      (set_item 0 ((sl_items two_servers 0)\<lparr>si_pending := [4]\<rparr>) two_servers, MemcachedClient (\<lambda>_. MemResult [] None))
    \<in> {Inl BadIterator, Inl Uninitialised}"
  by (rule lost_server_after_reply_faults [of _ 7 _ _ _ 0 4])
    (use two_servers_found in \<open>simp_all add: set_item_def two_servers_simps SL_Get_server_def MemcachedClient_def\<close>)

lemma on_error_unregisters:
  assumes "sl_invar lexcast l" "on_error lexcast p (l, r) = Inr (l', r')"
  shows "p \<notin> snd ` set (sl_servers l')"
proof -
  let ?s = "sl_items l p"
  have reg: "p \<in> snd ` set (sl_servers l)" using assms(2) by (auto simp: on_error_def split: if_splits)
  then have key: "(ToString lexcast (si_host ?s) (si_port ?s), p) \<in> set (sl_servers l)"
    using assms(1) by (fastforce simp: sl_invar_def item_ToString_def)
  moreover have dist: "distinct (map fst (sl_servers l))" "distinct (map snd (sl_servers l))"
    using assms(1) by (simp_all add: sl_invar_def)
  ultimately have "map_of (sl_servers l) (ToString lexcast (si_host ?s) (si_port ?s)) = Some p" by simp
  then have "sl_servers l' = AList.delete (ToString lexcast (si_host ?s) (si_port ?s)) (sl_servers l)"
    using assms(2) reg
    by (auto simp: on_error_def remove_server_def SL_Remove_def Let_def res_simps split: option.splits)
  then show ?thesis
    using dist(2) key by (force simp: AList.delete_eq distinct_map inj_on_def)
qed

text \<open>
  A connection reports an error by removing its server, and the slot that does so refers
  into the map. When the second of two operations of the connection fails, the reference is to
  an entry that is gone.
\<close>

theorem second_error_dangles:
  assumes "client_run lexcast raw pr b (l0, MemcachedClient heap) is (l, r)" "sl_invar lexcast l0"
    and "on_error lexcast p (l, r) = Inr (l', r')"
  shows "on_error lexcast p (l', r') = Inl UseAfterFree"
proof -
  have "sl_invar lexcast l"
    using client_run_inv [OF assms(1) client_inv_start [OF assms(2)]] by (simp add: client_inv_def)
  from on_error_unregisters [OF this assms(3)] show ?thesis by (simp add: on_error_def)
qed

theorem second_error_dangles_witness:
  "\<exists>lr'. on_error decimal 0 (two_servers, MemcachedClient (\<lambda>_. MemResult [] None)) = Inr lr' \<and>
    on_error decimal 0 lr' = Inl UseAfterFree"
proof -
  have "\<exists>l' r'. on_error decimal 0 (two_servers, MemcachedClient (\<lambda>_. MemResult [] None)) = Inr (l', r')"
    by (simp add: on_error_def remove_server_def SL_Remove_def two_servers_def modulo_list_def ServerItem_def
        ServerList_def ToString_def decimal_digits OnServerRemoved_def)
  then show ?thesis
    using second_error_dangles [OF client_run.start two_servers_ok] by blast
qed

end
