(* ===== verification/Item_Lifetime.thy ===== *)
theory Item_Lifetime
  imports Client_Correct
begin

text \<open>
  How long a \<^verbatim>\<open>ServerItem\<close> lives. An item is destroyed, and its \<^verbatim>\<open>TcpClient\<close> with it, when the last
  \<^verbatim>\<open>ServerItem::Ptr\<close> to it goes: the entry of \<^verbatim>\<open>mServers\<close>, the pointers of a distribution algorithm (those of
  \<^verbatim>\<open>mKeyServerMapping\<close> are among those of \<^verbatim>\<open>mBalanceInfos\<close>), and copies the program holds. The handlers asio
  still owes to the connection have captured \<^verbatim>\<open>this\<close> and use it first thing, also when they
  complete with \<^verbatim>\<open>operation_aborted\<close> because the destructor closed the socket.

  The other theories of the client leave lifetimes out. \<open>life_step\<close> adds them: it is \<open>client_step\<close> with
  \<open>UseAfterFree\<close> where a destroyed item is used. \<open>A\<close> are the algorithm objects kept alive by others
  than the list, \<open>logs\<close> is whether the logger of the list lets an \<^verbatim>\<open>INFO\<close> record through.
\<close>

section \<open>Lifetimes\<close>

definition item_alive :: "ptr set \<Rightarrow> ptr set \<Rightarrow> server_list \<Rightarrow> ptr \<Rightarrow> bool" where
  "item_alive A ps l p \<longleftrightarrow> p \<in> snd ` set (sl_servers l) \<or> p \<in> ps \<or>
     (\<exists>a \<in> A \<union> set_option (sl_algorithm l). p \<in> distri_servers (sl_algorithms l a))"

datatype life_input = Take ptr | Drop ptr | Client client_input

text \<open>A call needs a pointer the program holds; a completion comes from asio.\<close>

fun completion :: "tcp_input \<Rightarrow> bool" where
  "completion (Call_Connect resolves) = False"
| "completion (Call_Send buf) = False"
| "completion (Call_Sends bufs) = False"
| "completion Call_Close = False"
| "completion i = True"

fun pointers :: "client_input \<Rightarrow> ptr set" where
  "pointers (Do_Flush s expiry cb) = set_option s"
| "pointers (Do_Version s cb) = set_option s"
| "pointers (Do_Stat s key cb) = set_option s"
| "pointers (Socket p i) = (if completion i then {} else {p})"
| "pointers i = {}"

fun life_enabled :: "ptr set \<Rightarrow> life_input \<Rightarrow> ptr set \<times> memcached_client \<Rightarrow> bool" where
  "life_enabled A (Take p) (ps, l, r) = item_alive A ps l p"
| "life_enabled A (Drop p) (ps, l, r) = (p \<in> ps)"
| "life_enabled A (Client i) (ps, lr) = (can_happen i lr \<and> pointers i \<subseteq> ps)"

text \<open>
  \<^verbatim>\<open>ServerList::Remove\<close> logs the host after it has erased the entry. Called from the slot of \<^verbatim>\<open>OnError\<close>, it has
  the host by reference from the item itself.
\<close>

definition logs_dead_host :: "ptr set \<Rightarrow> ptr set \<Rightarrow> ptr \<Rightarrow> server_list \<Rightarrow> server_list \<Rightarrow> bool" where
  "logs_dead_host A ps p l l' \<longleftrightarrow>
     p \<in> snd ` set (sl_servers l) \<and> p \<notin> snd ` set (sl_servers l') \<and> \<not> item_alive A ps l' p"

fun life_step ::
    "bool \<Rightarrow> ptr set \<Rightarrow> (int \<Rightarrow> string) \<Rightarrow> md5 \<Rightarrow> protocol \<Rightarrow> build \<Rightarrow> life_input \<Rightarrow> ptr set \<times> memcached_client
      \<Rightarrow> (ptr set \<times> memcached_client) res" where
  "life_step logs A lexcast raw pr b (Take p) (ps, lr) = Inr (insert p ps, lr)"
| "life_step logs A lexcast raw pr b (Drop p) (ps, lr) = Inr (ps - {p}, lr)"
| "life_step logs A lexcast raw pr b (Client (Socket p i)) (ps, lr) =
     (if \<not> item_alive A ps (fst lr) p then Inl UseAfterFree
      else andThen (client_step lexcast raw pr b (Socket p i) lr) (\<lambda>lr'.
        if logs \<and> logs_dead_host A ps p (fst lr) (fst lr') then Inl UseAfterFree else Inr (ps, lr')))"
| "life_step logs A lexcast raw pr b (Client i) (ps, lr) =
     andThen (client_step lexcast raw pr b i lr) (\<lambda>lr'. Inr (ps, lr'))"

inductive life_run ::
    "bool \<Rightarrow> ptr set \<Rightarrow> (int \<Rightarrow> string) \<Rightarrow> md5 \<Rightarrow> protocol \<Rightarrow> build \<Rightarrow> ptr set \<times> memcached_client
      \<Rightarrow> life_input list \<Rightarrow> ptr set \<times> memcached_client \<Rightarrow> bool"
  for logs A lexcast raw pr b s where
  start: "life_run logs A lexcast raw pr b s [] s"
| step: "life_run logs A lexcast raw pr b s is t \<Longrightarrow> life_enabled A i t \<Longrightarrow>
    life_step logs A lexcast raw pr b i t = Inr u \<Longrightarrow> life_run logs A lexcast raw pr b s (is @ [i]) u"

inductive_cases life_run_snocE: "life_run logs A lexcast raw pr b s (is @ [i]) t"

fun client_inputs :: "life_input list \<Rightarrow> client_input list" where
  "client_inputs [] = []"
| "client_inputs (Client i # is) = i # client_inputs is"
| "client_inputs (_ # is) = client_inputs is"

lemma client_inputs_append [simp]: "client_inputs (is @ js) = client_inputs is @ client_inputs js"
  by (induction "is" rule: client_inputs.induct) simp_all

lemma life_step_Client:
  "life_step logs A lexcast raw pr b (Client i) (ps, lr) = Inr t \<Longrightarrow>
     \<exists>lr'. t = (ps, lr') \<and> client_step lexcast raw pr b i lr = Inr lr'"
  by (cases i) (auto simp: res_simps split: if_splits)

lemma life_step_held:
  assumes "\<And>p j. i = Socket p j \<Longrightarrow> p \<in> ps"
  shows "life_step logs A lexcast raw pr b (Client i) (ps, lr) =
    andThen (client_step lexcast raw pr b i lr) (\<lambda>lr'. Inr (ps, lr'))"
  using assms by (cases i) (auto simp: item_alive_def logs_dead_host_def)

text \<open>A run with lifetimes is a run of the client.\<close>

lemma life_run_client_run:
  "life_run logs A lexcast raw pr b (ps, lr) is t \<Longrightarrow> client_run lexcast raw pr b lr (client_inputs is) (snd t)"
proof (induction rule: life_run.induct)
  case start
  then show ?case by (simp add: client_run.start)
next
  case (step "is" t i u)
  obtain qs lr' where t: "t = (qs, lr')" by (cases t)
  show ?case
  proof (cases i)
    case (Client j)
    obtain lr'' where "u = (qs, lr'')" "client_step lexcast raw pr b j lr' = Inr lr''"
      using life_step_Client step.hyps(3) unfolding t Client by blast
    moreover have "can_happen j lr'" using step.hyps(2) t Client by simp
    ultimately show ?thesis
      using client_run.step [OF step.IH [unfolded t snd_conv]] Client by simp
  next
    case (Take p)
    then show ?thesis using step.hyps(3) step.IH t by (cases lr') auto
  next
    case (Drop p)
    then show ?thesis using step.hyps(3) step.IH t by (cases lr') auto
  qed
qed

lemma client_run_life_run:
  assumes "client_run lexcast raw pr b lr is lr'"
    and "\<And>i. i \<in> set is \<Longrightarrow> pointers i \<subseteq> ps" "\<And>p j. Socket p j \<in> set is \<Longrightarrow> p \<in> ps"
  shows "life_run logs A lexcast raw pr b (ps, lr) (map Client is) (ps, lr')"
  using assms
proof (induction rule: client_run.induct)
  case start
  then show ?case by (simp add: life_run.start)
next
  case (step "is" t i u)
  have "life_run logs A lexcast raw pr b (ps, lr) (map Client is) (ps, t)"
    by (rule step.IH) (use step.prems in auto)
  moreover have "life_step logs A lexcast raw pr b (Client i) (ps, t) = Inr (ps, u)"
    using step by (subst life_step_held) auto
  ultimately have "life_run logs A lexcast raw pr b (ps, lr) (map Client is @ [Client i]) (ps, u)"
    using step.hyps(2) step.prems(1) by (intro life_run.step) auto
  then show ?case by simp
qed

section \<open>What a step leaves alone\<close>

text \<open>For an item the step is not about: it and its connection are the same, and nobody gets a new pointer to it.\<close>

definition untouched :: "ptr \<Rightarrow> server_list \<Rightarrow> server_list \<Rightarrow> bool" where
  "untouched p l l' \<longleftrightarrow> sl_items l' p = sl_items l p \<and> sl_next l \<le> sl_next l' \<and>
     sl_algorithm l' = sl_algorithm l \<and>
     (p \<in> snd ` set (sl_servers l') \<longrightarrow> p \<in> snd ` set (sl_servers l)) \<and>
     (\<forall>a \<in> set_option (sl_algorithm l'). p \<in> distri_servers (sl_algorithms l' a) \<longrightarrow>
        p \<in> distri_servers (sl_algorithms l a)) \<and>
     (\<forall>a. a \<notin> set_option (sl_algorithm l) \<longrightarrow> sl_algorithms l' a = sl_algorithms l a)"

lemma untouched_refl [simp]: "untouched p l l"
  by (simp add: untouched_def)

lemma untouched_trans: "untouched p l l' \<Longrightarrow> untouched p l' l'' \<Longrightarrow> untouched p l l''"
  by (auto simp: untouched_def)

lemma untouched_set_item: "p \<noteq> q \<Longrightarrow> untouched p l (set_item q s l)"
  by (auto simp: untouched_def set_item_def)

lemma untouched_get:
  assumes "sl_invar lexcast l" "SL_Get b key l = Inr (server, l')"
  shows "untouched p l l'"
proof -
  obtain a hash d where a: "sl_algorithm l = Some a" "distri_Get b (sl_items l) (sl_algorithms l a) (hash key) = Inr (d, server)"
    "l' = l\<lparr>sl_algorithms := (sl_algorithms l)(a := d)\<rparr>"
    using assms(2) by (auto simp: SL_Get_def res_simps split: option.splits)
  have "distri_servers d = distri_servers (sl_algorithms l a)"
    using distri.get_sound(3) [OF sl_invarD(2) [OF assms(1) a(1)] a(2)] .
  then show ?thesis using a by (simp add: untouched_def)
qed

lemma untouched_remove:
  assumes "sl_invar lexcast l" "SL_Remove lexcast removed host port (l, w) = Inr (gone, l', w')"
  shows "untouched p l l'"
proof (cases gone)
  case True
  obtain a q where a: "sl_algorithm l = Some a" "l' = l\<lparr>sl_algorithms := (sl_algorithms l)(a := distri_Remove (sl_algorithms l a) q),
      sl_servers := AList.delete (ToString lexcast host port) (sl_servers l)\<rparr>"
    using SL_RemoveE assms(2) True by metis
  have "distri_servers (distri_Remove (sl_algorithms l a) q) = distri_servers (sl_algorithms l a) - {q}"
    using distri.remove_ok [OF sl_invarD(2) [OF assms(1) a(1)]] by blast
  then show ?thesis using a by (auto simp: untouched_def AList.delete_eq)
next
  case False
  then show ?thesis using assms(2) by (auto simp: SL_Remove_def Let_def res_simps split: option.splits)
qed

lemma untouched_registered:
  assumes "sl_algorithm l = Some a" "distri_servers d \<subseteq> insert (sl_next l) (distri_servers (sl_algorithms l a))"
    and "p < sl_next l"
  shows "untouched p l (set_item (sl_next l) s (registered lexcast host port a d l))"
  using assms by (auto simp: untouched_def registered_def set_item_def)

lemma untouched_add:
  assumes inv: "sl_invar lexcast l" and p: "p < sl_next l"
    and add: "SL_Add lexcast raw added host port resolves (l, w) = (res, l', w')" "res \<noteq> Inl NullPointer"
  shows "untouched p l l'"
  using add
proof (cases rule: SL_Add_outcome)
  case refused
  then show ?thesis by simp
next
  case (failed a)
  then show ?thesis
    using untouched_registered [of l a "sl_algorithms l a" p "sl_items l' (sl_next l)"] p
    by (auto simp: untouched_def registered_def set_item_def)
next
  case (added a d s)
  have "sl_next l \<notin> distri_servers (sl_algorithms l a)"
    using sl_invarD(1) [OF inv] sl_invarD(3) [OF inv added(1)] by (rule contra_subsetD [rotated])
  then show ?thesis
    using distri_Add_sound [OF added(3) sl_invarD(2) [OF inv added(1)]] added(1,4) p untouched_registered by metis
qed

lemma untouched_send_to:
  "send_to server send l = Inr l' \<Longrightarrow> server \<noteq> Some p \<Longrightarrow> untouched p l l'"
  by (auto simp: send_to_def untouched_set_item split: option.splits)

lemma untouched_keyed:
  assumes "sl_invar lexcast l" "p \<notin> snd ` set (sl_servers l)"
    and "SL_Get b key l = Inr (server, l1)" "send_to server send l1 = Inr l'"
  shows "untouched p l l'"
proof -
  have "server \<noteq> Some p" using sl_invar_get(3) [OF assms(1,3)] assms(2) by auto
  from untouched_trans [OF untouched_get [OF assms(1,3)] untouched_send_to [OF assms(4) this]] show ?thesis .
qed

lemma untouched_keyed_ops:
  assumes "sl_invar lexcast l" "p \<notin> snd ` set (sl_servers l)"
  shows "MC_Get pr b key buf cb (l, r) = Inr (q, l', r') \<Longrightarrow> untouched p l l'"
    and "MC_Delete pr b key cb (l, r) = Inr (q, l', r') \<Longrightarrow> untouched p l l'"
    and "MC_Append_cmd pr b cmd key val cb (l, r) = Inr (q, l', r') \<Longrightarrow> untouched p l l'"
    and "MC_Store pr b cmd key flag expiry val cb (l, r) = Inr (q, l', r') \<Longrightarrow> untouched p l l'"
    and "MC_SelfOp pr b cmd key delta ini expiry cb (l, r) = Inr (q, l', r') \<Longrightarrow> untouched p l l'"
  by (auto simp: MC_Get_def MC_Delete_def MC_Append_cmd_def MC_Store_def MC_SelfOp_def op_defs
      case_prod_beta elim: untouched_keyed [OF assms])

lemma untouched_server_ops:
  assumes "server \<noteq> Some p"
  shows "MC_Flush pr b server expiry cb (l, r) = Inr (q, l', r') \<Longrightarrow> untouched p l l'"
    and "MC_Version pr b server cb (l, r) = Inr (q, l', r') \<Longrightarrow> untouched p l l'"
    and "MC_Stat pr b server key cb (l, r) = Inr (q, l', r') \<Longrightarrow> untouched p l l'"
  using assms
  by (auto simp: MC_Flush_def MC_Version_def MC_Stat_def op_defs case_prod_beta intro: untouched_send_to)

lemma untouched_on_error:
  assumes "client_inv lexcast lr" "on_error lexcast q lr = Inr lr'"
  shows "untouched p (fst lr) (fst lr')"
proof -
  obtain l r l' r' where lr: "lr = (l, r)" "lr' = (l', r')" by (cases lr; cases lr')
  have inv: "sl_invar lexcast l" using assms(1) by (simp add: lr client_inv_def)
  show ?thesis
    using assms(2) untouched_remove [OF inv]
    by (auto simp: lr on_error_def remove_server_def res_simps split: if_splits)
qed

lemma untouched_socket:
  assumes "client_inv lexcast (l, r)" "socket_input lexcast pr b q i (l, r) = Inr lr'" "p \<noteq> q"
  shows "untouched p l (fst lr')"
proof -
  let ?s = "sl_items l q"
  obtain c' r1 where h: "handle (OnHeaderReaded pr b) (OnBodayReaded pr b) store_bytes i (si_socket ?s, r) =
      Inr (c', r1)"
    "foldRes (\<lambda>e. on_error lexcast q)
      (filter is_error (drop (length (signals (si_socket ?s))) (signals c')))
      (set_item q (?s\<lparr>si_socket := c'\<rparr>) l, r1) = Inr lr'"
    using assms(2) by (auto simp: socket_input_def Let_def res_simps)
  have "same_requests (mRequests r) r1"
    by (rule user.handle_keep [OF _ h(1)]) (use assms(1) in \<open>simp add: same_requests_def client_inv_def\<close>)
  then have "client_inv lexcast (l, r1)"
    using assms(1) by (auto simp: client_inv_def same_requests_def)
  then have start: "client_inv lexcast (set_item q (?s\<lparr>si_socket := c'\<rparr>) l, r1)"
    by (intro client_inv_set_item) auto
  have "client_inv lexcast lr' \<and> untouched p l (fst lr')"
  proof (rule foldRes_invariant [OF h(2)])
    show "client_inv lexcast (set_item q (?s\<lparr>si_socket := c'\<rparr>) l, r1) \<and>
        untouched p l (fst (set_item q (?s\<lparr>si_socket := c'\<rparr>) l, r1))"
      using start untouched_set_item [OF assms(3)] by simp
    show "client_inv lexcast t \<and> untouched p l (fst t)"
      if "client_inv lexcast s \<and> untouched p l (fst s)" "on_error lexcast q s = Inr t" for s t
      using that on_error_inv untouched_on_error untouched_trans by blast
  qed
  then show ?thesis by simp
qed

lemma untouched_step:
  assumes inv: "client_inv lexcast (l, r)" and p: "p < sl_next l" "p \<notin> snd ` set (sl_servers l)"
    and step: "client_step lexcast raw pr b i (l, r) = Inr (l', r')"
    and other: "\<And>j. i \<noteq> Socket p j" "p \<notin> pointers i"
  shows "untouched p l l'"
proof -
  have sl: "sl_invar lexcast l" using inv by (simp add: client_inv_def)
  note ops = untouched_keyed_ops [OF sl p(2)] untouched_server_ops
  show ?thesis
  proof (cases i)
    case (Add_Server host port resolves)
    then obtain res where "SL_Add lexcast raw OnServerAdded host port resolves (l, r) = (res, l', r')"
      "res \<noteq> Inl NullPointer"
      using step by (auto simp: add_server_def split: prod.splits sum.splits fault.splits)
    then show ?thesis by (rule untouched_add [OF sl p(1)])
  next
    case (Remove_Server host port)
    then show ?thesis using step untouched_remove [OF sl] by (auto simp: remove_server_def res_simps)
  next
    case (Socket q j)
    then show ?thesis using step untouched_socket [OF inv] other(1) by fastforce
  qed (use step other in \<open>auto simp: res_simps dest: ops\<close>)
qed

section \<open>Handlers of a destroyed item\<close>

definition dangling :: "ptr set \<Rightarrow> ptr set \<Rightarrow> server_list \<Rightarrow> ptr \<Rightarrow> bool" where
  "dangling A ps l p \<longleftrightarrow> p < sl_next l \<and> \<not> item_alive A ps l p"

lemma dangling_untouched:
  assumes "dangling A ps l p" "untouched p l l'"
  shows "dangling A ps l' p"
proof -
  have "\<not> (\<exists>a \<in> A \<union> set_option (sl_algorithm l'). p \<in> distri_servers (sl_algorithms l' a))"
  proof (rule notI, elim bexE)
    fix a
    assume "a \<in> A \<union> set_option (sl_algorithm l')" "p \<in> distri_servers (sl_algorithms l' a)"
    then have "a \<in> A \<union> set_option (sl_algorithm l)" "p \<in> distri_servers (sl_algorithms l a)"
      using assms(2) by (cases "a \<in> set_option (sl_algorithm l)"; auto simp: untouched_def)+
    then show False using assms(1) by (auto simp: dangling_def item_alive_def)
  qed
  then show ?thesis using assms by (auto simp: dangling_def item_alive_def untouched_def)
qed

lemma dangling_step:
  assumes inv: "client_inv lexcast (l, r)" and dead: "dangling A ps l p"
    and step: "life_enabled A i (ps, l, r)" "life_step logs A lexcast raw pr b i (ps, l, r) = Inr (ps', l', r')"
  shows "dangling A ps' l' p \<and> sl_items l' p = sl_items l p"
proof (cases i)
  case (Client j)
  have p: "p < sl_next l" "p \<notin> snd ` set (sl_servers l)" "p \<notin> pointers j"
    using dead step(1) Client by (auto simp: dangling_def item_alive_def)
  have "j \<noteq> Socket p k" for k
    using dead step(2) Client by (auto simp: dangling_def)
  moreover have "ps' = ps" "client_step lexcast raw pr b j (l, r) = Inr (l', r')"
    using life_step_Client [OF step(2) [unfolded Client]] by auto
  ultimately have "untouched p l l'" using untouched_step [OF inv p(1,2)] p(3) by blast
  then show ?thesis using dangling_untouched [OF dead] \<open>ps' = ps\<close> by (simp add: untouched_def)
next
  case (Take q)
  then show ?thesis using dead step by (auto simp: dangling_def item_alive_def)
next
  case (Drop q)
  then show ?thesis using dead step by (auto simp: dangling_def item_alive_def)
qed

lemma dangling_run:
  assumes "life_run logs A lexcast raw pr b s is t" "client_inv lexcast (snd s)" "dangling A (fst s) (fst (snd s)) p"
  shows "client_inv lexcast (snd t) \<and> dangling A (fst t) (fst (snd t)) p \<and>
    sl_items (fst (snd t)) p = sl_items (fst (snd s)) p"
  using assms
proof (induction rule: life_run.induct)
  case start
  then show ?case by simp
next
  case (step "is" t i u)
  obtain ps l r ps' l' r' where t: "t = (ps, l, r)" and u: "u = (ps', l', r')" by (cases t; cases u) auto
  have inv: "client_inv lexcast (l, r)" "dangling A ps l p" and same: "sl_items l p = sl_items (fst (snd s)) p"
    using step t by auto
  have "client_run lexcast raw pr b (snd s) (client_inputs (is @ [i])) (snd u)"
    using life_run.step [OF step.hyps] life_run_client_run by (cases s) fastforce
  then have "client_inv lexcast (snd u)" using client_run_inv step.prems(1) by blast
  then show ?case
    using dangling_step [OF inv] step.hyps(2,3) same t u by auto
qed

lemma dangling_handler:
  "dangling A ps l p \<Longrightarrow> life_step logs A lexcast raw pr b (Client (Socket p i)) (ps, l, r) = Inl UseAfterFree"
  by (simp add: dangling_def)

text \<open>An operation under way completes at last, if only with an error.\<close>

lemma completion_of_read:
  "reads c \<noteq> [] \<Longrightarrow> \<exists>i. completion i \<and> enabled i c"
  by (cases "reads c"; cases "fst (hd (reads c))")
    (auto intro: exI [of _ "Header_Done None"] exI [of _ "Body_Done None"])

section \<open>Properties\<close>

text \<open>
  Every run with lifetimes is a run of the client, so that what holds of all runs of the client holds
  of it; and a run of the client in which the program holds a pointer to each server it calls or whose
  connection completes something is a run with lifetimes: nothing else can go wrong.
\<close>

theorem lifetimes_refine_client:
  assumes "\<forall>i \<in> set js. pointers i \<subseteq> ps \<and> (\<forall>p j. i = Socket p j \<longrightarrow> p \<in> ps)"
  shows "(life_run logs A lexcast raw pr b (ps, lr) is (ps', lr') \<longrightarrow> client_run lexcast raw pr b lr (client_inputs is) lr') \<and>
    (client_run lexcast raw pr b lr js lr'' \<longrightarrow> life_run logs A lexcast raw pr b (ps, lr) (map Client js) (ps, lr''))"
proof (intro conjI impI)
  show "client_run lexcast raw pr b lr (client_inputs is) lr'"
    if "life_run logs A lexcast raw pr b (ps, lr) is (ps', lr')"
    using life_run_client_run [OF that] by simp
  show "life_run logs A lexcast raw pr b (ps, lr) (map Client js) (ps, lr'')"
    if "client_run lexcast raw pr b lr js lr''"
    by (rule client_run_life_run [OF that]) (use assms in blast)+
qed

theorem lifetimes_refine_client_witness:
  "\<exists>t. life_run True {} decimal md5_blank standard_protocol \<lparr>NDEBUG = False, HOST_LITTLE = True, ENDIAN_LITTLE = False\<rparr>
    ({1}, two_servers, MemcachedClient (\<lambda>_. MemResult [] None)) [Client (Do_Version (Some 1) None)] ({1}, t)"
proof -
  obtain l r where run: "client_run decimal md5_blank standard_protocol
      \<lparr>NDEBUG = False, HOST_LITTLE = True, ENDIAN_LITTLE = False\<rparr>
      (two_servers, MemcachedClient (\<lambda>_. MemResult [] None)) [Do_Version (Some 1) None] (l, r)"
    by (rule one_version_run)
  have "\<forall>i \<in> set [Do_Version (Some 1) None]. pointers i \<subseteq> {1} \<and> (\<forall>p j. i = Socket p j \<longrightarrow> p \<in> {1})" by simp
  from conjunct2 [OF lifetimes_refine_client [OF this]] run show ?thesis by (intro exI [of _ "(l, r)"]) auto
qed

lemma remove_server_dangles:
  assumes inv: "client_inv lexcast (l, r)" and reg: "SL_Get_server lexcast host port l = Some p"
    and alone: "p \<notin> ps" "\<forall>a \<in> A - set_option (sl_algorithm l). p \<notin> distri_servers (sl_algorithms l a)"
    and rem: "remove_server lexcast host port (l, r) = Inr (gone, l', r')"
  shows "dangling A ps l' p \<and> sl_items l' = sl_items l"
proof -
  have sl: "sl_invar lexcast l" using inv by (simp add: client_inv_def)
  have key: "map_of (sl_servers l) (ToString lexcast host port) = Some p" using reg by (simp add: SL_Get_server_def)
  then have in_list: "p \<in> snd ` set (sl_servers l)" by (force dest: map_of_SomeD)
  have "gone" using rem key by (auto simp: remove_server_def SL_Remove_def Let_def res_simps split: option.splits)
  then have rem: "SL_Remove lexcast OnServerRemoved host port (l, r) = Inr (True, l', r')"
    using rem by (simp add: remove_server_def)
  obtain a where a: "sl_algorithm l = Some a"
    "l' = l\<lparr>sl_algorithms := (sl_algorithms l)(a := distri_Remove (sl_algorithms l a) p),
        sl_servers := AList.delete (ToString lexcast host port) (sl_servers l)\<rparr>"
    using SL_RemoveE [OF rem] key by (metis option.inject)
  have "p \<notin> distri_servers (distri_Remove (sl_algorithms l a) p)"
    using distri.remove_ok [OF sl_invarD(2) [OF sl a(1)]] by blast
  moreover have "p \<notin> snd ` set (sl_servers l')" using sl_invar_remove(2) [OF sl rem key] by blast
  moreover have "p < sl_next l" using sl in_list by (auto simp: sl_invar_def)
  ultimately show ?thesis using a alone by (auto simp: dangling_def item_alive_def)
qed

text \<open>
  C15 A connected server always has a read under way. Removing it from the list when nobody else holds a
  pointer to it destroys the item, and whatever the client does from then on, the handler of that read
  is still to come and runs on the destroyed object.
\<close>

theorem removed_connection_dangles:
  assumes run: "life_run logs A lexcast raw pr b (ps0, l0, MemcachedClient heap) is (ps, l, r)" "sl_invar lexcast l0"
    and reg: "SL_Get_server lexcast host port l = Some p" "reads (si_socket (sl_items l p)) \<noteq> []"
    and alone: "p \<notin> ps" "\<forall>a \<in> A - set_option (sl_algorithm l). p \<notin> distri_servers (sl_algorithms l a)"
    and remove: "life_step logs A lexcast raw pr b (Client (Remove_Server host port)) (ps, l, r) = Inr (ps, l1, r1)"
    and later: "life_run logs A lexcast raw pr b (ps, l1, r1) later (ps2, l2, r2)"
  shows "\<exists>i. completion i \<and> enabled i (si_socket (sl_items l2 p)) \<and>
    life_step logs A lexcast raw pr b (Client (Socket p i)) (ps2, l2, r2) = Inl UseAfterFree"
proof -
  have inv: "client_inv lexcast (l, r)"
    using client_run_inv [OF life_run_client_run [OF run(1)] client_inv_start [OF run(2)]] by simp
  obtain gone where rem: "remove_server lexcast host port (l, r) = Inr (gone, l1, r1)"
    using remove by (auto simp: res_simps)
  have "client_inv lexcast (l1, r1)" by (rule remove_server_inv [OF inv rem])
  moreover note dead = remove_server_dangles [OF inv reg(1) alone rem]
  ultimately have "dangling A ps2 l2 p \<and> sl_items l2 p = sl_items l p"
    using dangling_run [OF later] by simp
  then show ?thesis using completion_of_read [OF reg(2)] dangling_handler by metis
qed

definition connected_servers :: server_list where
  "connected_servers = set_item 0 ((ServerItem ''a'' 1 1)\<lparr>si_socket :=
     (TcpClient 24)\<lparr>isOpen := True, handlersSet := True, reads := [(Reading_Header, True)]\<rparr>\<rparr>) two_servers"

lemma connected_servers_ok: "sl_invar decimal connected_servers"
  unfolding connected_servers_def
  by (rule sl_invar_set_item [OF two_servers_ok]) (simp_all add: two_servers_def ServerItem_def)

lemma connected_servers_simps:
  "sl_servers connected_servers = [(''a1'', 0), (''b2'', 1)]" "sl_algorithm connected_servers = Some 7"
  "reads (si_socket (sl_items connected_servers 0)) = [(Reading_Header, True)]"
  "si_pending (sl_items connected_servers 0) = []"
  by (simp_all add: connected_servers_def two_servers_simps ServerItem_def)

theorem removed_connection_dangles_witness:
  "\<exists>l1 r1 i. completion i \<and>
    life_step True {} decimal md5_blank standard_protocol \<lparr>NDEBUG = False, HOST_LITTLE = True, ENDIAN_LITTLE = False\<rparr>
      (Client (Remove_Server ''a'' 1)) ({}, connected_servers, MemcachedClient (\<lambda>_. MemResult [] None)) = Inr ({}, l1, r1) \<and>
    life_step True {} decimal md5_blank standard_protocol \<lparr>NDEBUG = False, HOST_LITTLE = True, ENDIAN_LITTLE = False\<rparr>
      (Client (Socket 0 i)) ({}, l1, r1) = Inl UseAfterFree"
proof -
  let ?b = "\<lparr>NDEBUG = False, HOST_LITTLE = True, ENDIAN_LITTLE = False\<rparr>"
  let ?s = "({}, connected_servers, MemcachedClient (\<lambda>_. MemResult [] None))"
  obtain l1 r1 where step: "life_step True {} decimal md5_blank standard_protocol ?b (Client (Remove_Server ''a'' 1)) ?s =
      Inr ({}, l1, r1)"
    by (simp add: remove_server_def SL_Remove_def connected_servers_simps ToString_def decimal_digits OnServerRemoved_def)
  have "\<exists>i. completion i \<and> enabled i (si_socket (sl_items l1 0)) \<and>
      life_step True {} decimal md5_blank standard_protocol ?b (Client (Socket 0 i)) ({}, l1, r1) = Inl UseAfterFree"
    by (rule removed_connection_dangles [OF life_run.start connected_servers_ok _ _ _ _ step life_run.start])
      (simp_all add: SL_Get_server_def connected_servers_simps ToString_def decimal_digits)
  then show ?thesis using step by blast
qed

end
