(* ===== verification/Client_Replies.thy ===== *)
theory Client_Replies
  imports Client_Correct
begin

text \<open>
  How the replies of a server complete requests. \<open>feed\<close> gives a connection the next bytes of
  the stream it reads, as asio does; \<open>reply_image\<close> is a reply header on the wire. The lemmas
  follow a reply through \<^verbatim>\<open>OnHeaderReaded\<close>, the scattered body, \<^verbatim>\<open>OnBodayReaded\<close> and the task that
  notifies the result.
\<close>

section \<open>Reading from the stream\<close>

type_synonym reader = "addr tcp_client \<times> requests \<times> u8 list"

definition feed :: "protocol \<Rightarrow> build \<Rightarrow> reader \<Rightarrow> reader res" where
  "feed pr b crs =
     (let (c, r, stream) = crs;
          run = handle (OnHeaderReaded pr b) (OnBodayReaded pr b) store_bytes
      in case reads c of
        [] \<Rightarrow> Inr crs
      | (Reading_Header, _) # _ \<Rightarrow>
          (let n = mHeaderLength c
           in andThen (run (Header_Done (Some (take n stream))) (c, r)) (\<lambda>(c, r). Inr (c, r, drop n stream)))
      | (Reading_Body, _) # _ \<Rightarrow>
          (let n = sum_list (map snd (mReadBuffers c))
           in andThen (run (Body_Done (Some (take n stream))) (c, r)) (\<lambda>(c, r). Inr (c, r, drop n stream))))"

definition ready :: "addr tcp_client \<Rightarrow> bool" where
  "ready c \<longleftrightarrow> handlersSet c \<and> isOpen c \<and> mHeaderLength c = 24 \<and> reads c = [(Reading_Header, True)]"

definition reply_image :: "u8 \<Rightarrow> u16 \<Rightarrow> u16 \<Rightarrow> u8 \<Rightarrow> u32 \<Rightarrow> u8 list \<Rightarrow> u64 \<Rightarrow> u8 list" where
  "reply_image op status keylen extlen bodylen opq cas =
     [0x81, op] @ be_bytes 2 keylen @ [extlen, 0] @ be_bytes 2 status @ be_bytes 4 bodylen @
     opq @ be_bytes 8 cas"

lemma length_reply_image [simp]: "length (reply_image op status keylen extlen bodylen opq cas) = 20 + length opq"
  by (simp add: reply_image_def)

lemma mem_word_be: "mem_word b (be_bytes 2 x) = htons b x" "mem_word b (be_bytes 4 y) = htonl b y"
  using mem16.dec_enc [of b "htons b x"] mem32.dec_enc [of b "htonl b y"]
  by (simp_all add: mem_htons mem_htonl)

text \<open>The header as the client reads it, before and after it is adjusted.\<close>

lemma read_reply:
  assumes "binary_protocol pr"
  shows "read_response pr b (reply_image op status keylen extlen bodylen (mem_bytes b 4 (i :: i32)) cas) =
    \<lparr>rp_keylen = htons b keylen, rp_extlen = extlen, rp_status = htons b status,
     rp_bodylen = htonl b bodylen, rp_opaque = i, rp_cas = mem_word b (be_bytes 8 cas)\<rparr>"
  using assms
  by (simp add: read_response_def binary_protocol_def reply_image_def drop_append nth_append
      mem_word_be mem32.dec_enc)

lemma ntohs_htons: "ntohs b (htons b x) = x" "ntohl b (htonl b y) = y"
  using ntohs_mem [of b x] ntohl_mem [of b y] by (simp_all add: mem_word_be)

lemma adjusted_reply:
  assumes "binary_protocol pr"
  shows "AdjustEndian_response b (read_response pr b
      (reply_image op status keylen extlen bodylen (mem_bytes b 4 (i :: i32)) cas)) =
    \<lparr>rp_keylen = keylen, rp_extlen = extlen, rp_status = htons b status, rp_bodylen = bodylen,
     rp_opaque = i, rp_cas = ntohll b (mem_word b (be_bytes 8 cas))\<rparr>"
  using assms by (simp add: read_reply AdjustEndian_response_def Let_def ntohs_htons ntohs_ntohs)

lemma rewritten_reply:
  assumes "binary_protocol pr"
    and "rp_opaque h = i" "rp_status h = s"
  shows "rp_opaque (read_response pr b (write_response pr b h
      (reply_image op status keylen extlen bodylen (mem_bytes b 4 i) cas))) = i"
    and "rp_status (read_response pr b (write_response pr b h
      (reply_image op status keylen extlen bodylen (mem_bytes b 4 i) cas))) = s"
  using assms
  by (simp_all add: read_response_def write_response_def write_member_def binary_protocol_def
      reply_image_def drop_append mem16.dec_enc mem32.dec_enc)

section \<open>Replies with and without a body\<close>

definition reply_value_length :: "u32 \<Rightarrow> u8 \<Rightarrow> u16 \<Rightarrow> i32" where
  "reply_value_length bodylen extlen keylen = bodylen - ucast extlen - ucast keylen"

lemma OnHeaderReaded_reply:
  assumes "binary_protocol pr" "map_of (mRequests r) i = Some it"
  obtains header where
    "rp_opaque (read_response pr b header) = i" "rp_status (read_response pr b header) = htons b status"
    "OnHeaderReaded pr b (reply_image op status keylen extlen bodylen (mem_bytes b 4 i) cas) r =
      (if reply_value_length bodylen extlen keylen = 0
       then andThen (FinishRequest i (ucast (htons b status)) r) (\<lambda>r. Inr (False, header, [], r))
       else andThen (FillReceiveBuffer (ri_result it) (ucast (htons b status)) []
           (reply_value_length bodylen extlen keylen) (ucast keylen) (results r (ri_result it)))
         (\<lambda>(hasBody, body, res). Inr (hasBody, header, body, set_result (ri_result it) res r)))"
proof -
  let ?hdr = "reply_image op status keylen extlen bodylen (mem_bytes b 4 i) cas"
  let ?h = "AdjustEndian_response b (read_response pr b ?hdr)"
  show thesis
  proof (rule that [of "write_response pr b ?h ?hdr"])
    show "rp_opaque (read_response pr b (write_response pr b ?h ?hdr)) = i"
      "rp_status (read_response pr b (write_response pr b ?h ?hdr)) = htons b status"
      by (rule rewritten_reply [OF assms(1)]; simp add: adjusted_reply [OF assms(1)])+
    show "OnHeaderReaded pr b ?hdr r =
      (if reply_value_length bodylen extlen keylen = 0
       then andThen (FinishRequest i (ucast (htons b status)) r)
         (\<lambda>r. Inr (False, write_response pr b ?h ?hdr, [], r))
       else andThen (FillReceiveBuffer (ri_result it) (ucast (htons b status)) []
           (reply_value_length bodylen extlen keylen) (ucast keylen) (results r (ri_result it)))
         (\<lambda>(hasBody, body, res). Inr (hasBody, write_response pr b ?h ?hdr, body,
            set_result (ri_result it) res r)))"
      using assms(2)
      by (simp add: OnHeaderReaded_def adjusted_reply [OF assms(1)] value_length_def
          reply_value_length_def)
  qed
qed

text \<open>A reply whose value is empty completes its request on the header alone.\<close>

lemma feed_reply_no_value:
  assumes "binary_protocol pr" "ready c" "map_of (mRequests r) i = Some it"
    and "reply_value_length bodylen extlen keylen = 0"
    and "HasMoreResult (results r (ri_result it)) = Inr False"
  shows "\<exists>c'. feed pr b (c, r, reply_image op status keylen extlen bodylen (mem_bytes b 4 i) cas @ tail) =
    Inr (c', r\<lparr>notifies := notifies r @ [(i, ucast (htons b status))]\<rparr>, tail) \<and> ready c'"
proof -
  obtain header where "OnHeaderReaded pr b
      (reply_image op status keylen extlen bodylen (mem_bytes b 4 i) cas) r =
      andThen (FinishRequest i (ucast (htons b status)) r) (\<lambda>r. Inr (False, header, [], r))"
    using OnHeaderReaded_reply [OF assms(1,3), of b status op keylen extlen bodylen cas] assms(4) by metis
  then show ?thesis
    using assms(2,3,5) by (simp add: feed_def ready_def ReadHeader_def FinishRequest_def Let_def)
qed

lemma scatter_all_frame:
  "mRequests (scatter_all store_bytes bufs bytes r) = mRequests r"
  "notifies (scatter_all store_bytes bufs bytes r) = notifies r"
  "called (scatter_all store_bytes bufs bytes r) = called r"
  by (induction bufs arbitrary: bytes r) (auto simp: store_bytes_def)

text \<open>The header of a reply with a value asks for the buffers the result offers.\<close>

lemma feed_header_value:
  assumes "binary_protocol pr" "ready c" "map_of (mRequests r) i = Some it"
    and "reply_value_length bodylen extlen keylen \<noteq> 0"
    and "FillReceiveBuffer (ri_result it) (ucast (htons b status)) []
      (reply_value_length bodylen extlen keylen) (ucast keylen) (results r (ri_result it)) =
      Inr (True, bufs, res)" "bufs \<noteq> []"
  obtains header where "rp_opaque (read_response pr b header) = i"
    "rp_status (read_response pr b header) = htons b status"
    "feed pr b (c, r, reply_image op status keylen extlen bodylen (mem_bytes b 4 i) cas @ stream) =
      Inr (ReadBody (c\<lparr>reads := [], mHeaderBuffer := Some header, mReadBuffers := bufs\<rparr>),
           set_result (ri_result it) res r, stream)"
proof -
  let ?hdr = "reply_image op status keylen extlen bodylen (mem_bytes b 4 i) cas"
  obtain header where header: "rp_opaque (read_response pr b header) = i"
    "rp_status (read_response pr b header) = htons b status"
    "OnHeaderReaded pr b ?hdr r = Inr (True, header, bufs, set_result (ri_result it) res r)"
    using OnHeaderReaded_reply [OF assms(1,3), of b status op keylen extlen bodylen cas] assms(4,5)
    by (metis andThen.simps(2) case_prod_conv)
  show thesis
    by (rule that [OF header(1,2)]) (use assms(2,6) header(3) in \<open>simp add: feed_def ready_def Let_def\<close>)
qed

text \<open>
  A reply with a value: the buffers the result offers are filled from the stream, and the
  request completes with the status of the header.
\<close>

lemma feed_reply_value:
  assumes "binary_protocol pr" "ready c" "map_of (mRequests r) i = Some it"
    and "reply_value_length bodylen extlen keylen \<noteq> 0"
    and "FillReceiveBuffer (ri_result it) (ucast (htons b status)) []
      (reply_value_length bodylen extlen keylen) (ucast keylen) (results r (ri_result it)) =
      Inr (True, bufs, res)" "bufs \<noteq> []" "length body = sum_list (map snd bufs)"
    and "r' = scatter_all store_bytes bufs body (set_result (ri_result it) res r)"
    and "HasMoreResult (results r' (ri_result it)) = Inr False"
  shows "\<exists>c'. andThen
      (feed pr b (c, r, reply_image op status keylen extlen bodylen (mem_bytes b 4 i) cas @ body @ tail))
      (feed pr b) = Inr (c', r'\<lparr>notifies := notifies r @ [(i, ucast (htons b status))]\<rparr>, tail) \<and> ready c'"
proof -
  let ?r1 = "set_result (ri_result it) res r"
  obtain header where header: "rp_opaque (read_response pr b header) = i"
    "rp_status (read_response pr b header) = htons b status"
    "feed pr b (c, r, reply_image op status keylen extlen bodylen (mem_bytes b 4 i) cas @ body @ tail) =
      Inr (ReadBody (c\<lparr>reads := [], mHeaderBuffer := Some header, mReadBuffers := bufs\<rparr>), ?r1, body @ tail)"
    by (rule feed_header_value [OF assms(1-6)])
  let ?c1 = "ReadBody (c\<lparr>reads := [], mHeaderBuffer := Some header, mReadBuffers := bufs\<rparr>)"
  have "feed pr b (?c1, ?r1, body @ tail) =
      Inr (ReadHeader (?c1\<lparr>reads := []\<rparr>), r'\<lparr>notifies := notifies r @ [(i, ucast (htons b status))]\<rparr>, tail)"
    using assms(2,3,7,8,9) header(1,2)
    by (simp add: feed_def ready_def ReadBody_def OnBodayReaded_def FinishRequest_def Let_def
        scatter_all_frame)
  moreover have "ready (ReadHeader (?c1\<lparr>reads := []\<rparr>))"
    using assms(2) by (simp add: ready_def ReadHeader_def ReadBody_def)
  ultimately show ?thesis using header(3) by simp
qed

text \<open>The posted task tells the result and the callback, and forgets the request.\<close>

lemma run_notify_head:
  assumes "notifies r = (i, err) # ts" "map_of (mRequests r) i = Some it"
  shows "run_notify r = Inr (r\<lparr>notifies := ts, mRequests := AList.delete i (mRequests r),
    results := (results r)(ri_result it := Notify err (results r (ri_result it))),
    called := called r @ (case ri_callback it of None \<Rightarrow> [] | Some cb \<Rightarrow> [(cb, ri_result it)])\<rparr>)"
  using assms by (simp add: run_notify_def item_Notify_def set_result_def Let_def split: option.splits)

section \<open>What a request gets\<close>

text \<open>
  A reply whose buffers are the value alone, or the flags and the value: the first reads the
  header, the second the body, the posted task completes the request.
\<close>

definition answer :: "protocol \<Rightarrow> build \<Rightarrow> reader \<Rightarrow> reader res" where
  "answer pr b crs =
     andThen (feed pr b crs) (\<lambda>crs. andThen (feed pr b crs) (\<lambda>(c, r, stream).
       andThen (run_notify r) (\<lambda>r. Inr (c, r, stream))))"

lemma answer_reply_value:
  assumes "binary_protocol pr" "ready c" "map_of (mRequests r) i = Some it" "notifies r = []"
    and "reply_value_length bodylen extlen keylen \<noteq> 0"
    and "FillReceiveBuffer (ri_result it) (ucast (htons b status)) []
      (reply_value_length bodylen extlen keylen) (ucast keylen) (results r (ri_result it)) =
      Inr (True, bufs, res)" "bufs \<noteq> []" "length body = sum_list (map snd bufs)"
    and "r' = scatter_all store_bytes bufs body (set_result (ri_result it) res r)"
    and "HasMoreResult (results r' (ri_result it)) = Inr False"
  shows "\<exists>c'. answer pr b (c, r, reply_image op status keylen extlen bodylen (mem_bytes b 4 i) cas @ body @ tail) =
    Inr (c', r'\<lparr>mRequests := AList.delete i (mRequests r),
      results := (results r')(ri_result it := Notify (ucast (htons b status)) (results r' (ri_result it))),
      called := called r @ (case ri_callback it of None \<Rightarrow> [] | Some cb \<Rightarrow> [(cb, ri_result it)])\<rparr>, tail) \<and>
    ready c'"
proof -
  let ?r1 = "r'\<lparr>notifies := [(i, ucast (htons b status))]\<rparr>"
  obtain c' where c': "ready c'" "andThen
      (feed pr b (c, r, reply_image op status keylen extlen bodylen (mem_bytes b 4 i) cas @ body @ tail))
      (feed pr b) = Inr (c', ?r1, tail)"
    using feed_reply_value [OF assms(1-3) assms(5-10), of op cas tail] assms(4) by auto
  have frame: "mRequests r' = mRequests r" "called r' = called r" "notifies r' = []"
    using assms(4,9) by (simp_all add: scatter_all_frame)
  have "run_notify ?r1 = Inr (r'\<lparr>mRequests := AList.delete i (mRequests r),
      results := (results r')(ri_result it := Notify (ucast (htons b status)) (results r' (ri_result it))),
      called := called r @ (case ri_callback it of None \<Rightarrow> [] | Some cb \<Rightarrow> [(cb, ri_result it)])\<rparr>)"
    using run_notify_head [of ?r1 i _ "[]"] assms(3) frame by simp
  then show ?thesis using c' by (simp add: answer_def andThen_assoc [symmetric])
qed

lemma read_length:
  fixes n :: nat
  assumes "n < 2 ^ 31"
  shows "sint (word_of_nat n :: i32) = int n" "n \<noteq> 0 \<Longrightarrow> (word_of_nat n :: i32) \<noteq> 0"
  using assms
  by (simp_all add: signed_of_nat signed_take_bit_int_eq_self word_of_nat_eq_0_iff nat_dvd_not_less)

lemma swapped_status:
  "byte_swap 2 (0 :: u16) = 0" "byte_swap 2 (1 :: u16) = 0x100" "byte_swap 2 (2 :: u16) = 0x200"
  "byte_swap 2 (3 :: u16) = 0x300" "byte_swap 2 (4 :: u16) = 0x400" "byte_swap 2 (5 :: u16) = 0x500"
  "byte_swap 2 (6 :: u16) = 0x600" "byte_swap 2 (0x20 :: u16) = 0x2000" "byte_swap 2 (0x21 :: u16) = 0x2100"
  "byte_swap 2 (0x81 :: u16) = 0x8100" "byte_swap 2 (0x82 :: u16) = 0x8200"
  "byte_swap 2 (0x86 :: u16) = 0x8600" "byte_swap 2 (0xFF :: u16) = 0xFF00"
  by code_simp+

lemma get_answer:
  assumes "binary_protocol pr" "ready c" "map_of (mRequests r) i = Some it" "notifies r = []"
    and "mr_kind (results r (ri_result it)) = GetResult" "mValue (results r (ri_result it)) = None"
    and "length flags = 4" "length (mFlag (results r (ri_result it))) = 4"
    and "val \<noteq> []" "length val + 4 < 2 ^ 31"
  shows "\<exists>c' r'. answer pr b
      (c, r, reply_image op 0 0 4 (of_nat (length val + 4)) (mem_bytes b 4 i) cas @ flags @ val @ tail) =
      Inr (c', r', tail) \<and> ready c' \<and>
    results r' = (results r)(ri_result it := Notify (status_code ERequest_SUCCESS)
      ((results r (ri_result it))\<lparr>mFlag := map Some flags, mValue := Some (map Some val)\<rparr>)) \<and>
    mRequests r' = AList.delete i (mRequests r) \<and>
    called r' = called r @ (case ri_callback it of None \<Rightarrow> [] | Some cb \<Rightarrow> [(cb, ri_result it)])"
proof -
  let ?p = "ri_result it" and ?n = "length val"
  let ?bufs = "[(flag_addr ?p, 4), (value_addr ?p, ?n)]"
  let ?res = "(results r ?p)\<lparr>mValue := Some (replicate ?n None)\<rparr>"
  let ?r' = "scatter_all store_bytes ?bufs (flags @ val) (set_result ?p ?res r)"
  have len: "reply_value_length (of_nat (?n + 4)) 4 0 = of_nat ?n"
    by (simp add: reply_value_length_def)
  have zero: "ucast (htons b 0) = status_code ERequest_SUCCESS"
    by (simp add: htons_def swapped_status(1))
  have fill: "FillReceiveBuffer ?p (ucast (htons b 0)) [] (reply_value_length (of_nat (?n + 4)) 4 0) (ucast (0 :: u16))
      (results r ?p) = Inr (True, ?bufs, ?res)"
    unfolding len zero using assms(5,6,10) read_length(1) [of ?n] by (simp add: fill_defs)
  have stored: "results ?r' = (results r)(?p := (results r ?p)\<lparr>mFlag := map Some flags, mValue := Some (map Some val)\<rparr>)"
    using assms(7,8) by (simp add: store_bytes_def set_result_def write_result_def addr_defs overlay_def)
  have "reply_value_length (of_nat (?n + 4)) 4 0 \<noteq> 0"
    unfolding len using assms(9,10) read_length(2) [of ?n] by simp
  from answer_reply_value [OF assms(1-4) this fill _ _ refl, of "flags @ val" op cas tail]
  show ?thesis
    using assms(5,7) stored zero by (fastforce simp: HasMoreResult_def)
qed

text \<open>
  C4 A successful reply to a Get delivers its value, when the value is not empty, the caller gave no
  buffer and no other notification is posted: the flags and the value of the body are
  the ones of the result, which completes with \<^verbatim>\<open>ERequest_SUCCESS\<close>, the callback is called with
  it, the request is forgotten, no other result changes, and the connection is at the next
  header. An empty value is \<open>empty_value_desync\<close>, a buffer of the caller \<open>get_fixed_buffer\<close>.
\<close>

theorem get_reply_delivered:
  assumes "binary_protocol pr" "ready c" "map_of (mRequests r) i = Some it" "notifies r = []"
    and "mr_kind (results r (ri_result it)) = GetResult" "mValue (results r (ri_result it)) = None"
    and "length flags = 4" "length (mFlag (results r (ri_result it))) = 4"
    and "val \<noteq> []" "length val + 4 < 2 ^ 31"
  shows "\<exists>c' r'. answer pr b
      (c, r, reply_image op 0 0 4 (of_nat (length val + 4)) (mem_bytes b 4 i) cas @ flags @ val @ tail) =
      Inr (c', r', tail) \<and> ready c' \<and>
    results r' = (results r)(ri_result it := Notify (status_code ERequest_SUCCESS)
      ((results r (ri_result it))\<lparr>mFlag := map Some flags, mValue := Some (map Some val)\<rparr>)) \<and>
    mRequests r' = AList.delete i (mRequests r) \<and>
    called r' = called r @ (case ri_callback it of None \<Rightarrow> [] | Some cb \<Rightarrow> [(cb, ri_result it)])"
  using assms by (rule get_answer)

text \<open>A connection that has sent request 7, and the client that waits for its reply.\<close>

definition listening :: "addr tcp_client" where
  "listening = (TcpClient 24)\<lparr>handlersSet := True, isOpen := True, reads := [(Reading_Header, True)]\<rparr>"

definition waiting_for :: "mem_result \<Rightarrow> requests" where
  "waiting_for res = (MemcachedClient (\<lambda>_. res))
     \<lparr>nextResult := 1, mRequests := [(7, \<lparr>ri_result = 0, ri_callback = Some 3\<rparr>)]\<rparr>"

lemma waiting_for_simps [simp]:
  "ready listening" "map_of (mRequests (waiting_for res)) 7 = Some \<lparr>ri_result = 0, ri_callback = Some 3\<rparr>"
  "notifies (waiting_for res) = []" "results (waiting_for res) p = res" "called (waiting_for res) = []"
  by (simp_all add: ready_def listening_def TcpClient_def waiting_for_def MemcachedClient_def)

theorem get_reply_delivered_witness:
  "\<exists>c' r'. answer standard_protocol \<lparr>NDEBUG = False, HOST_LITTLE = True, ENDIAN_LITTLE = False\<rparr>
      (listening, waiting_for (MemGetResult ''k'' None),
       reply_image 0 0 0 4 6 (mem_bytes \<lparr>NDEBUG = False, HOST_LITTLE = True, ENDIAN_LITTLE = False\<rparr> 4 (7 :: i32)) 0
         @ [1, 2, 3, 4] @ [65, 66] @ [0x81]) = Inr (c', r', [0x81]) \<and>
    mFlag (results r' 0) = [Some 1, Some 2, Some 3, Some 4] \<and> mValue (results r' 0) = Some [Some 65, Some 66] \<and>
    mErrorCode (results r' 0) = status_code ERequest_SUCCESS \<and> called r' = [(3, 0)]"
  using get_reply_delivered [of standard_protocol listening "waiting_for (MemGetResult ''k'' None)" 7
      "\<lparr>ri_result = 0, ri_callback = Some 3\<rparr>" "[1, 2, 3, 4]" "[65, 66]"
      "\<lparr>NDEBUG = False, HOST_LITTLE = True, ENDIAN_LITTLE = False\<rparr>" 0 0 "[0x81]"]
  by (auto simp: standard_protocol_binary MemGetResult_def MemResult_def Notify_def wake_def)

text \<open>
  C40 On a little-endian host the status of a reply is converted twice, so that the request completes
  with the two bytes of the status still swapped: an error reply gives a code that is
  none of the enumeration, and is not the one the server sent.
\<close>

theorem error_status_swapped:
  assumes "binary_protocol pr" "ready c" "map_of (mRequests r) i = Some it" "notifies r = []"
    and "mr_kind (results r (ri_result it)) \<noteq> StatResult" "mValue (results r (ri_result it)) = None"
    and "msg \<noteq> []" "length msg < 2 ^ 31" "HOST_LITTLE b" "st \<noteq> ERequest_SUCCESS"
  shows "\<exists>c' r'. answer pr b (c, r, reply_image op (ucast (status_code st)) 0 0 (of_nat (length msg))
        (mem_bytes b 4 i) cas @ msg @ tail) = Inr (c', r', tail) \<and>
    mErrorCode (results r' (ri_result it)) = 0x100 * status_code st \<and>
    mErrorCode (results r' (ri_result it)) \<notin> range status_code \<and>
    mValue (results r' (ri_result it)) = Some (map Some msg)"
proof -
  let ?p = "ri_result it" and ?n = "length msg" and ?st = "ucast (status_code st) :: u16"
  let ?bufs = "[(value_addr ?p, ?n)]"
  let ?res = "(results r ?p)\<lparr>mValue := Some (replicate ?n None)\<rparr>"
  let ?r' = "scatter_all store_bytes ?bufs msg (set_result ?p ?res r)"
  have code: "ucast (htons b ?st) = 0x100 * status_code st"
    using assms(9) by (cases st) (simp_all add: htons_def swapped_status)
  have foreign: "0x100 * status_code st \<noteq> status_code st'" for st'
    using assms(10) by (cases st; cases st') simp_all
  have len: "reply_value_length (of_nat ?n) 0 0 = of_nat ?n" by (simp add: reply_value_length_def)
  have fill: "FillReceiveBuffer ?p (ucast (htons b ?st)) [] (reply_value_length (of_nat ?n) 0 0) (ucast (0 :: u16))
      (results r ?p) = Inr (True, ?bufs, ?res)"
    unfolding len code using assms(5,6,8) foreign [of ERequest_SUCCESS] read_length(1) [of ?n]
    by (cases "mr_kind (results r ?p)") (simp_all add: fill_defs)
  have stored: "results ?r' = (results r)(?p := (results r ?p)\<lparr>mValue := Some (map Some msg)\<rparr>)"
    by (simp add: store_bytes_def set_result_def write_result_def addr_defs overlay_def)
  have more: "HasMoreResult (results ?r' ?p) = Inr False"
    unfolding stored using assms(5) by (cases "mr_kind (results r ?p)") (simp_all add: HasMoreResult_def)
  have "reply_value_length (of_nat ?n) 0 0 \<noteq> 0"
    unfolding len using assms(7,8) read_length(2) [of ?n] by simp
  from answer_reply_value [OF assms(1-4) this fill _ _ refl more, of op cas tail]
  obtain c' r' where "answer pr b (c, r, reply_image op ?st 0 0 (of_nat ?n) (mem_bytes b 4 i) cas @ msg @ tail) =
      Inr (c', r', tail)" "results r' ?p = Notify (0x100 * status_code st) (results ?r' ?p)"
    unfolding code by (auto intro: that)
  then show ?thesis using stored foreign by (auto simp: Notify_def wake_def)
qed

theorem error_status_swapped_witness:
  "\<exists>c' r'. answer standard_protocol \<lparr>NDEBUG = False, HOST_LITTLE = True, ENDIAN_LITTLE = False\<rparr>
      (listening, waiting_for (MemResult ''k'' None),
       reply_image 4 1 0 0 2 (mem_bytes \<lparr>NDEBUG = False, HOST_LITTLE = True, ENDIAN_LITTLE = False\<rparr> 4 (7 :: i32)) 0
         @ [78, 70] @ []) = Inr (c', r', []) \<and>
    mErrorCode (results r' 0) = 0x100"
  using error_status_swapped [of standard_protocol listening "waiting_for (MemResult ''k'' None)" 7
      "\<lparr>ri_result = 0, ri_callback = Some 3\<rparr>" "[78, 70]"
      "\<lparr>NDEBUG = False, HOST_LITTLE = True, ENDIAN_LITTLE = False\<rparr>" ERequest_KEY_ENOENT 4 0 "[]"]
  by (auto simp: standard_protocol_binary MemResult_def)

text \<open>
  A Get whose value is empty loses the frame: the header completes the request, and the four
  bytes of flags are left in the stream, where the next header is read from.
\<close>

theorem empty_value_desync:
  assumes "binary_protocol pr" "ready c" "map_of (mRequests r) i = Some it"
    and "mr_kind (results r (ri_result it)) = GetResult" "length flags = 4"
  shows "\<exists>c'. feed pr b (c, r, reply_image op 0 0 4 4 (mem_bytes b 4 i) cas @ flags @ tail) =
      Inr (c', r\<lparr>notifies := notifies r @ [(i, status_code ERequest_SUCCESS)]\<rparr>, flags @ tail) \<and> ready c'"
  using feed_reply_no_value [OF assms(1-3), of 4 4 0 b op 0 cas "flags @ tail"] assms(4)
  by (simp add: reply_value_length_def HasMoreResult_def htons_def swapped_status(1) split: if_splits)

theorem empty_value_desync_witness:
  "\<exists>c'. feed standard_protocol \<lparr>NDEBUG = False, HOST_LITTLE = True, ENDIAN_LITTLE = False\<rparr>
      (listening, waiting_for (MemGetResult ''k'' None),
       reply_image 0 0 0 4 4 (mem_bytes \<lparr>NDEBUG = False, HOST_LITTLE = True, ENDIAN_LITTLE = False\<rparr> 4 (7 :: i32)) 0
         @ [0, 0, 0, 0] @ []) =
      Inr (c', (waiting_for (MemGetResult ''k'' None))\<lparr>notifies := [(7, 0)]\<rparr>, [0, 0, 0, 0] @ []) \<and> ready c'"
  using empty_value_desync [of standard_protocol listening "waiting_for (MemGetResult ''k'' None)" 7
      "\<lparr>ri_result = 0, ri_callback = Some 3\<rparr>" "[0, 0, 0, 0]"
      "\<lparr>NDEBUG = False, HOST_LITTLE = True, ENDIAN_LITTLE = False\<rparr>" 0 0 "[]"]
  by (simp add: standard_protocol_binary MemGetResult_def MemResult_def)

text \<open>
  The counter of a reply to Increment or Decrement is stored as it came, and \<^verbatim>\<open>Value\<close> reads
  it in host order: on a little-endian host the caller sees its bytes reversed.
\<close>

theorem counter_reply_unconverted:
  assumes "binary_protocol pr" "ready c" "map_of (mRequests r) i = Some it" "notifies r = []"
    and "mr_kind (results r (ri_result it)) = IncResult"
    and "length (mCounter (results r (ri_result it))) = 8"
  shows "\<exists>c' r'. answer pr b (c, r, reply_image op 0 0 0 8 (mem_bytes b 4 i) cas @ be_bytes 8 (n :: u64) @ tail) =
      Inr (c', r', tail) \<and> ready c' \<and> mErrorCode (results r' (ri_result it)) = status_code ERequest_SUCCESS \<and>
    counter_value b (results r' (ri_result it)) = Inr (if HOST_LITTLE b then byte_swap 8 n else n)"
proof -
  let ?p = "ri_result it" and ?body = "be_bytes 8 n"
  let ?bufs = "[(counter_addr ?p, 8)]"
  let ?r' = "scatter_all store_bytes ?bufs ?body (set_result ?p (results r ?p) r)"
  have zero: "ucast (htons b 0) = status_code ERequest_SUCCESS"
    by (simp add: htons_def swapped_status(1))
  have fill: "FillReceiveBuffer ?p (ucast (htons b 0)) [] (reply_value_length 8 0 0) (ucast (0 :: u16))
      (results r ?p) = Inr (True, ?bufs, results r ?p)"
    unfolding zero using assms(5) by (simp add: fill_defs)
  have stored: "results ?r' = (results r)(?p := (results r ?p)\<lparr>mCounter := map Some ?body\<rparr>)"
    using assms(6) by (simp add: store_bytes_def set_result_def write_result_def addr_defs overlay_def)
  have "counter_value b (Notify e ((results r ?p)\<lparr>mCounter := map Some ?body\<rparr>)) = Inr (mem_word b ?body)" for e
    by (auto simp: counter_value_def Notify_def wake_def comp_def)
  moreover have "mem_word b ?body = (if HOST_LITTLE b then byte_swap 8 n else n)"
    by (simp add: mem_word_def byte_swap_def be64.dec_enc)
  moreover have "HasMoreResult (results ?r' ?p) = Inr False"
    using assms(5) stored by (simp add: HasMoreResult_def)
  ultimately show ?thesis
    using answer_reply_value [OF assms(1-4) _ fill _ _ refl, of ?body op cas tail] stored zero
    by (fastforce simp: reply_value_length_def)
qed

theorem counter_reply_unconverted_witness:
  "\<exists>c' r'. answer standard_protocol \<lparr>NDEBUG = False, HOST_LITTLE = True, ENDIAN_LITTLE = False\<rparr>
      (listening, waiting_for (MemIncResult ''n''),
       reply_image 5 0 0 0 8 (mem_bytes \<lparr>NDEBUG = False, HOST_LITTLE = True, ENDIAN_LITTLE = False\<rparr> 4 (7 :: i32)) 0
         @ be_bytes 8 (1 :: u64) @ []) = Inr (c', r', []) \<and>
    counter_value \<lparr>NDEBUG = False, HOST_LITTLE = True, ENDIAN_LITTLE = False\<rparr> (results r' 0) = Inr 0x0100000000000000"
proof -
  have "byte_swap 8 (1 :: u64) = 0x0100000000000000" by code_simp
  then show ?thesis
    using counter_reply_unconverted [of standard_protocol listening "waiting_for (MemIncResult ''n'')" 7
      "\<lparr>ri_result = 0, ri_callback = Some 3\<rparr>"
      "\<lparr>NDEBUG = False, HOST_LITTLE = True, ENDIAN_LITTLE = False\<rparr>" 5 0 1 "[]"]
    by (auto simp: standard_protocol_binary MemIncResult_def MemResult_def)
qed

text \<open>
  The first reply to a Stat reads \<^verbatim>\<open>mHasMoreResult\<close> before anything has written it: whether the
  reply carries an item or is the empty one that ends the list, completing it depends on
  an uninitialised member.
\<close>

theorem stat_reply_uninitialised:
  assumes "binary_protocol pr" "ready c" "map_of (mRequests r) i = Some it"
    and "mr_kind (results r (ri_result it)) = StatResult" "mHasMoreResult (results r (ri_result it)) = None"
    and "length k < 2 ^ 16" "length v < 2 ^ 31 - 2 ^ 16" "v = [] \<Longrightarrow> k = []"
  shows "andThen (feed pr b (c, r, reply_image op 0 (of_nat (length k)) 0 (of_nat (length k + length v))
      (mem_bytes b 4 i) cas @ k @ v @ tail)) (feed pr b) = Inl Uninitialised"
proof (cases "v = []")
  case True
  let ?hdr = "reply_image op 0 0 0 0 (mem_bytes b 4 i) cas"
  obtain header where "OnHeaderReaded pr b ?hdr r =
      andThen (FinishRequest i (ucast (htons b 0)) r) (\<lambda>r. Inr (False, header, [], r))"
    using OnHeaderReaded_reply [OF assms(1,3), of b 0 op 0 0 0 cas] by (auto simp: reply_value_length_def)
  then have "OnHeaderReaded pr b ?hdr r = Inl Uninitialised"
    using assms(3-5) by (simp add: FinishRequest_def HasMoreResult_def)
  then show ?thesis using True assms(2,8) by (simp add: feed_def ready_def Let_def)
next
  case False
  let ?p = "ri_result it" and ?k = "length k" and ?v = "length v"
  let ?hdr = "reply_image op 0 (of_nat ?k) 0 (of_nat (?k + ?v)) (mem_bytes b 4 i) cas"
  let ?bufs = "[(stat_key_addr ?p, ?k), (stat_value_addr ?p, ?v)]"
  let ?res = "(results r ?p)\<lparr>mStats := mStats (results r ?p) @ [(replicate ?k (Some 0), replicate ?v (Some 0))]\<rparr>"
  let ?r1 = "set_result ?p ?res r"
  have key: "ucast (of_nat ?k :: u16) = (of_nat ?k :: u32)"
    using assms(6) by (simp add: unsigned_of_nat take_bit_nat_eq_self)
  have len: "reply_value_length (of_nat (?k + ?v)) 0 (of_nat ?k) = of_nat ?v"
    by (simp add: reply_value_length_def key)
  have fill: "FillReceiveBuffer ?p (ucast (htons b 0)) [] (reply_value_length (of_nat (?k + ?v)) 0 (of_nat ?k))
      (ucast (of_nat ?k :: u16)) (results r ?p) = Inr (True, ?bufs, ?res)"
    unfolding len key using assms(4,6,7) False read_length [of ?k] read_length [of ?v]
    by (simp add: fill_defs)
  have "reply_value_length (of_nat (?k + ?v)) 0 (of_nat ?k) \<noteq> 0"
    unfolding len using False assms(7) read_length(2) [of ?v] by simp
  then obtain header where header: "rp_opaque (read_response pr b header) = i"
    "feed pr b (c, r, ?hdr @ k @ v @ tail) =
      Inr (ReadBody (c\<lparr>reads := [], mHeaderBuffer := Some header, mReadBuffers := ?bufs\<rparr>), ?r1, k @ v @ tail)"
    by (rule feed_header_value [OF assms(1-3) _ fill]) auto
  let ?c1 = "ReadBody (c\<lparr>reads := [], mHeaderBuffer := Some header, mReadBuffers := ?bufs\<rparr>)"
  have "feed pr b (?c1, ?r1, k @ v @ tail) = Inl Uninitialised"
    using assms(2-5) header(1)
    by (simp add: feed_def ready_def ReadBody_def OnBodayReaded_def FinishRequest_def HasMoreResult_def Let_def
        store_bytes_def set_result_def)
  then show ?thesis using header(2) by simp
qed

theorem stat_reply_uninitialised_witness:
  "andThen (feed standard_protocol \<lparr>NDEBUG = False, HOST_LITTLE = True, ENDIAN_LITTLE = False\<rparr>
      (listening, waiting_for (MemStatResult ''''),
       reply_image 16 0 1 0 2 (mem_bytes \<lparr>NDEBUG = False, HOST_LITTLE = True, ENDIAN_LITTLE = False\<rparr> 4 (7 :: i32)) 0
         @ [112] @ [49] @ []))
     (feed standard_protocol \<lparr>NDEBUG = False, HOST_LITTLE = True, ENDIAN_LITTLE = False\<rparr>) = Inl Uninitialised"
  using stat_reply_uninitialised [of standard_protocol listening "waiting_for (MemStatResult '''')" 7
      "\<lparr>ri_result = 0, ri_callback = Some 3\<rparr>" "[112]" "[49]"
      "\<lparr>NDEBUG = False, HOST_LITTLE = True, ENDIAN_LITTLE = False\<rparr>" 16 0 "[]"]
  by (simp add: standard_protocol_binary MemStatResult_def MemResult_def)

text \<open>
  A second reply to a request that is read before the task of the first has run posts a
  second task; the first one erases the request, and the second dereferences the erased iterator.
\<close>

theorem duplicate_reply_faults:
  assumes "binary_protocol pr" "ready c" "map_of (mRequests r) i = Some it" "notifies r = []"
    and "distinct (map fst (mRequests r))" "mr_kind (results r (ri_result it)) \<noteq> StatResult"
  shows "andThen (feed pr b (c, r, reply_image op st 0 0 0 (mem_bytes b 4 i) cas @
        reply_image op st 0 0 0 (mem_bytes b 4 i) cas @ tail)) (\<lambda>crs.
      andThen (feed pr b crs) (\<lambda>(c, r, stream). andThen (run_notify r) run_notify)) = Inl BadIterator"
proof -
  let ?hdr = "reply_image op st 0 0 0 (mem_bytes b 4 i) cas"
  let ?e = "ucast (htons b st)"
  have len: "reply_value_length 0 0 0 = 0" by (simp add: reply_value_length_def)
  have more: "HasMoreResult (results r (ri_result it)) = Inr False"
    using assms(6) by (cases "mr_kind (results r (ri_result it))") (simp_all add: HasMoreResult_def)
  obtain c1 where c1: "feed pr b (c, r, ?hdr @ ?hdr @ tail) = Inr (c1, r\<lparr>notifies := [(i, ?e)]\<rparr>, ?hdr @ tail)"
    "ready c1"
    using feed_reply_no_value [OF assms(1-3) len more, of b op st cas "?hdr @ tail"] assms(4) by auto
  obtain c2 where c2: "feed pr b (c1, r\<lparr>notifies := [(i, ?e)]\<rparr>, ?hdr @ tail) =
      Inr (c2, r\<lparr>notifies := [(i, ?e), (i, ?e)]\<rparr>, tail)"
    using feed_reply_no_value [OF assms(1) c1(2), of "r\<lparr>notifies := [(i, ?e)]\<rparr>" i it 0 0 0 b op st cas tail]
      assms(3) len more by auto
  have "andThen (run_notify (r\<lparr>notifies := [(i, ?e), (i, ?e)]\<rparr>)) run_notify = Inl BadIterator"
    using run_notify_head [of "r\<lparr>notifies := [(i, ?e), (i, ?e)]\<rparr>" i ?e "[(i, ?e)]" it] assms(3)
    by (simp add: run_notify_def delete_conv)
  then show ?thesis using c1(1) c2 by simp
qed

theorem duplicate_reply_faults_witness:
  "andThen (feed standard_protocol \<lparr>NDEBUG = False, HOST_LITTLE = True, ENDIAN_LITTLE = False\<rparr>
      (listening, waiting_for (MemResult ''k'' None),
       reply_image 4 0 0 0 0 (mem_bytes \<lparr>NDEBUG = False, HOST_LITTLE = True, ENDIAN_LITTLE = False\<rparr> 4 (7 :: i32)) 0 @
       reply_image 4 0 0 0 0 (mem_bytes \<lparr>NDEBUG = False, HOST_LITTLE = True, ENDIAN_LITTLE = False\<rparr> 4 (7 :: i32)) 0 @ []))
     (\<lambda>crs. andThen (feed standard_protocol \<lparr>NDEBUG = False, HOST_LITTLE = True, ENDIAN_LITTLE = False\<rparr> crs)
       (\<lambda>(c, r, stream). andThen (run_notify r) run_notify)) = Inl BadIterator"
  by (rule duplicate_reply_faults [of _ _ _ 7 "\<lparr>ri_result = 0, ri_callback = Some 3\<rparr>"])
    (simp_all add: standard_protocol_binary MemResult_def waiting_for_def MemcachedClient_def
      ready_def listening_def TcpClient_def)

end
