(* ===== verification/Client_Requests.thy ===== *)
theory Client_Requests
  imports Client_Replies
begin

text \<open>
  The way of a request out of the client: from the call through the server list to the
  connection of the chosen server, and the buffer of a caller on the way back.
\<close>

abbreviation usual_build :: build where
  "usual_build \<equiv> \<lparr>NDEBUG = False, HOST_LITTLE = True, ENDIAN_LITTLE = False\<rparr>"

section \<open>A Get on its way\<close>

lemma get_request_bytes:
  assumes "binary_protocol pr"
  shows "get_request pr b key i = Inr (map Some
    (header_image (wire_opcode CMD_GETQ) (length key) (length key) (mem_bytes b 4 i) @ string_bytes key))"
  using assms build_plain_request [OF assms, of b key]
  by (simp add: get_request_def binary_protocol_def)

lemma get_parses:
  assumes "length key < 2 ^ 16"
  shows "parse_request ((header_image (wire_opcode CMD_GETQ) (length key) (length key) (mem_bytes b 4 (i :: i32)) @
      string_bytes key) @ tail) =
    Some (\<lparr>pk_opcode = 0x09, pk_opaque = mem_bytes b 4 i, pk_extras = [], pk_key = string_bytes key,
      pk_value = []\<rparr>, tail)"
  using parse_plain [of key "[]" "0x09" b i tail] assms by simp

lemma MC_Get_sends:
  assumes "binary_protocol pr" "SL_Get b key l = Inr (Some s, l1)"
    and "map_of (mRequests r) (mNextRequestId r) = None"
  shows "MC_Get pr b key buf cb (l, r) = Inr (nextResult r,
    set_item s (SendRequest (mNextRequestId r) (map Some
      (header_image (wire_opcode CMD_GETQ) (length key) (length key) (mem_bytes b 4 (mNextRequestId r)) @
       string_bytes key)) (sl_items l1 s)) l1,
    r\<lparr>mNextRequestId := mNextRequestId r + 1, nextResult := Suc (nextResult r),
      results := (results r)(nextResult r := MemGetResult key buf),
      mRequests := mRequests r @ [(mNextRequestId r, \<lparr>ri_result = nextResult r, ri_callback = cb\<rparr>)]\<rparr>)"
  using assms(2,3)
  by (simp add: MC_Get_def fetch_add_def register_request_def set_result_def send_to_def
      get_request_bytes [OF assms(1)] Let_def)

text \<open>
  C3 A Get goes to a registered server and no other: it is registered under a new number with a
  pending result, and the connection of that server is asked to send bytes a memcached server reads as a
  \<^verbatim>\<open>GETQ\<close> of the key with that number.
\<close>

theorem get_sends_request:
  assumes "binary_protocol pr" "sl_invar lexcast l" "sl_algorithm l = Some a" "sl_hash l = Some hash"
    and "distri_servers (sl_algorithms l a) \<noteq> {}"
    and "map_of (mRequests r) (mNextRequestId r) = None" "length key < 2 ^ 16"
  shows "\<exists>s l' r' bytes. MC_Get pr b key buf cb (l, r) = Inr (nextResult r, l', r') \<and>
    s \<in> snd ` set (sl_servers l) \<and>
    map_of (mRequests r') (mNextRequestId r) = Some \<lparr>ri_result = nextResult r, ri_callback = cb\<rparr> \<and>
    mErrorCode (results r' (nextResult r)) = status_code ERequest_PENDING \<and>
    sl_items l' = (sl_items l)(s := (sl_items l s)
      \<lparr>si_pending := si_pending (sl_items l s) @ [mNextRequestId r],
       si_socket := Send_buffer (map Some bytes) (si_socket (sl_items l s))\<rparr>) \<and>
    parse_request (bytes @ tail) = Some (\<lparr>pk_opcode = 0x09, pk_opaque = mem_bytes b 4 (mNextRequestId r),
      pk_extras = [], pk_key = string_bytes key, pk_value = []\<rparr>, tail)"
proof -
  obtain d s where d: "distri_Get b (sl_items l) (sl_algorithms l a) (hash key) = Inr (d, Some s)"
      "s \<in> distri_servers (sl_algorithms l a)"
    using distri_get_ok [OF sl_invarD(2) [OF assms(2,3)] assms(5)] by blast
  have s: "s \<in> snd ` set (sl_servers l)" using d(2) sl_invarD(3) [OF assms(2,3)] by blast
  let ?l1 = "l\<lparr>sl_algorithms := (sl_algorithms l)(a := d)\<rparr>"
  have get: "SL_Get b key l = Inr (Some s, ?l1)"
    using assms(3,4) d(1) by (simp add: SL_Get_def)
  let ?bytes = "header_image (wire_opcode CMD_GETQ) (length key) (length key)
      (mem_bytes b 4 (mNextRequestId r)) @ string_bytes key"
  let ?l' = "set_item s (SendRequest (mNextRequestId r) (map Some ?bytes) (sl_items ?l1 s)) ?l1"
  let ?r' = "r\<lparr>mNextRequestId := mNextRequestId r + 1, nextResult := Suc (nextResult r),
      results := (results r)(nextResult r := MemGetResult key buf),
      mRequests := mRequests r @ [(mNextRequestId r, \<lparr>ri_result = nextResult r, ri_callback = cb\<rparr>)]\<rparr>"
  have "MC_Get pr b key buf cb (l, r) = Inr (nextResult r, ?l', ?r')"
    by (rule MC_Get_sends [OF assms(1) get assms(6)])
  moreover have "map_of (mRequests ?r') (mNextRequestId r) = Some \<lparr>ri_result = nextResult r, ri_callback = cb\<rparr>"
    using assms(6) by (simp add: map_add_def)
  moreover have "mErrorCode (results ?r' (nextResult r)) = status_code ERequest_PENDING"
    by (simp add: MemGetResult_def MemResult_def)
  moreover have "sl_items ?l' = (sl_items l)(s := (sl_items l s)
      \<lparr>si_pending := si_pending (sl_items l s) @ [mNextRequestId r],
       si_socket := Send_buffer (map Some ?bytes) (si_socket (sl_items l s))\<rparr>)"
    by (simp add: set_item_def SendRequest_def)
  ultimately show ?thesis using s get_parses [OF assms(7)] by blast
qed

theorem get_sends_request_witness:
  "\<exists>s l' r' bytes. MC_Get standard_protocol usual_build ''key'' None None
      (two_servers, MemcachedClient (\<lambda>_. MemResult [] None)) = Inr (0, l', r') \<and>
    s \<in> snd ` set (sl_servers two_servers) \<and> map_of (mRequests r') 0 = Some \<lparr>ri_result = 0, ri_callback = None\<rparr> \<and>
    parse_request (bytes @ [1]) = Some (\<lparr>pk_opcode = 0x09, pk_opaque = mem_bytes usual_build 4 (0 :: i32),
      pk_extras = [], pk_key = string_bytes ''key'', pk_value = []\<rparr>, [1])"
proof -
  let ?r = "MemcachedClient (\<lambda>_. MemResult [] None)"
  have "map_of (mRequests ?r) (mNextRequestId ?r) = None" "nextResult ?r = 0" "mNextRequestId ?r = 0"
    by (simp_all add: MemcachedClient_def)
  then show ?thesis
    using get_sends_request [OF standard_protocol_binary two_servers_ok two_servers_simps(1,2), of ?r "''key''" usual_build None None "[1]"]
    by (auto simp: two_servers_simps)
qed

section \<open>Buffers of the caller\<close>

lemma fixed_answer:
  assumes "binary_protocol pr" "ready c" "map_of (mRequests r) i = Some it" "notifies r = []"
    and "mr_kind (results r (ri_result it)) = GetResult" "mValue (results r (ri_result it)) = Some cells"
    and "length flags = 4" "length (mFlag (results r (ri_result it))) = 4"
    and "val \<noteq> []" "length val + 4 < 2 ^ 31" "length cells \<le> length val"
  shows "\<exists>c' r'. answer pr b
      (c, r, reply_image op 0 0 4 (of_nat (length val + 4)) (mem_bytes b 4 i) cas @ flags @ val @ tail) =
      Inr (c', r', drop (length cells) val @ tail) \<and> ready c' \<and>
    results r' = (results r)(ri_result it := Notify (status_code ERequest_SUCCESS)
      ((results r (ri_result it))\<lparr>mFlag := map Some flags, mValue := Some (map Some (take (length cells) val))\<rparr>)) \<and>
    mRequests r' = AList.delete i (mRequests r) \<and> nextResult r' = nextResult r"
proof -
  let ?p = "ri_result it" and ?n = "length cells"
  let ?bufs = "[(flag_addr ?p, 4), (value_addr ?p, ?n)]"
  let ?body = "flags @ take ?n val"
  let ?r' = "scatter_all store_bytes ?bufs ?body (set_result ?p (results r ?p) r)"
  have len: "reply_value_length (of_nat (length val + 4)) 4 0 = of_nat (length val)"
    by (simp add: reply_value_length_def)
  have zero: "ucast (htons b 0) = status_code ERequest_SUCCESS"
    by (simp add: htons_def swapped_status(1))
  have fill: "FillReceiveBuffer ?p (ucast (htons b 0)) [] (reply_value_length (of_nat (length val + 4)) 4 0)
      (ucast (0 :: u16)) (results r ?p) = Inr (True, ?bufs, results r ?p)"
    unfolding len zero using assms(5,6) by (simp add: fill_defs)
  have stored: "results ?r' = (results r)(?p := (results r ?p)
      \<lparr>mFlag := map Some flags, mValue := Some (map Some (take ?n val))\<rparr>)"
    using assms(6,7,8,11) by (simp add: store_bytes_def set_result_def write_result_def addr_defs overlay_def)
  have next': "nextResult ?r' = nextResult r" by (simp add: store_bytes_def set_result_def)
  have stream: "flags @ val @ tail = ?body @ drop ?n val @ tail" by simp
  have "reply_value_length (of_nat (length val + 4)) 4 0 \<noteq> 0"
    unfolding len using assms(9,10) read_length(2) [of "length val"] by simp
  from answer_reply_value [OF assms(1-4) this fill _ _ refl, of ?body op cas "drop ?n val @ tail"]
  show ?thesis
    unfolding stream using assms(5,7,11) stored zero next' by (fastforce simp: HasMoreResult_def)
qed

text \<open>
  C21 A buffer the caller gives for the value decides how many bytes are read, whatever length the
  reply announces: a value that is longer fills the buffer, the request completes with
  success, and the bytes that are left stand in the stream where the next header is read.
\<close>

theorem get_fixed_buffer:
  assumes "binary_protocol pr" "ready c" "map_of (mRequests r) i = Some it" "notifies r = []"
    and "mr_kind (results r (ri_result it)) = GetResult" "mValue (results r (ri_result it)) = Some cells"
    and "length flags = 4" "length (mFlag (results r (ri_result it))) = 4"
    and "val \<noteq> []" "length val + 4 < 2 ^ 31" "length cells \<le> length val"
  shows "\<exists>c' r'. answer pr b
      (c, r, reply_image op 0 0 4 (of_nat (length val + 4)) (mem_bytes b 4 i) cas @ flags @ val @ tail) =
      Inr (c', r', drop (length cells) val @ tail) \<and> ready c' \<and>
    mErrorCode (results r' (ri_result it)) = status_code ERequest_SUCCESS \<and>
    mValue (results r' (ri_result it)) = Some (map Some (take (length cells) val))"
  using fixed_answer [OF assms, of b op cas tail] by (auto simp: Notify_def wake_def)

theorem get_fixed_buffer_witness:
  "\<exists>c' r'. answer standard_protocol usual_build
      (listening, waiting_for (MemGetResult ''k'' (Some [None, None])),
       reply_image 0 0 0 4 7 (mem_bytes usual_build 4 (7 :: i32)) 0 @ [1, 2, 3, 4] @ [65, 66, 67] @ [0x81]) =
      Inr (c', r', [67, 0x81]) \<and> mValue (results r' 0) = Some [Some 65, Some 66]"
  using get_fixed_buffer [of standard_protocol listening "waiting_for (MemGetResult ''k'' (Some [None, None]))" 7
      "\<lparr>ri_result = 0, ri_callback = Some 3\<rparr>" "[None, None]" "[1, 2, 3, 4]" "[65, 66, 67]" usual_build 0 0 "[0x81]"]
  by (auto simp: standard_protocol_binary MemGetResult_def MemResult_def)

section \<open>Flags\<close>

text \<open>
  The flags of a Get reply are in network order and \<^verbatim>\<open>Flag()\<close> returns them as they came: the number
  the value was stored with arrives with its bytes swapped on a little-endian host.
\<close>

theorem get_flag_unconverted:
  assumes "binary_protocol pr" "ready c" "map_of (mRequests r) i = Some it" "notifies r = []"
    and "mr_kind (results r (ri_result it)) = GetResult" "mValue (results r (ri_result it)) = None"
    and "length (mFlag (results r (ri_result it))) = 4" "val \<noteq> []" "length val + 4 < 2 ^ 31"
  shows "\<exists>c' r'. answer pr b
      (c, r, reply_image op 0 0 4 (of_nat (length val + 4)) (mem_bytes b 4 i) cas @ be_bytes 4 (f :: u32) @ val @ tail) =
      Inr (c', r', tail) \<and> ErrorCode (results r' (ri_result it)) = status_code ERequest_SUCCESS \<and>
    Flag b (results r' (ri_result it)) = Inr (if HOST_LITTLE b then byte_swap 4 f else f)"
proof -
  have "length (be_bytes 4 f) = 4" by simp
  from get_answer [OF assms(1-6) this assms(7-9), of b op cas tail] obtain c' r' where
    "answer pr b (c, r, reply_image op 0 0 4 (of_nat (length val + 4)) (mem_bytes b 4 i) cas @ be_bytes 4 f @ val @ tail) =
      Inr (c', r', tail)"
    and res: "results r' = (results r)(ri_result it := Notify (status_code ERequest_SUCCESS)
      ((results r (ri_result it))\<lparr>mFlag := map Some (be_bytes 4 f), mValue := Some (map Some val)\<rparr>))"
    by blast
  moreover have "mFlag (results r' (ri_result it)) = map Some (be_bytes 4 f)"
    by (simp add: res Notify_def wake_def)
  then have "Flag b (results r' (ri_result it)) = Inr (htonl b f)"
    by (auto simp: Flag_def mem_word_be)
  ultimately show ?thesis
    by (intro exI [of _ c'] exI [of _ r']) (simp add: htonl_def ErrorCode_def)
qed

theorem get_flag_unconverted_witness:
  "\<exists>c' r'. answer standard_protocol usual_build
      (listening, waiting_for (MemGetResult ''k'' None),
       reply_image 0 0 0 4 5 (mem_bytes usual_build 4 (7 :: i32)) 0 @ be_bytes 4 (1 :: u32) @ [65] @ []) = Inr (c', r', []) \<and>
    Flag usual_build (results r' 0) = Inr 0x01000000"
proof -
  have "byte_swap 4 (1 :: u32) = 0x01000000" by code_simp
  then show ?thesis
    using get_flag_unconverted [of standard_protocol listening "waiting_for (MemGetResult ''k'' None)" 7
        "\<lparr>ri_result = 0, ri_callback = Some 3\<rparr>" "[65]" usual_build 0 0 1 "[]"]
    by (simp add: standard_protocol_binary MemGetResult_def MemResult_def) blast
qed

end
