(* ===== verification/Get_Programs.thy ===== *)
theory Get_Programs
  imports Client_Requests
begin

text \<open>
  The two programs of \<^verbatim>\<open>src/example\<close>: the whole library put together, from the command line to the
  printed value. \<open>environment\<close> holds what the programs run in: the build, the header of memcached,
  \<^verbatim>\<open>lexical_cast\<close>, \<^verbatim>\<open>std::hash\<close>, name resolution and the memory objects are made in. A program is
  followed to \<^verbatim>\<open>io.run()\<close>; from there on asio drives the connection. What \<^verbatim>\<open>boost::program_options\<close>
  found on the command line is a record.
\<close>

section \<open>The programs\<close>

record environment =
  env_build :: build
  env_protocol :: protocol
  env_lexcast :: "int \<Rightarrow> string"
  env_raw :: md5
  env_hash :: "string \<Rightarrow> u64"
  env_items :: store
  env_algorithms :: "ptr \<Rightarrow> distri"
  env_results :: "ptr \<Rightarrow> mem_result"
  env_resolves :: bool

text \<open>
  Both programs make a client with a consistent ring, the algorithm object at address 0, and
  add one server.
\<close>

definition start_client :: "environment \<Rightarrow> string \<Rightarrow> int \<Rightarrow> memcached_client res" where
  "start_client e host port =
     (let algorithms = (env_algorithms e)(0 := Consistent (ConsistentHashDistri 200));
          l = ServerList (env_hash e) (env_items e) algorithms 200
      in andThen (SetDistributeAlgorithm (env_build e) (env_lexcast e) (env_raw e) id (Some 0) l) (\<lambda>(old, l).
         case add_server (env_lexcast e) (env_raw e) host port (env_resolves e) (l, MemcachedClient (env_results e)) of
           (Inl f, lr) \<Rightarrow> Inl f
         | (Inr added, lr) \<Rightarrow> Inr lr))"

datatype program = Exits int | Fails fault | Runs_loop ptr memcached_client

record get_options =
  opt_help :: bool
  opt_host :: "string option"
  opt_port :: "int option"
  opt_key :: "string option"

definition chosen_host :: "get_options \<Rightarrow> string" where
  "chosen_host vm = (case opt_host vm of None \<Rightarrow> ''localhost'' | Some h \<Rightarrow> h)"

definition chosen_port :: "get_options \<Rightarrow> int" where
  "chosen_port vm = (case opt_port vm of None \<Rightarrow> 11211 | Some p \<Rightarrow> p)"

text \<open>Callbacks by number: the one that does nothing, and the lambda that prints.\<close>

definition DefaultCallback :: nat where "DefaultCallback = 0"

definition print_callback :: nat where "print_callback = 1"

definition AsyncGet_main :: "environment \<Rightarrow> get_options \<Rightarrow> program" where
  "AsyncGet_main e vm =
     (if opt_key vm = None \<or> opt_help vm then Exits (-1)
      else let host = chosen_host vm; port = chosen_port vm; key = the (opt_key vm)
           in case andThen (start_client e host port)
                (MC_Get_key (env_protocol e) (env_build e) key (Some print_callback)) of
                Inl f \<Rightarrow> Fails f
              | Inr (result, lr) \<Rightarrow> Runs_loop result lr)"

text \<open>\<^verbatim>\<open>Value().ToString()\<close>: a null buffer is dereferenced.\<close>

definition result_string :: "mem_result \<Rightarrow> cell list res" where
  "result_string res = (case mValue res of None \<Rightarrow> Inl NullPointer | Some cs \<Rightarrow> Inr cs)"

definition text_cells :: "string \<Rightarrow> cell list" where
  "text_cells s = map Some (string_bytes s)"

definition AsyncGet_callback :: "string \<Rightarrow> mem_result \<Rightarrow> cell list res" where
  "AsyncGet_callback key res =
     (if ErrorCode res = status_code ERequest_SUCCESS then result_string res
      else Inr (text_cells (''Failed to get: '' @ key)))"

text \<open>The surroundings in which the programs work: the host resolves, and its name is not absurdly long.\<close>

definition usable :: "environment \<Rightarrow> string \<Rightarrow> int \<Rightarrow> bool" where
  "usable e host port \<longleftrightarrow> binary_protocol (env_protocol e) \<and> decimal_cast (env_lexcast e) \<and>
     length (md_buffer (env_raw e)) = 64 \<and> env_resolves e \<and> length host \<le> 2 ^ 31 \<and> \<bar>port\<bar> < 2 ^ 31"

lemma start_client_ok:
  assumes "usable e host port"
  obtains l where "start_client e host port = Inr (l, MemcachedClient (env_results e))"
    "sl_invar (env_lexcast e) l" "sl_algorithm l = Some 0" "sl_hash l = Some (env_hash e)"
    "distri_servers (sl_algorithms l 0) = {0}" "sl_next l = 1"
    "sl_servers l = [(ToString (env_lexcast e) host port, 0)]"
    "sl_items l 0 = (ServerItem host port 1)\<lparr>si_socket :=
       (TcpClient 24)\<lparr>isOpen := True, connects := 1, handlersSet := True\<rparr>\<rparr>"
proof -
  let ?alg = "(env_algorithms e)(0 := Consistent (ConsistentHashDistri 200))"
  let ?l0 = "(ServerList (env_hash e) (env_items e) ?alg 200)\<lparr>sl_algorithm := Some 0\<rparr>"
  have set: "SetDistributeAlgorithm (env_build e) (env_lexcast e) (env_raw e) id (Some 0)
      (ServerList (env_hash e) (env_items e) ?alg 200) = Inr (None, ?l0)"
    by (simp add: SetDistributeAlgorithm_def ServerList_def fun_upd_idem)
  have inv: "sl_invar (env_lexcast e) ?l0"
    by (simp add: sl_invar_def ServerList_def cons_invar_def cons_servers_def ConsistentHashDistri_def om_sorted_def)
  let ?st = "(env_items e)(0 := ServerItem host port 1)"
  have "cons_addable (env_lexcast e) (env_raw e) (ConsistentHashDistri 200) ?st 0"
    using assms by (intro cons_addable_usual)
      (auto simp: usable_def ServerItem_def ConsistentHashDistri_def ring_rounds_default)
  then have can: "can_add (env_lexcast e) (env_raw e) host port 0 ?l0"
    by (simp add: can_add_def ServerList_def)
  obtain d where d: "distri_Add (env_lexcast e) (env_raw e) ?st (Consistent (ConsistentHashDistri 200)) 0 = Inr d"
      "sl_invar (env_lexcast e) (registered (env_lexcast e) host port 0 d ?l0)" "0 \<in> distri_servers d"
    using register [OF inv can] by (auto simp: ServerList_def)
  let ?c = "(TcpClient 24)\<lparr>isOpen := True, connects := 1\<rparr>"
  let ?l1 = "registered (env_lexcast e) host port 0 d ?l0"
  let ?l2 = "set_item 0 ((ServerItem host port 1)\<lparr>si_socket := ?c\<rparr>) ?l1"
  let ?l3 = "set_item 0 ((ServerItem host port 1)\<lparr>si_socket := ?c\<lparr>handlersSet := True\<rparr>\<rparr>) ?l2"
  have next0: "sl_next ?l0 = 0" by (simp add: ServerList_def)
  have con: "Connect True (si_socket (ServerItem host port 1)) = Inr ?c"
    by (simp add: Connect_def ServerItem_def TcpClient_def)
  have "distri_Add (env_lexcast e) (env_raw e) ((sl_items ?l0)(sl_next ?l0 := ServerItem host port 1))
      (sl_algorithms ?l0 0) (sl_next ?l0) = Inr d"
    using d(1) by (simp add: ServerList_def)
  note add = SL_Add_from_registered [OF can_addD [OF can] this]
  have item: "sl_items ?l1 0 = ServerItem host port 1"
    using registered_simps(3) [of "env_lexcast e" host port 0 d ?l0] next0 by simp
  have "SL_Add (env_lexcast e) (env_raw e) OnServerAdded host port True (?l0, MemcachedClient (env_results e)) =
      (Inr True, ?l3, MemcachedClient (env_results e))"
    unfolding add next0 Let_def item con by (simp add: OnServerAdded_def)
  then have start: "start_client e host port = Inr (?l3, MemcachedClient (env_results e))"
    using assms by (simp add: start_client_def set usable_def add_server_def)
  have inv3: "sl_invar (env_lexcast e) ?l3"
    by (intro sl_invar_set_item d(2)) (simp_all add: set_item_def registered_def next0)
  have "distri_servers d = {0}"
    using d(2,3) by (auto simp: sl_invar_def ServerList_def)
  then show thesis
    by (intro that [OF start inv3]) (simp_all add: next0, simp_all add: registered_def ServerList_def set_item_def)
qed

text \<open>The client that has just sent its first Get to its only server.\<close>

abbreviation get_bytes :: "build \<Rightarrow> i32 \<Rightarrow> string \<Rightarrow> u8 list" where
  "get_bytes b i key \<equiv>
     header_image (wire_opcode CMD_GETQ) (length key) (length key) (mem_bytes b 4 i) @ string_bytes key"

definition started :: "environment \<Rightarrow> string \<Rightarrow> int \<Rightarrow> string \<Rightarrow> cell list option \<Rightarrow> nat \<Rightarrow> memcached_client \<Rightarrow> bool" where
  "started e host port key buf cb lr \<longleftrightarrow>
     sl_algorithm (fst lr) = Some 0 \<and> sl_servers (fst lr) = [(ToString (env_lexcast e) host port, 0)] \<and>
     sl_items (fst lr) 0 = \<lparr>si_host = host, si_port = port, si_weight = 1, si_pending = [0],
       si_socket = (TcpClient 24)\<lparr>isOpen := True, connects := 1, handlersSet := True,
         posted := [Post_Send [map Some (get_bytes (env_build e) 0 key)]]\<rparr>\<rparr> \<and>
     snd lr = (MemcachedClient ((env_results e)(0 := MemGetResult key buf)))\<lparr>mNextRequestId := 1, nextResult := 1,
       mRequests := [(0, \<lparr>ri_result = 0, ri_callback = Some cb\<rparr>)]\<rparr>"

lemma started_ok:
  assumes "usable e host port"
  obtains lr where "andThen (start_client e host port)
      (MC_Get (env_protocol e) (env_build e) key buf (Some cb)) = Inr (0, lr)" "started e host port key buf cb lr"
proof -
  obtain l where l: "start_client e host port = Inr (l, MemcachedClient (env_results e))"
    "sl_invar (env_lexcast e) l" "sl_algorithm l = Some 0" "sl_hash l = Some (env_hash e)"
    "distri_servers (sl_algorithms l 0) = {0}" "sl_next l = 1"
    "sl_servers l = [(ToString (env_lexcast e) host port, 0)]"
    "sl_items l 0 = (ServerItem host port 1)\<lparr>si_socket :=
       (TcpClient 24)\<lparr>isOpen := True, connects := 1, handlersSet := True\<rparr>\<rparr>"
    by (rule start_client_ok [OF assms])
  let ?r = "MemcachedClient (env_results e)"
  have "distri_servers (sl_algorithms l 0) \<noteq> {}" using l(5) by simp
  from distri_get_ok [OF sl_invarD(2) [OF l(2,3)] this]
  obtain d s where "distri_Get (env_build e) (sl_items l) (sl_algorithms l 0) (env_hash e key) = Inr (d, Some s)"
    "s \<in> distri_servers (sl_algorithms l 0)" by blast
  then have d: "distri_Get (env_build e) (sl_items l) (sl_algorithms l 0) (env_hash e key) = Inr (d, Some 0)"
    using l(5) by simp
  let ?l1 = "l\<lparr>sl_algorithms := (sl_algorithms l)(0 := d)\<rparr>"
  have get: "SL_Get (env_build e) key l = Inr (Some 0, ?l1)"
    using l(3,4) d by (simp add: SL_Get_def)
  have pr: "binary_protocol (env_protocol e)" using assms by (simp add: usable_def)
  have new: "map_of (mRequests ?r) (mNextRequestId ?r) = None" by (simp add: MemcachedClient_def)
  define l2 where "l2 = set_item 0 (SendRequest (mNextRequestId ?r)
      (map Some (get_bytes (env_build e) (mNextRequestId ?r) key)) (sl_items ?l1 0)) ?l1"
  define r2 where "r2 = ?r\<lparr>mNextRequestId := mNextRequestId ?r + 1, nextResult := Suc (nextResult ?r),
      results := (results ?r)(nextResult ?r := MemGetResult key buf),
      mRequests := mRequests ?r @ [(mNextRequestId ?r, \<lparr>ri_result = nextResult ?r, ri_callback = Some cb\<rparr>)]\<rparr>"
  have "MC_Get (env_protocol e) (env_build e) key buf (Some cb) (l, ?r) = Inr (nextResult ?r, l2, r2)"
    unfolding l2_def r2_def by (rule MC_Get_sends [OF pr get new])
  moreover have "nextResult ?r = 0" by (simp add: MemcachedClient_def)
  moreover have "snd (l2, r2) = (MemcachedClient ((env_results e)(0 := MemGetResult key buf)))
      \<lparr>mNextRequestId := 1, nextResult := 1, mRequests := [(0, \<lparr>ri_result = 0, ri_callback = Some cb\<rparr>)]\<rparr>"
    by (simp add: r2_def MemcachedClient_def)
  moreover have "sl_items l2 0 = \<lparr>si_host = host, si_port = port, si_weight = 1, si_pending = [0],
       si_socket = (TcpClient 24)\<lparr>isOpen := True, connects := 1, handlersSet := True,
         posted := [Post_Send [map Some (get_bytes (env_build e) 0 key)]]\<rparr>\<rparr>"
    using l(8) by (simp add: l2_def set_item_def SendRequest_def Send_buffer_def ServerItem_def
        MemcachedClient_def TcpClient_def)
  moreover have "sl_algorithm l2 = Some 0" "sl_servers l2 = [(ToString (env_lexcast e) host port, 0)]"
    using l(3,7) by (simp_all add: l2_def set_item_def)
  ultimately show thesis
    by (intro that [of "(l2, r2)"]) (simp_all only: l(1) andThen.simps started_def fst_conv snd_conv simp_thms)
qed

text \<open>
  What asio does to the connection of the server; in \<open>request_sent\<close> it is open and the request is
  written. The lifetime of the connection is left out here, so that these runs stand for the program
  where the server stays on the list; \<open>Lifetime_Programs\<close> has runs that destroy it.
\<close>

definition on_connection :: "environment \<Rightarrow> tcp_input list \<Rightarrow> memcached_client \<Rightarrow> memcached_client res" where
  "on_connection e = foldRes (socket_input (env_lexcast e) (env_protocol e) (env_build e) 0)"

definition request_sent :: "tcp_input list" where
  "request_sent = [Connect_Done True, Run_Posted, Write_Done True]"

lemma socket_input_quiet:
  assumes "handle (OnHeaderReaded pr b) (OnBodayReaded pr b) store_bytes i (si_socket (sl_items l p), r) = Inr (c', r')"
    and "filter is_error (drop (length (signals (si_socket (sl_items l p)))) (signals c')) = []"
  shows "socket_input lexcast pr b p i (l, r) = Inr (set_item p ((sl_items l p)\<lparr>si_socket := c'\<rparr>) l, r')"
  using assms by (simp add: socket_input_def)

lemma set_item_twice [simp]: "set_item p t (set_item p s l) = set_item p t l"
  by (simp add: set_item_def)

lemma started_sent:
  assumes "started e host port key buf cb lr"
  obtains l where "on_connection e request_sent lr = Inr (l, snd lr)" "ready (si_socket (sl_items l 0))"
    "written (si_socket (sl_items l 0)) = [map Some (get_bytes (env_build e) 0 key)]"
    "SL_Get_server (env_lexcast e) host port l = Some 0" "sl_algorithm l = Some 0"
    "si_host (sl_items l 0) = host" "si_port (sl_items l 0) = port" "si_pending (sl_items l 0) = [0]"
proof -
  let ?bytes = "map Some (get_bytes (env_build e) 0 key)"
  let ?c = "(TcpClient 24)\<lparr>isOpen := True, connects := 1, handlersSet := True, posted := [Post_Send [?bytes]]\<rparr>"
  let ?c3 = "(TcpClient 24)\<lparr>isOpen := True, handlersSet := True, reads := [(Reading_Header, True)],
      signals := [OnConnected], written := [?bytes]\<rparr>"
  obtain l r where lr: "lr = (l, r)" by (cases lr)
  then have item: "si_socket (sl_items l 0) = ?c" using assms by (simp add: started_def)
  let ?step = "socket_input (env_lexcast e) (env_protocol e) (env_build e) 0"
  let ?at = "\<lambda>c. set_item 0 ((sl_items l 0)\<lparr>si_socket := c\<rparr>) l"
  define c1 :: "addr tcp_client" where "c1 = ?c\<lparr>connects := 0, reads := [(Reading_Header, True)], signals := [OnConnected]\<rparr>"
  define c2 where "c2 = c1\<lparr>posted := [], mWriteBuffers := [?bytes], writes := [([?bytes], True)]\<rparr>"
  have "?step (Connect_Done True) (l, r) = Inr (?at c1, r)"
    by (rule socket_input_quiet)
      (simp_all add: item c1_def on_connect_def ReadHeader_def emit_def TcpClient_def is_error_def)
  moreover have "?step Run_Posted (?at c1, r) = Inr (?at c2, r)"
    by (subst socket_input_quiet [where c' = c2])
      (simp_all add: set_item_twice, simp_all add: c2_def c1_def run_posted_def run_send_def Send_def TcpClient_def)
  moreover have "?step (Write_Done True) (?at c2, r) = Inr (?at ?c3, r)"
    by (subst socket_input_quiet [where c' = ?c3])
      (simp_all add: set_item_twice, simp_all add: c2_def c1_def on_written_def TcpClient_def)
  ultimately have "on_connection e request_sent (l, r) = Inr (?at ?c3, r)"
    by (simp only: on_connection_def request_sent_def foldRes.simps andThen.simps)
  then show thesis using lr assms
    by (intro that [of "?at ?c3"]) (simp_all add: ready_def TcpClient_def SL_Get_server_def started_def)
qed


lemma MC_Get_key_eq: "MC_Get_key pr b key cb = MC_Get pr b key None cb"
  by (simp add: MC_Get_key_def fun_eq_iff)

lemma AsyncGet_started:
  assumes "usable e (chosen_host vm) (chosen_port vm)" "opt_key vm = Some key" "\<not> opt_help vm"
  obtains lr where "AsyncGet_main e vm = Runs_loop 0 lr"
    "started e (chosen_host vm) (chosen_port vm) key None print_callback lr"
proof -
  obtain lr where "andThen (start_client e (chosen_host vm) (chosen_port vm))
      (MC_Get (env_protocol e) (env_build e) key None (Some print_callback)) = Inr (0, lr)"
    "started e (chosen_host vm) (chosen_port vm) key None print_callback lr"
    by (rule started_ok [OF assms(1)])
  then show thesis using assms(2,3)
    by (intro that [of lr]) (simp_all add: AsyncGet_main_def MC_Get_key_eq)
qed

definition demo_env :: environment where
  "demo_env = \<lparr>env_build = usual_build, env_protocol = standard_protocol, env_lexcast = decimal,
     env_raw = md5_blank, env_hash = (\<lambda>s. of_nat (length s)), env_items = (\<lambda>_. ServerItem [] 0 1),
     env_algorithms = (\<lambda>_. Modulo \<lparr>mServers = []\<rparr>), env_results = (\<lambda>_. MemResult [] None),
     env_resolves = True\<rparr>"

definition demo_options :: get_options where
  "demo_options = \<lparr>opt_help = False, opt_host = None, opt_port = Some 1211, opt_key = Some ''k''\<rparr>"

lemma demo_usable: "length host \<le> 2 ^ 31 \<Longrightarrow> \<bar>port\<bar> < 2 ^ 31 \<Longrightarrow> usable demo_env host port"
  by (simp add: usable_def demo_env_def standard_protocol_binary decimal_cast_def)

lemma demo_options_usable:
  "usable demo_env (chosen_host demo_options) (chosen_port demo_options)" "opt_key demo_options = Some ''k''"
  "\<not> opt_help demo_options"
  by (rule demo_usable) (simp_all add: demo_options_def chosen_host_def chosen_port_def)

text \<open>
  C2 \<^verbatim>\<open>AsyncGet\<close> prints the value of its key: it connects to the server, sends one request, which
  the server reads as a Get of the key, and when the server answers with success, the opcode \<open>0x09\<close>, the
  number of that request and a value that is not empty, the callback runs once and prints exactly
  the bytes of the value. An empty value is \<open>async_get_empty_value_crashes\<close>.
\<close>

theorem async_get_prints_value:
  assumes "usable e (chosen_host vm) (chosen_port vm)" "opt_key vm = Some key" "\<not> opt_help vm"
    and "length key < 2 ^ 16" "length flags = 4" "val \<noteq> []" "length val + 4 < 2 ^ 31"
  shows "\<exists>lr l r request pk c' r'. AsyncGet_main e vm = Runs_loop 0 lr \<and>
    on_connection e request_sent lr = Inr (l, r) \<and>
    written (si_socket (sl_items l 0)) = [map Some request] \<and>
    parse_request request = Some (pk, []) \<and> pk_opcode pk = 0x09 \<and> pk_key pk = string_bytes key \<and>
    answer (env_protocol e) (env_build e) (si_socket (sl_items l 0), r,
      reply_image 0x09 0 0 4 (of_nat (length val + 4)) (pk_opaque pk) cas @ flags @ val) = Inr (c', r', []) \<and>
    called r' = [(print_callback, 0)] \<and>
    AsyncGet_callback key (results r' 0) = Inr (map Some val)"
proof -
  let ?b = "env_build e" and ?pr = "env_protocol e"
  obtain lr where lr: "AsyncGet_main e vm = Runs_loop 0 lr"
    "started e (chosen_host vm) (chosen_port vm) key None print_callback lr"
    by (rule AsyncGet_started [OF assms(1-3)])
  obtain l where l: "on_connection e request_sent lr = Inr (l, snd lr)" "ready (si_socket (sl_items l 0))"
    "written (si_socket (sl_items l 0)) = [map Some (get_bytes ?b 0 key)]"
    by (rule started_sent [OF lr(2)])
  let ?r = "snd lr" and ?it = "\<lparr>ri_result = 0, ri_callback = Some print_callback\<rparr>"
  let ?pk = "\<lparr>pk_opcode = 0x09, pk_opaque = mem_bytes ?b 4 (0 :: i32), pk_extras = [], pk_key = string_bytes key,
      pk_value = []\<rparr>"
  have r: "map_of (mRequests ?r) 0 = Some ?it" "notifies ?r = []" "called ?r = []"
    "results ?r 0 = MemGetResult key None" "mRequests ?r = [(0, ?it)]"
    using lr(2) by (simp_all add: started_def MemcachedClient_def)
  have pr: "binary_protocol ?pr" using assms(1) by (simp add: usable_def)
  have "mr_kind (results ?r (ri_result ?it)) = GetResult" "mValue (results ?r (ri_result ?it)) = None"
    "length (mFlag (results ?r (ri_result ?it))) = 4"
    by (simp_all add: r(4) MemGetResult_def MemResult_def)
  from get_answer [OF pr l(2) r(1,2) this(1,2) assms(5) this(3) assms(6,7), of ?b 9 cas "[]"]
  obtain c' r' where a: "answer ?pr ?b (si_socket (sl_items l 0), ?r,
      reply_image 9 0 0 4 (of_nat (length val + 4)) (mem_bytes ?b 4 (0 :: i32)) cas @ flags @ val) = Inr (c', r', [])"
    "results r' = (results ?r)(0 := Notify (status_code ERequest_SUCCESS)
      ((results ?r 0)\<lparr>mFlag := map Some flags, mValue := Some (map Some val)\<rparr>))"
    "called r' = [(print_callback, 0)]"
    using r(3) by auto
  have "AsyncGet_callback key (results r' 0) = Inr (map Some val)"
    by (simp add: AsyncGet_callback_def ErrorCode_def a(2) result_string_def) (simp add: Notify_def wake_def)
  then show ?thesis
    using lr(1) l a(1,3) get_parses [OF assms(4), of ?b 0 "[]"]
    by (intro exI [of _ lr] exI [of _ l] exI [of _ ?r] exI [of _ "get_bytes ?b 0 key"] exI [of _ ?pk]
        exI [of _ c'] exI [of _ r']) simp
qed

theorem async_get_prints_value_witness:
  "\<exists>lr l r request pk c' r'. AsyncGet_main demo_env demo_options = Runs_loop 0 lr \<and>
    on_connection demo_env request_sent lr = Inr (l, r) \<and>
    parse_request request = Some (pk, []) \<and> pk_key pk = string_bytes ''k'' \<and>
    answer standard_protocol usual_build (si_socket (sl_items l 0), r,
      reply_image 0x09 0 0 4 6 (pk_opaque pk) 0 @ [1, 2, 3, 4] @ [72, 105]) = Inr (c', r', []) \<and>
    AsyncGet_callback ''k'' (results r' 0) = Inr [Some 72, Some 105]"
proof -
  have env: "env_protocol demo_env = standard_protocol" "env_build demo_env = usual_build"
    by (simp_all add: demo_env_def)
  have hyps: "length ''k'' < 2 ^ 16" "length [1, 2, 3, 4 :: u8] = 4" "[72, 105 :: u8] \<noteq> []"
    "length [72, 105 :: u8] + 4 < 2 ^ 31"
    by simp_all
  have "\<exists>lr l r request pk c' r'. AsyncGet_main demo_env demo_options = Runs_loop 0 lr \<and>
    on_connection demo_env request_sent lr = Inr (l, r) \<and>
    parse_request request = Some (pk, []) \<and> pk_key pk = string_bytes ''k'' \<and>
    answer standard_protocol usual_build (si_socket (sl_items l 0), r,
      reply_image 0x09 0 0 4 (of_nat (length [72, 105 :: u8] + 4)) (pk_opaque pk) 0 @ [1, 2, 3, 4] @ [72, 105]) =
      Inr (c', r', []) \<and>
    AsyncGet_callback ''k'' (results r' 0) = Inr (map Some [72, 105])"
    using async_get_prints_value [OF demo_options_usable hyps, of 0] unfolding env by blast
  then show ?thesis by simp
qed

lemma started_result:
  assumes "started e host port key buf cb lr"
  shows "map_of (mRequests (snd lr)) 0 = Some \<lparr>ri_result = 0, ri_callback = Some cb\<rparr>" "notifies (snd lr) = []"
    "called (snd lr) = []" "results (snd lr) 0 = MemGetResult key buf"
    "mRequests (snd lr) = [(0, \<lparr>ri_result = 0, ri_callback = Some cb\<rparr>)]"
  using assms by (simp_all add: started_def MemcachedClient_def)

text \<open>
  C16 \<^verbatim>\<open>AsyncGet\<close> has printed the value of its key and its request is gone from the map. When the
  connection is lost after that, as it is when the server closes it, removing the server dereferences the
  iterator \<^verbatim>\<open>mRequests.end()\<close>, because the server still lists the identifier of the request. The slot that
  does so runs before the server is erased from the map, so that no object has been destroyed yet.
\<close>

theorem async_get_lost_later_faults:
  assumes "usable e (chosen_host vm) (chosen_port vm)" "opt_key vm = Some key" "\<not> opt_help vm"
    and "length flags = 4" "val \<noteq> []" "length val + 4 < 2 ^ 31"
  shows "\<exists>lr l r c' r'. AsyncGet_main e vm = Runs_loop 0 lr \<and> on_connection e request_sent lr = Inr (l, r) \<and>
    answer (env_protocol e) (env_build e) (si_socket (sl_items l 0), r,
      reply_image 0x09 0 0 4 (of_nat (length val + 4)) (mem_bytes (env_build e) 4 (0 :: i32)) cas @ flags @ val) =
      Inr (c', r', []) \<and>
    AsyncGet_callback key (results r' 0) = Inr (map Some val) \<and> mRequests r' = [] \<and>
    enabled (Header_Done None) c' \<and>
    on_connection e [Header_Done None] (set_item 0 ((sl_items l 0)\<lparr>si_socket := c'\<rparr>) l, r') = Inl BadIterator"
proof -
  let ?b = "env_build e" and ?pr = "env_protocol e"
  obtain lr where lr: "AsyncGet_main e vm = Runs_loop 0 lr"
    "started e (chosen_host vm) (chosen_port vm) key None print_callback lr"
    by (rule AsyncGet_started [OF assms(1-3)])
  obtain l where l: "on_connection e request_sent lr = Inr (l, snd lr)" "ready (si_socket (sl_items l 0))"
    "SL_Get_server (env_lexcast e) (chosen_host vm) (chosen_port vm) l = Some 0" "sl_algorithm l = Some 0"
    "si_host (sl_items l 0) = chosen_host vm" "si_port (sl_items l 0) = chosen_port vm"
    "si_pending (sl_items l 0) = [0]"
    by (rule started_sent [OF lr(2)])
  let ?c = "si_socket (sl_items l 0)" and ?r = "snd lr"
  note req = started_result [OF lr(2)]
  have pr: "binary_protocol ?pr" using assms(1) by (simp add: usable_def)
  have "mr_kind (results ?r 0) = GetResult" "mValue (results ?r 0) = None" "length (mFlag (results ?r 0)) = 4"
    by (simp_all add: req(4) MemGetResult_def MemResult_def)
  with get_answer [OF pr l(2) req(1,2) _ _ assms(4) _ assms(5,6), of ?b 9 cas "[]"]
  obtain c' r' where a: "answer ?pr ?b (?c, ?r, reply_image 9 0 0 4 (of_nat (length val + 4))
      (mem_bytes ?b 4 (0 :: i32)) cas @ flags @ val) = Inr (c', r', [])" "ready c'"
    "results r' 0 = Notify (status_code ERequest_SUCCESS)
      ((results ?r 0)\<lparr>mFlag := map Some flags, mValue := Some (map Some val)\<rparr>)"
    "mRequests r' = AList.delete 0 (mRequests ?r)"
    by auto
  have gone: "mRequests r' = []" using a(4) req(5) by simp
  have printed: "AsyncGet_callback key (results r' 0) = Inr (map Some val)"
    by (simp add: AsyncGet_callback_def ErrorCode_def a(3) result_string_def) (simp add: Notify_def wake_def)
  have enabled: "enabled (Header_Done None) c'" using a(2) by (simp add: ready_def)
  let ?c1 = "Close4Error ESocket_ReadHeader (c'\<lparr>reads := []\<rparr>)"
  let ?l1 = "set_item 0 ((sl_items l 0)\<lparr>si_socket := ?c1\<rparr>) l"
  have key: "map_of (sl_servers l) (ToString (env_lexcast e) (chosen_host vm) (chosen_port vm)) = Some 0"
    using l(3) by (simp add: SL_Get_server_def)
  then have "0 \<in> snd ` set (sl_servers l)" by (force dest: map_of_SomeD)
  moreover have "OnServerRemoved 0 (sl_items ?l1 0) r' = Inl BadIterator"
    using l(7) gone by (simp add: OnServerRemoved_def FinishRequest_def)
  ultimately have "on_error (env_lexcast e) 0 (?l1, r') = Inl BadIterator"
    using l(4-6) key by (simp add: on_error_def remove_server_def SL_Remove_def Let_def)
  moreover have "handle (OnHeaderReaded ?pr ?b) (OnBodayReaded ?pr ?b) store_bytes (Header_Done None) (c', r') =
      Inr (?c1, r')"
    using a(2) by (simp add: ready_def)
  ultimately have "on_connection e [Header_Done None] (set_item 0 ((sl_items l 0)\<lparr>si_socket := c'\<rparr>) l, r') =
      Inl BadIterator"
    by (simp add: on_connection_def socket_input_def Close4Error_def emit_def is_error_def)
  with lr(1) l(1) a(1) printed gone enabled show ?thesis
    by (intro exI [of _ lr] exI [of _ l] exI [of _ ?r] exI [of _ c'] exI [of _ r']) simp
qed

theorem async_get_lost_later_faults_witness:
  "\<exists>lr l c' r'. AsyncGet_main demo_env demo_options = Runs_loop 0 lr \<and>
    AsyncGet_callback ''k'' (results r' 0) = Inr [Some 72, Some 105] \<and>
    on_connection demo_env [Header_Done None] (set_item 0 ((sl_items l 0)\<lparr>si_socket := c'\<rparr>) l, r') = Inl BadIterator"
proof -
  have hyps: "length [1, 2, 3, 4 :: u8] = 4" "[72, 105 :: u8] \<noteq> []" "length [72, 105 :: u8] + 4 < 2 ^ 31"
    by simp_all
  show ?thesis
    using async_get_lost_later_faults [OF demo_options_usable hyps, of 0] by fastforce
qed

text \<open>
  A key whose value is empty: the request completes with success on the header alone, no buffer is
  made for the value, and the callback of \<^verbatim>\<open>AsyncGet\<close> dereferences the null buffer.
\<close>

theorem async_get_empty_value_crashes:
  assumes "usable e (chosen_host vm) (chosen_port vm)" "opt_key vm = Some key" "\<not> opt_help vm"
  shows "\<exists>lr l r c' r' r''. AsyncGet_main e vm = Runs_loop 0 lr \<and> on_connection e request_sent lr = Inr (l, r) \<and>
    feed (env_protocol e) (env_build e) (si_socket (sl_items l 0), r,
      reply_image 0x09 0 0 4 4 (mem_bytes (env_build e) 4 (0 :: i32)) cas @ flags) = Inr (c', r', flags) \<and>
    run_notify r' = Inr r'' \<and> called r'' = [(print_callback, 0)] \<and>
    AsyncGet_callback key (results r'' 0) = Inl NullPointer"
proof -
  let ?b = "env_build e" and ?pr = "env_protocol e"
  obtain lr where lr: "AsyncGet_main e vm = Runs_loop 0 lr"
    "started e (chosen_host vm) (chosen_port vm) key None print_callback lr"
    by (rule AsyncGet_started [OF assms])
  obtain l where l: "on_connection e request_sent lr = Inr (l, snd lr)" "ready (si_socket (sl_items l 0))"
    by (rule started_sent [OF lr(2)])
  note req = started_result [OF lr(2)]
  have pr: "binary_protocol ?pr" using assms(1) by (simp add: usable_def)
  let ?r = "(snd lr)\<lparr>notifies := [(0, ucast (htons ?b 0))]\<rparr>"
  have "reply_value_length 4 4 0 = 0" by (simp add: reply_value_length_def)
  then obtain c' where c': "feed ?pr ?b (si_socket (sl_items l 0), snd lr,
      reply_image 9 0 0 4 4 (mem_bytes ?b 4 (0 :: i32)) cas @ flags) = Inr (c', ?r, flags)"
    using feed_reply_no_value [OF pr l(2) req(1), of 4 4 0 ?b 9 0 cas flags] req(2,4)
    by (auto simp: HasMoreResult_def MemGetResult_def)
  have zero: "ucast (htons ?b 0) = status_code ERequest_SUCCESS"
    by (simp add: htons_def swapped_status(1))
  have "run_notify ?r = Inr (?r\<lparr>notifies := [], mRequests := [],
      results := (results (snd lr))(0 := Notify (status_code ERequest_SUCCESS) (results (snd lr) 0)),
      called := [(print_callback, 0)]\<rparr>)"
    using run_notify_head [of ?r 0 "ucast (htons ?b 0)" "[]"] req zero by simp
  moreover have "AsyncGet_callback key (Notify (status_code ERequest_SUCCESS) (results (snd lr) 0)) = Inl NullPointer"
    by (simp add: AsyncGet_callback_def ErrorCode_def result_string_def req(4)) (simp add: MemGetResult_def MemResult_def Notify_def wake_def)
  ultimately show ?thesis using lr(1) l(1) c'
    by (intro exI [of _ lr] exI [of _ l] exI [of _ "snd lr"] exI [of _ c'] exI [of _ ?r] exI conjI) (assumption | simp)+
qed

theorem async_get_empty_value_crashes_witness:
  "\<exists>lr l r c' r' r''. AsyncGet_main demo_env demo_options = Runs_loop 0 lr \<and>
    on_connection demo_env request_sent lr = Inr (l, r) \<and>
    feed (env_protocol demo_env) (env_build demo_env) (si_socket (sl_items l 0), r,
      reply_image 0x09 0 0 4 4 (mem_bytes (env_build demo_env) 4 (0 :: i32)) 7 @ [0, 0, 0, 0]) =
      Inr (c', r', [0, 0, 0, 0]) \<and>
    run_notify r' = Inr r'' \<and> AsyncGet_callback ''k'' (results r'' 0) = Inl NullPointer"
  using async_get_empty_value_crashes [OF demo_options_usable, of 7 "[0, 0, 0, 0]"] by blast

section \<open>SyncGet\<close>

text \<open>
  \<^verbatim>\<open>SyncGet\<close> reads into a string of 13 bytes and waits in \<^verbatim>\<open>Finish\<close> while another thread runs asio.
  \<open>SyncGet_output\<close> is what it prints once \<^verbatim>\<open>Finish\<close> is back.
\<close>

definition SyncGet_main :: "environment \<Rightarrow> program" where
  "SyncGet_main e =
     (case andThen (start_client e ''127.0.0.1'' 11211)
        (MC_Get (env_protocol e) (env_build e) ''Test'' (Some (replicate 13 (Some 0))) (Some DefaultCallback)) of
        Inl f \<Rightarrow> Fails f
      | Inr (result, lr) \<Rightarrow> Runs_loop result lr)"

definition SyncGet_output :: "mem_result \<Rightarrow> cell list option" where
  "SyncGet_output res =
     (case mr_waiter res of
        Returned st \<Rightarrow> Some (if st = status_code ERequest_SUCCESS then the (mValue res) else text_cells ''get failed'')
      | _ \<Rightarrow> None)"

lemma sync_answer:
  assumes "binary_protocol pr" "ready c" "length flags = 4" "length val = 13"
    and "mRequests r = [(0, \<lparr>ri_result = 0, ri_callback = Some cb\<rparr>)]" "notifies r = []"
    and "mr_kind (results r 0) = GetResult" "mValue (results r 0) = Some (replicate 13 (Some 0))"
    and "length (mFlag (results r 0)) = 4"
  shows "\<exists>c' r'. answer pr b (c, r,
      reply_image 0x09 0 0 4 17 (mem_bytes b 4 (0 :: i32)) cas @ flags @ val) = Inr (c', r', []) \<and>
    results r' 0 = Notify (status_code ERequest_SUCCESS)
      ((results r 0)\<lparr>mFlag := map Some flags, mValue := Some (map Some val)\<rparr>) \<and>
    mRequests r' = [] \<and> nextResult r' = nextResult r"
  using fixed_answer [OF assms(1,2), of r 0 "\<lparr>ri_result = 0, ri_callback = Some cb\<rparr>" _ flags val b 9 cas "[]"]
    assms(3-) by force

lemma sync_late_finish:
  assumes "client_run lexcast raw pr b (l, set_result p (Finish (results r p)) r) is t" "Spurious_Wake p \<notin> set is"
    and "mRequests r = []" "p < nextResult r"
  shows "SyncGet_output (results (snd t) p) = None"
proof -
  have "left_waiting p (set_result p (Finish (results r p)) r)"
    using assms(3,4) by (simp add: left_waiting_def set_result_def Finish_def)
  then show ?thesis
    using left_waiting_run [OF assms(1) _ assms(2)] by (simp add: SyncGet_output_def left_waiting_def)
qed

text \<open>
  C18 Two threads race in \<^verbatim>\<open>SyncGet\<close>, whose buffer holds 13 bytes, over a value of 13 bytes. When the
  main thread is in \<^verbatim>\<open>Finish\<close> before the reply is notified, it wakes and prints the value; when the
  reply comes first, nothing but a spurious wake-up ever ends the wait, and nothing is printed.
\<close>

theorem sync_get_race:
  assumes "usable e ''127.0.0.1'' 11211" "length flags = 4" "length val = 13"
  shows "\<exists>lr l r. SyncGet_main e = Runs_loop 0 lr \<and> on_connection e request_sent lr = Inr (l, r) \<and>
    (let reply = reply_image 0x09 0 0 4 17 (mem_bytes (env_build e) 4 (0 :: i32)) cas @ flags @ val;
         c = si_socket (sl_items l 0);
         finish = (\<lambda>r. set_result 0 (Finish (results r 0)) r)
     in (\<exists>c' r'. answer (env_protocol e) (env_build e) (c, finish r, reply) = Inr (c', r', []) \<and>
          SyncGet_output (results r' 0) = Some (map Some val)) \<and>
        (\<exists>c' r'. answer (env_protocol e) (env_build e) (c, r, reply) = Inr (c', r', []) \<and>
          (\<forall>l' is t. client_run (env_lexcast e) (env_raw e) (env_protocol e) (env_build e) (l', finish r') is t \<and>
             Spurious_Wake 0 \<notin> set is \<longrightarrow> SyncGet_output (results (snd t) 0) = None)))"
proof -
  let ?b = "env_build e" and ?pr = "env_protocol e"
  let ?buf = "replicate 13 (Some 0) :: cell list"
  let ?finish = "\<lambda>r. set_result 0 (Finish (results r 0)) r"
  let ?reply = "reply_image 0x09 0 0 4 17 (mem_bytes ?b 4 (0 :: i32)) cas @ flags @ val"
  obtain lr where "andThen (start_client e ''127.0.0.1'' 11211)
      (MC_Get ?pr ?b ''Test'' (Some ?buf) (Some DefaultCallback)) = Inr (0, lr)"
    and started: "started e ''127.0.0.1'' 11211 ''Test'' (Some ?buf) DefaultCallback lr"
    by (rule started_ok [OF assms(1)])
  then have main: "SyncGet_main e = Runs_loop 0 lr" by (simp add: SyncGet_main_def)
  obtain l where l: "on_connection e request_sent lr = Inr (l, snd lr)" "ready (si_socket (sl_items l 0))"
    by (rule started_sent [OF started])
  let ?c = "si_socket (sl_items l 0)"
  note req = started_result [OF started]
  have pr: "binary_protocol ?pr" using assms(1) by (simp add: usable_def)
  have res: "mr_kind (results (snd lr) 0) = GetResult" "mValue (results (snd lr) 0) = Some ?buf"
    "length (mFlag (results (snd lr) 0)) = 4"
    by (simp_all add: req(4) MemGetResult_def MemResult_def)
  have "\<exists>c' r'. answer ?pr ?b (?c, ?finish (snd lr), ?reply) = Inr (c', r', []) \<and>
      results r' 0 = Notify (status_code ERequest_SUCCESS)
        ((results (?finish (snd lr)) 0)\<lparr>mFlag := map Some flags, mValue := Some (map Some val)\<rparr>) \<and>
      mRequests r' = [] \<and> nextResult r' = nextResult (?finish (snd lr))"
    by (rule sync_answer [OF pr l(2) assms(2,3), where cb = DefaultCallback])
      (use req(2,5) res in \<open>simp_all add: set_result_def Finish_def\<close>)
  then have one: "\<exists>c' r'. answer ?pr ?b (?c, ?finish (snd lr), ?reply) = Inr (c', r', []) \<and>
      SyncGet_output (results r' 0) = Some (map Some val)"
    by (elim exE conjE) (intro exI conjI, assumption,
        simp add: SyncGet_output_def Notify_def wake_def Finish_def set_result_def)
  obtain c2 r2 where r2: "answer ?pr ?b (?c, snd lr, ?reply) = Inr (c2, r2, [])" "mRequests r2 = []"
      "nextResult r2 = nextResult (snd lr)"
    using sync_answer [OF pr l(2) assms(2,3) req(5,2) res, of ?b cas] by blast
  have "0 < nextResult r2" using started r2(3) by (simp add: started_def)
  with r2 have two: "\<exists>c' r'. answer ?pr ?b (?c, snd lr, ?reply) = Inr (c', r', []) \<and>
      (\<forall>l' is t. client_run (env_lexcast e) (env_raw e) ?pr ?b (l', ?finish r') is t \<and>
         Spurious_Wake 0 \<notin> set is \<longrightarrow> SyncGet_output (results (snd t) 0) = None)"
    using sync_late_finish by blast
  show ?thesis
    unfolding Let_def using main l(1) one two
    by (intro exI [of _ lr] exI [of _ l] exI [of _ "snd lr"] conjI)
qed

theorem sync_get_race_witness:
  "\<exists>lr l r c' r'. SyncGet_main demo_env = Runs_loop 0 lr \<and> on_connection demo_env request_sent lr = Inr (l, r) \<and>
    answer (env_protocol demo_env) (env_build demo_env) (si_socket (sl_items l 0),
      set_result 0 (Finish (results r 0)) r,
      reply_image 0x09 0 0 4 17 (mem_bytes (env_build demo_env) 4 (0 :: i32)) 0 @ [0, 0, 0, 0] @ replicate 13 65) =
      Inr (c', r', []) \<and>
    SyncGet_output (results r' 0) = Some (replicate 13 (Some 65))"
  using sync_get_race [of demo_env "[0, 0, 0, 0]" "replicate 13 65" 0] demo_usable [of "''127.0.0.1''" 11211]
  by (simp only: Let_def map_replicate) fastforce

end
