(* ===== verification/Lifetime_Programs.thy ===== *)
theory Lifetime_Programs
  imports Item_Lifetime Get_Programs
begin

text \<open>
  Lifetimes of items in programs: \<^verbatim>\<open>AsyncGet\<close> when its server cannot be reached, and a \<^verbatim>\<open>Get\<close> whose server is
  lost by the other thread half way through.
\<close>

section \<open>A program whose server cannot be reached\<close>

lemma AsyncGet_invariant:
  assumes "usable e (chosen_host vm) (chosen_port vm)" "opt_key vm = Some key" "\<not> opt_help vm"
    and "AsyncGet_main e vm = Runs_loop 0 lr"
  shows "client_inv (env_lexcast e) lr"
proof -
  obtain l where l: "start_client e (chosen_host vm) (chosen_port vm) = Inr (l, MemcachedClient (env_results e))"
    "sl_invar (env_lexcast e) l" by (rule start_client_ok [OF assms(1)])
  have "MC_Get_key (env_protocol e) (env_build e) key (Some print_callback) (l, MemcachedClient (env_results e)) = Inr (0, lr)"
    using assms(2-4) l(1) by (auto simp: AsyncGet_main_def split: sum.splits prod.splits)
  then show ?thesis
    using request_ops_inv(1) [OF client_inv_start [OF l(2)]] by (cases lr) (auto simp: MC_Get_key_eq)
qed

lemma connect_failure:
  assumes list: "sl_algorithm l = Some a" "sl_servers l = [(ToString lexcast (si_host (sl_items l p)) (si_port (sl_items l p)), p)]"
    and fin: "OnServerRemoved p (sl_items l p) r = Inr r'"
  defines "c \<equiv> on_connect False (si_socket (sl_items l p))"
  shows "socket_input lexcast pr b p (Connect_Done False) (l, r) =
    Inr ((set_item p ((sl_items l p)\<lparr>si_socket := c\<rparr>) l)\<lparr>sl_algorithms :=
      (sl_algorithms l)(a := distri_Remove (sl_algorithms l a) p), sl_servers := []\<rparr>, r')"
proof -
  let ?l1 = "set_item p ((sl_items l p)\<lparr>si_socket := c\<rparr>) l"
  have sig: "filter is_error (drop (length (signals (si_socket (sl_items l p)))) (signals c)) = [OnError ESocket_Connect]"
    by (simp add: c_def on_connect_def emit_def is_error_def Let_def)
  have "OnServerRemoved p (sl_items ?l1 p) r = Inr r'" using fin by (simp add: OnServerRemoved_def)
  then have "on_error lexcast p (?l1, r) = Inr (?l1\<lparr>sl_algorithms :=
      (sl_algorithms ?l1)(a := distri_Remove (sl_algorithms ?l1 a) p), sl_servers := []\<rparr>, r')"
    using list by (simp add: on_error_def remove_server_def SL_Remove_def Let_def)
  then show ?thesis using sig by (simp add: socket_input_def c_def Let_def)
qed

text \<open>
  C17 \<^verbatim>\<open>AsyncGet\<close> holds no pointer to its server. When the connection cannot be made, the write of the
  request is already under way: the slot of \<^verbatim>\<open>OnError\<close> destroys the item, logs its freed host
  where the logger is on, and whatever happens then, the handler of the write runs on the destroyed
  connection.
\<close>

theorem async_get_failure_dangles:
  assumes "usable e (chosen_host vm) (chosen_port vm)" "opt_key vm = Some key" "\<not> opt_help vm"
  defines "stepped \<equiv> \<lambda>logs i. life_step logs {} (env_lexcast e) (env_raw e) (env_protocol e) (env_build e) (Client (Socket 0 i))"
  shows "\<exists>lr s1. AsyncGet_main e vm = Runs_loop 0 lr \<and> stepped logs Run_Posted ({}, lr) = Inr s1 \<and>
    (if logs then stepped logs (Connect_Done False) s1 = Inl UseAfterFree
     else \<exists>s2. stepped logs (Connect_Done False) s1 = Inr s2 \<and> SL_Count (fst (snd s2)) = 0 \<and>
       (\<forall>later s3. life_run logs {} (env_lexcast e) (env_raw e) (env_protocol e) (env_build e) s2 later s3 \<longrightarrow>
         enabled (Write_Done False) (si_socket (sl_items (fst (snd s3)) 0)) \<and>
         stepped logs (Write_Done False) s3 = Inl UseAfterFree))"
proof -
  let ?lex = "env_lexcast e" and ?pr = "env_protocol e" and ?b = "env_build e"
  let ?bytes = "map Some (get_bytes ?b 0 key)"
  obtain lr where lr: "AsyncGet_main e vm = Runs_loop 0 lr"
    "started e (chosen_host vm) (chosen_port vm) key None print_callback lr"
    by (rule AsyncGet_started [OF assms(1-3)])
  have inv: "client_inv ?lex lr" by (rule AsyncGet_invariant [OF assms(1-3) lr(1)])
  note req = started_result [OF lr(2)]
  obtain l r where l: "lr = (l, r)" by (cases lr)
  define c1 :: "addr tcp_client" where "c1 = (TcpClient 24)\<lparr>isOpen := True, connects := 1, handlersSet := True, mWriteBuffers := [?bytes],
      writes := [([?bytes], True)]\<rparr>"
  define l1 where "l1 = set_item 0 ((sl_items l 0)\<lparr>si_socket := c1\<rparr>) l"
  have posted: "socket_input ?lex ?pr ?b 0 Run_Posted (l, r) = Inr (l1, r)"
    unfolding l1_def
    by (rule socket_input_quiet)
      (use lr(2) in \<open>simp_all add: l started_def c1_def run_posted_def run_send_def Send_def TcpClient_def\<close>)
  have s1: "client_inv ?lex (l1, r)" using socket_input_inv [OF inv [unfolded l] posted] .
  have list: "sl_algorithm l1 = Some 0" "sl_servers l1 = [(ToString ?lex (si_host (sl_items l1 0)) (si_port (sl_items l1 0)), 0)]"
    "si_pending (sl_items l1 0) = [0]" "si_socket (sl_items l1 0) = c1"
    using lr(2) by (simp_all add: l l1_def set_item_def started_def)
  let ?r' = "r\<lparr>notifies := [(0, status_code ERequest_NETWORK_ERROR)]\<rparr>"
  have fin: "OnServerRemoved 0 (sl_items l1 0) r = Inr ?r'"
    using FinishRequest_plain [OF req(1)] req(2,4) list(3) by (simp add: l OnServerRemoved_def MemGetResult_def)
  define l2 where "l2 = (set_item 0 ((sl_items l1 0)\<lparr>si_socket := on_connect False c1\<rparr>) l1)\<lparr>sl_algorithms :=
      (sl_algorithms l1)(0 := distri_Remove (sl_algorithms l1 0) 0), sl_servers := []\<rparr>"
  have fails: "socket_input ?lex ?pr ?b 0 (Connect_Done False) (l1, r) = Inr (l2, ?r')"
    using connect_failure [OF list(1,2) fin, of ?pr ?b] list(4) by (simp add: l2_def)
  have s2: "client_inv ?lex (l2, ?r')" using socket_input_inv [OF s1 fails] .
  have sl1: "sl_invar ?lex l1" using s1 by (simp add: client_inv_def)
  then have "0 < sl_next l2" using list(2) by (simp add: sl_invar_def l2_def set_item_def)
  moreover have "0 \<notin> distri_servers (distri_Remove (sl_algorithms l1 0) 0)"
    using distri.remove_ok [OF sl_invarD(2) [OF sl1 list(1)]] by blast
  ultimately have dead: "dangling {} {} l2 0"
    using list(1) by (simp add: dangling_def item_alive_def l2_def set_item_def)
  have alive: "item_alive {} {} l 0" "item_alive {} {} l1 0"
    using lr(2) list(2) by (simp_all add: l item_alive_def started_def)
  have run1: "stepped logs Run_Posted ({}, lr) = Inr ({}, l1, r)"
    using alive posted lr(2) list(2) by (simp add: stepped_def l logs_dead_host_def)
  show ?thesis
  proof (cases logs)
    case True
    have "stepped logs (Connect_Done False) ({}, l1, r) = Inl UseAfterFree"
      using alive(2) fails dead list(2) True by (simp add: stepped_def logs_dead_host_def dangling_def l2_def)
    then show ?thesis using True lr(1) run1 by auto
  next
    case False
    have run2: "stepped logs (Connect_Done False) ({}, l1, r) = Inr ({}, l2, ?r')"
      using alive(2) fails False by (simp add: stepped_def)
    have w: "enabled (Write_Done False) (si_socket (sl_items l2 0))"
      by (simp add: l2_def set_item_def c1_def on_connect_def emit_def)
    have "enabled (Write_Done False) (si_socket (sl_items (fst (snd s3)) 0)) \<and>
        stepped logs (Write_Done False) s3 = Inl UseAfterFree"
      if "life_run logs {} ?lex (env_raw e) ?pr ?b ({}, l2, ?r') later s3" for later s3
      using dangling_run [OF that, of 0] s2 dead w dangling_handler unfolding stepped_def by (cases s3) auto
    moreover have "SL_Count l2 = 0" by (simp add: SL_Count_def l2_def)
    ultimately show ?thesis using False lr(1) run1 run2 by (intro exI [of _ lr] exI [of _ "({}, l1, r)"]) auto
  qed
qed

theorem async_get_failure_dangles_witness:
  "\<exists>lr s1. AsyncGet_main demo_env demo_options = Runs_loop 0 lr \<and>
    life_step True {} (env_lexcast demo_env) (env_raw demo_env) (env_protocol demo_env) (env_build demo_env)
      (Client (Socket 0 Run_Posted)) ({}, lr) = Inr s1 \<and>
    life_step True {} (env_lexcast demo_env) (env_raw demo_env) (env_protocol demo_env) (env_build demo_env)
      (Client (Socket 0 (Connect_Done False))) s1 = Inl UseAfterFree"
  using async_get_failure_dangles [OF demo_options_usable, of True] by simp

section \<open>A request overtaken by the loss of its server\<close>

text \<open>
  The thread that calls \<^verbatim>\<open>Get\<close> and the one that runs the \<^verbatim>\<open>io_service\<close> share the client, and \<^verbatim>\<open>mSyncRequest\<close> is
  locked by neither: between \<^verbatim>\<open>Servers.Get\<close> and the rest of \<^verbatim>\<open>Get\<close> the server can be lost.
\<close>

definition get_choose :: "build \<Rightarrow> string \<Rightarrow> memcached_client \<Rightarrow> (i32 \<times> ptr option \<times> memcached_client) res" where
  "get_choose b key lr =
     (let (l, r) = lr; (requestId, r) = fetch_add r
      in andThen (SL_Get b key l) (\<lambda>(server, l). Inr (requestId, server, l, r)))"

definition get_issue ::
    "protocol \<Rightarrow> build \<Rightarrow> string \<Rightarrow> cell list option \<Rightarrow> nat option \<Rightarrow> i32 \<Rightarrow> ptr option \<Rightarrow> memcached_client
      \<Rightarrow> (ptr \<times> memcached_client) res" where
  "get_issue pr b key buf callback requestId server lr =
     (let (l, r) = lr; (result, r) = register_request requestId callback (MemGetResult key buf) r
      in andThen (get_request pr b key requestId) (\<lambda>requestBuf.
         andThen (send_to server (SendRequest requestId requestBuf) l) (\<lambda>l.
         Inr (result, l, r))))"

lemma MC_Get_halves:
  "MC_Get pr b key buf cb lr =
     andThen (get_choose b key lr) (\<lambda>(i, server, lr). get_issue pr b key buf cb i server lr)"
proof (cases lr)
  case (Pair l r)
  then show ?thesis
    by (cases "SL_Get b key l") (auto simp: MC_Get_def get_choose_def get_issue_def fetch_add_def Let_def)
qed

lemma issue_facts:
  "get_issue pr b key buf cb i (Some p) (l, r) = Inr (q, l', r') \<Longrightarrow>
     notifies r' = notifies r \<and> posted (si_socket (sl_items l' p)) \<noteq> [] \<and>
     (map_of (mRequests r) i = None \<longrightarrow> map_of (mRequests r') i = Some \<lparr>ri_result = q, ri_callback = cb\<rparr>)"
  by (auto simp: get_issue_def register_request_def send_to_def set_item_def SendRequest_def Send_buffer_def Let_def
      res_simps map_add_def split: option.splits if_splits)

text \<open>
  C19 A server lost between the two halves of a Get: the request is registered when the second half is
  done, no notification has been posted for it, and whatever the client does later, the task that
  would send it is still to run and runs on the destroyed connection.
\<close>

theorem get_overtaken_by_loss:
  assumes run: "life_run logs A lexcast raw pr b (ps0, l0, MemcachedClient heap) is (ps, l, r)" "sl_invar lexcast l0"
    and choose: "get_choose b key (l, r) = Inr (i, Some p, l1, r1)"
    and lost: "SL_Get_server lexcast host port l1 = Some p" "remove_server lexcast host port (l1, r1) = Inr (gone, l2, r2)"
    and alone: "p \<notin> ps" "\<forall>a \<in> A - set_option (sl_algorithm l1). p \<notin> distri_servers (sl_algorithms l1 a)"
    and issue: "get_issue pr b key buf cb i (Some p) (l2, r2) = Inr (q, l3, r3)"
  shows "notifies r3 = notifies r2 \<and>
    (map_of (mRequests r) i = None \<longrightarrow> map_of (mRequests r3) i = Some \<lparr>ri_result = q, ri_callback = cb\<rparr>) \<and>
    (\<forall>later ps' l' r'. life_run logs A lexcast raw pr b (ps, l3, r3) later (ps', l', r') \<longrightarrow>
      enabled Run_Posted (si_socket (sl_items l' p)) \<and>
      life_step logs A lexcast raw pr b (Client (Socket p Run_Posted)) (ps', l', r') = Inl UseAfterFree)"
proof -
  have inv: "client_inv lexcast (l, r)"
    using client_run_inv [OF life_run_client_run [OF run(1)] client_inv_start [OF run(2)]] by simp
  have get: "SL_Get b key l = Inr (Some p, l1)" "r1 = r\<lparr>mNextRequestId := mNextRequestId r + 1\<rparr>"
    "i = mNextRequestId r"
    using choose by (auto simp: get_choose_def fetch_add_def res_simps)
  have inv1: "client_inv lexcast (l1, r1)"
    using SL_Get_inv(1) [OF inv get(1)] by (simp add: get(2) client_inv_def)
  have inv2: "client_inv lexcast (l2, r2)" by (rule remove_server_inv [OF inv1 lost(2)])
  have dead: "dangling A ps l2 p" using remove_server_dangles [OF inv1 lost(1) alone lost(2)] by blast
  obtain bytes where l3: "l3 = set_item p (SendRequest i bytes (sl_items l2 p)) l2"
    and reg: "register_request i cb (MemGetResult key buf) (r2\<lparr>mNextRequestId := mNextRequestId r2\<rparr>) = (q, r3)"
    using issue by (auto simp: get_issue_def send_to_def res_simps Let_def split: prod.splits)
  have "p < sl_next l2" using dead by (simp add: dangling_def)
  then have inv3: "client_inv lexcast (l3, r3)"
    unfolding l3 by (rule issue_inv [OF inv2 _ _ reg]) simp_all
  have dead3: "dangling A ps l3 p" using dead by (simp add: l3 dangling_def item_alive_def)
  note issued = issue_facts [OF issue]
  have "mRequests r2 = mRequests r"
    using lost(2) OnServerRemoved_inv get(2)
    by (fastforce simp: remove_server_def SL_Remove_def Let_def res_simps split: option.splits)
  moreover have "enabled Run_Posted (si_socket (sl_items l' p)) \<and>
      life_step logs A lexcast raw pr b (Client (Socket p Run_Posted)) (ps', l', r') = Inl UseAfterFree"
    if "life_run logs A lexcast raw pr b (ps, l3, r3) later (ps', l', r')" for later ps' l' r'
    using dangling_run [OF that, of p] inv3 dead3 issued dangling_handler by auto
  ultimately show ?thesis using issued by auto
qed

theorem get_overtaken_by_loss_witness:
  "\<exists>l1 r1 l2 r2 q l3 r3.
    get_choose usual_build ''foo'' (two_servers, MemcachedClient (\<lambda>_. MemResult [] None)) = Inr (0, Some 1, l1, r1) \<and>
    remove_server decimal ''b'' 2 (l1, r1) = Inr (True, l2, r2) \<and>
    get_issue standard_protocol usual_build ''foo'' None None 0 (Some 1) (l2, r2) = Inr (q, l3, r3) \<and>
    map_of (mRequests r3) 0 = Some \<lparr>ri_result = q, ri_callback = None\<rparr> \<and>
    life_step False {} decimal md5_blank standard_protocol usual_build (Client (Socket 1 Run_Posted)) ({}, l3, r3) =
      Inl UseAfterFree"
proof -
  let ?r = "MemcachedClient (\<lambda>_. MemResult [] None)"
  have choose: "\<exists>l1 r1. get_choose usual_build ''foo'' (two_servers, ?r) = Inr (0, Some 1, l1, r1) \<and>
      sl_servers l1 = sl_servers two_servers \<and> sl_algorithm l1 = Some 7 \<and> sl_items l1 = sl_items two_servers"
    by (simp add: get_choose_def fetch_add_def SL_Get_def two_servers_simps MemcachedClient_def)
      (simp add: two_servers_def modulo_list_def ServerList_def Modulo_Get_def assert_then_def, simp add: numeral_3_eq_3 mod_Suc)
  then obtain l1 r1 where l1: "get_choose usual_build ''foo'' (two_servers, ?r) = Inr (0, Some 1, l1, r1)"
    "sl_servers l1 = [(''a1'', 0), (''b2'', 1)]" "sl_algorithm l1 = Some 7" "sl_items l1 = sl_items two_servers"
    unfolding two_servers_simps by blast
  have reg: "SL_Get_server decimal ''b'' 2 l1 = Some 1"
    by (simp add: SL_Get_server_def l1 ToString_def decimal_digits)
  obtain l2 r2 where rem: "remove_server decimal ''b'' 2 (l1, r1) = Inr (True, l2, r2)"
    by (simp add: remove_server_def SL_Remove_def l1 OnServerRemoved_def two_servers_def ServerItem_def Let_def
        ToString_def decimal_digits)
  obtain q l3 r3 where issue: "get_issue standard_protocol usual_build ''foo'' None None 0 (Some 1) (l2, r2) = Inr (q, l3, r3)"
    by (cases "register_request 0 None (MemGetResult ''foo'' None) r2")
      (simp add: get_issue_def send_to_def get_request_bytes [OF standard_protocol_binary])
  have "map_of (mRequests ?r) 0 = None" by (simp add: MemcachedClient_def)
  moreover have "notifies r3 = notifies r2 \<and>
    (map_of (mRequests ?r) 0 = None \<longrightarrow> map_of (mRequests r3) 0 = Some \<lparr>ri_result = q, ri_callback = None\<rparr>) \<and>
    (\<forall>later ps' l' r'. life_run False {} decimal md5_blank standard_protocol usual_build ({}, l3, r3) later (ps', l', r') \<longrightarrow>
      enabled Run_Posted (si_socket (sl_items l' 1)) \<and>
      life_step False {} decimal md5_blank standard_protocol usual_build (Client (Socket 1 Run_Posted)) (ps', l', r') =
        Inl UseAfterFree)"
    by (rule get_overtaken_by_loss [OF life_run.start two_servers_ok l1(1) reg rem _ _ issue]) simp_all
  moreover note life_run.start [of False "{}" decimal md5_blank standard_protocol usual_build "({}, l3, r3)"]
  ultimately show ?thesis using l1(1) rem issue by blast
qed

end
