(* ===== verification/Std_String.thy ===== *)
theory Std_String
  imports Prelude "HOL-Library.Sublist"
begin

text \<open>
  What the sources use of \<^verbatim>\<open>std::string\<close> and of formatted and line input: searching, replacing,
  reading words and lines. A position \<^verbatim>\<open>npos\<close> is \<open>None\<close>. \<open>subst_all\<close> is the reference for replacing
  every occurrence of a string, from the left and without overlap.
\<close>

section \<open>Operations\<close>

text \<open>\<^verbatim>\<open>s.find(pat, pos)\<close>\<close>

function str_find :: "string \<Rightarrow> string \<Rightarrow> nat \<Rightarrow> nat option" where
  "str_find pat s pos =
     (if length s < pos + length pat then None
      else if take (length pat) (drop pos s) = pat then Some pos
      else str_find pat s (Suc pos))"
  by pat_completeness auto
termination by (relation "measure (\<lambda>(pat, s, pos). Suc (length s) - pos)") auto

declare str_find.simps [simp del]

text \<open>\<^verbatim>\<open>s.replace(pos, n, to)\<close>, with \<open>pos\<close> in the string\<close>

definition str_replace :: "nat \<Rightarrow> nat \<Rightarrow> string \<Rightarrow> string \<Rightarrow> string" where
  "str_replace pos n to s = take pos s @ to @ drop (pos + n) s"

text \<open>\<^verbatim>\<open>s.find_last_of(c, pos)\<close>\<close>

definition find_last_of :: "char \<Rightarrow> string \<Rightarrow> nat option \<Rightarrow> nat option" where
  "find_last_of c s pos =
     (let found = filter (\<lambda>i. s ! i = c \<and> (case pos of None \<Rightarrow> True | Some p \<Rightarrow> i \<le> p)) [0..<length s]
      in if found = [] then None else Some (last found))"

text \<open>The lines \<^verbatim>\<open>while(getline(in, line))\<close> sees, and the first word \<^verbatim>\<open>in >> word\<close> reads.\<close>

function getlines :: "string \<Rightarrow> string list" where
  "getlines s =
     (if s = [] then []
      else takeWhile (\<lambda>c. c \<noteq> CHR 0x0A) s # getlines (tl (dropWhile (\<lambda>c. c \<noteq> CHR 0x0A) s)))"
  by pat_completeness auto
termination
  by (relation "measure length")
    (auto simp: neq_Nil_conv less_Suc_eq_le intro!: le_trans [OF diff_le_self length_dropWhile_le])

declare getlines.simps [simp del]

definition white_space :: "char \<Rightarrow> bool" where
  "white_space c \<longleftrightarrow> c \<in> {CHR '' '', CHR 0x09, CHR 0x0A, CHR 0x0B, CHR 0x0C, CHR 0x0D}"

definition read_word :: "string \<Rightarrow> string \<times> string" where
  "read_word s = (let s = dropWhile white_space s
     in (takeWhile (Not \<circ> white_space) s, dropWhile (Not \<circ> white_space) s))"

section \<open>Replacing every occurrence\<close>

function subst_all :: "string \<Rightarrow> string \<Rightarrow> string \<Rightarrow> string" where
  "subst_all pat to s =
     (if s = [] \<or> pat = [] then s
      else if prefix pat s then to @ subst_all pat to (drop (length pat) s)
      else hd s # subst_all pat to (tl s))"
  by pat_completeness auto
termination by (relation "measure (\<lambda>(pat, to, s). length s)") auto

declare subst_all.simps [simp del]

lemma subst_all_Nil [simp]: "subst_all pat to [] = []"
  by (simp add: subst_all.simps)

lemma subst_all_skip: "\<not> prefix pat (c # s) \<Longrightarrow> subst_all pat to (c # s) = c # subst_all pat to s"
  by (subst subst_all.simps) (cases "pat = []"; simp)

lemma subst_all_hit: "pat \<noteq> [] \<Longrightarrow> subst_all pat to (pat @ s) = to @ subst_all pat to s"
  by (subst subst_all.simps) simp

lemma subst_all_first:
  "pat \<noteq> [] \<Longrightarrow> \<forall>j < length a. \<not> prefix pat (drop j (a @ pat @ s)) \<Longrightarrow>
     subst_all pat to (a @ pat @ s) = a @ to @ subst_all pat to s"
proof (induction a)
  case Nil
  then show ?case by (simp add: subst_all_hit)
next
  case (Cons c a)
  have "\<not> prefix pat (drop (Suc j) ((c # a) @ pat @ s))" if "j < length a" for j
    using Cons.prems(2) that by (metis Suc_less_eq length_Cons)
  then have "subst_all pat to (a @ pat @ s) = a @ to @ subst_all pat to s"
    using Cons.IH Cons.prems(1) by simp
  moreover have "\<not> prefix pat (c # a @ pat @ s)" using Cons.prems(2) by (metis append_Cons drop0 length_Cons zero_less_Suc)
  ultimately show ?case by (simp add: subst_all_skip)
qed

lemma subst_all_absent: "\<forall>j < length s. \<not> prefix pat (drop j s) \<Longrightarrow> subst_all pat to s = s"
proof (induction s)
  case (Cons c s)
  then have "\<forall>j < length s. \<not> prefix pat (drop j s)" by (metis Suc_less_eq drop_Suc_Cons length_Cons)
  moreover have "\<not> prefix pat (c # s)" using Cons.prems by (metis drop0 length_Cons zero_less_Suc)
  ultimately show ?case using Cons.IH by (simp add: subst_all_skip)
qed simp

lemma subst_all_char: "subst_all [c] to s = concat (map (\<lambda>x. if x = c then to else [x]) s)"
proof (induction s)
  case (Cons x s)
  then show ?case
    using subst_all_hit [of "[c]" to s] subst_all_skip [of "[c]" x s to] by (cases "x = c") simp_all
qed simp

section \<open>Searching\<close>

lemma occurs_iff: "prefix pat (drop i s) \<longleftrightarrow> take (length pat) (drop i s) = pat"
  by (metis append_eq_conv_conj append_take_drop_id prefix_def)

lemma str_find_Some:
  "str_find pat s pos = Some i \<Longrightarrow> pos \<le> i \<and> i + length pat \<le> length s \<and> prefix pat (drop i s) \<and>
     (\<forall>j. pos \<le> j \<longrightarrow> j < i \<longrightarrow> \<not> prefix pat (drop j s))"
proof (induction pat s pos rule: str_find.induct)
  case (1 pat s pos)
  show ?case
  proof (cases "length s < pos + length pat \<or> prefix pat (drop pos s)")
    case True
    then show ?thesis using "1.prems" by (subst (asm) str_find.simps) (auto simp: occurs_iff split: if_splits)
  next
    case False
    then have "str_find pat s (Suc pos) = Some i"
      using "1.prems" by (subst (asm) str_find.simps) (simp add: occurs_iff)
    moreover have "\<not> prefix pat (drop j s)" if "pos \<le> j" "Suc pos \<le> j \<longrightarrow> \<not> prefix pat (drop j s)" for j
      using that False by (cases "j = pos") auto
    ultimately show ?thesis using "1.IH" False by (auto simp: occurs_iff)
  qed
qed

lemma str_find_None:
  "str_find pat s pos = None \<Longrightarrow> pos \<le> j \<Longrightarrow> j + length pat \<le> length s \<Longrightarrow> \<not> prefix pat (drop j s)"
proof (induction pat s pos rule: str_find.induct)
  case (1 pat s pos)
  have "\<not> length s < pos + length pat" using "1.prems" by simp
  moreover from this have "\<not> prefix pat (drop pos s)" "str_find pat s (Suc pos) = None"
    using "1.prems"(1) by (subst (asm) str_find.simps, auto simp: occurs_iff split: if_splits)+
  ultimately show ?case using "1.IH" "1.prems" by (cases "j = pos") (auto simp: occurs_iff)
qed

section \<open>Lines\<close>

lemma getlines_unlines:
  assumes "\<forall>l \<in> set ls. CHR 0x0A \<notin> set l"
  shows "getlines (concat (map (\<lambda>l. l @ [CHR 0x0A]) ls)) = ls"
  using assms
proof (induction ls)
  case Nil
  then show ?case by (simp add: getlines.simps)
next
  case (Cons l ls)
  have "takeWhile (\<lambda>c. c \<noteq> CHR 0x0A) (l @ CHR 0x0A # t) = l" "dropWhile (\<lambda>c. c \<noteq> CHR 0x0A) (l @ CHR 0x0A # t) = CHR 0x0A # t" for t
    using Cons.prems by (subst takeWhile_append2 dropWhile_append2, auto)+
  then show ?case using Cons by (subst getlines.simps) simp
qed

end
