(* ===== verification/Log_Common.thy ===== *)
theory Log_Common
  imports Std_String Server_Item
begin

text \<open>
  \<^verbatim>\<open>log/LogCommon.h\<close>, \<^verbatim>\<open>LogCommon.cpp\<close>, \<^verbatim>\<open>LoggerInfo.h\<close> and \<^verbatim>\<open>SinkInfo.h\<close>: severity levels and how they
  are printed and read, what is known of a logger, and the filters of a sink. A filter is a
  predicate on the attribute values of a record; \<^verbatim>\<open>expr::is_in_range\<close> of Boost.Log holds on a
  half-open interval and not when the attribute is missing.
\<close>

section \<open>Severity levels\<close>

datatype SeverityLevel = Info | Debug | Warn | Error | Fatal | Undefined

definition levels :: "SeverityLevel list" where
  "levels = [Info, Debug, Warn, Error, Fatal]"

fun level_value :: "SeverityLevel \<Rightarrow> nat" where
  "level_value Info = 0" | "level_value Debug = 1" | "level_value Warn = 2" | "level_value Error = 3"
| "level_value Fatal = 4" | "level_value Undefined = 5"

definition SeveyritString :: "string list" where
  "SeveyritString = [''INFO'', ''DEBUG'', ''WARN'', ''ERROR'', ''FATAL'']"

definition level_string :: "SeverityLevel \<Rightarrow> string" where
  "level_string level =
     (if level_value level < length SeveyritString then SeveyritString ! level_value level else [])"

text \<open>\<^verbatim>\<open>to_string\<close> never returns a null pointer, so that \<^verbatim>\<open>operator<<\<close> always takes its first branch.\<close>

definition put_level :: "string \<Rightarrow> SeverityLevel \<Rightarrow> string" where
  "put_level strm level = strm @ level_string level"

definition get_level :: "(int \<Rightarrow> string) \<Rightarrow> string \<Rightarrow> SeverityLevel \<times> string" where
  "get_level lexcast strm =
     (let (strLevel, strm) = read_word strm
      in case find (\<lambda>i. strLevel = SeveyritString ! i \<or> strLevel = lexcast (int i)) [0..<length SeveyritString] of
           None \<Rightarrow> (Undefined, strm)
         | Some i \<Rightarrow> (levels ! i, strm))"

section \<open>Records and filters\<close>

record attribute_values =
  LoggerId :: "u64 option"
  Severity :: "SeverityLevel option"

type_synonym log_filter = "attribute_values \<Rightarrow> bool"

definition is_in_range :: "u64 \<Rightarrow> u64 \<Rightarrow> log_filter" where
  "is_in_range lo hi values = (case LoggerId values of None \<Rightarrow> False | Some i \<Rightarrow> lo \<le> i \<and> i < hi)"

section \<open>Loggers\<close>

definition LEVEL_BITS :: nat where "LEVEL_BITS = 8"
definition MAX_LEVEL :: nat where "MAX_LEVEL = 8"

text \<open>\<open>Log\<close> is the constant attribute the logger was constructed with, once it was.\<close>

record logger_info =
  li_Id :: u64
  li_Level :: u8
  li_FileId :: u32
  li_Filter :: log_filter
  li_SinkNames :: string
  li_SinkInfos :: "ptr list"
  li_Log :: "u64 option"

definition LoggerInfo :: logger_info where
  "LoggerInfo = \<lparr>li_Id = 0, li_Level = 0, li_FileId = 0, li_Filter = (\<lambda>_. True), li_SinkNames = [],
     li_SinkInfos = [], li_Log = None\<rparr>"

text \<open>A shift by a negative or too large amount is undefined.\<close>

definition NextId :: "logger_info \<Rightarrow> u64 res" where
  "NextId info =
     (let shift = int LEVEL_BITS * (int MAX_LEVEL - uint (li_Level info) - 1)
      in if shift < 0 \<or> 64 \<le> shift then Inl OutOfBounds
         else Inr (li_Id info + push_bit (nat shift) 1))"

section \<open>Sinks\<close>

record sink_info =
  ReDirectFilter :: log_filter
  InitFilter :: log_filter
  Sink :: nat
  Name :: string

definition SinkInfo :: "string \<Rightarrow> nat \<Rightarrow> sink_info" where
  "SinkInfo name sin =
     \<lparr>ReDirectFilter = (\<lambda>values. False), InitFilter = (\<lambda>values. True), Sink = sin, Name = name\<rparr>"

definition AddFilter :: "log_filter \<Rightarrow> log_filter \<Rightarrow> sink_info \<Rightarrow> sink_info" where
  "AddFilter filt1 filt2 s =
     (let oldFilter = ReDirectFilter s
      in s\<lparr>ReDirectFilter := (\<lambda>values. filt1 values \<and> filt2 values \<or> oldFilter values)\<rparr>)"

definition FiltFun :: "sink_info \<Rightarrow> log_filter" where
  "FiltFun s values = (InitFilter s values \<and> ReDirectFilter s values)"

section \<open>Printing and reading a level\<close>

lemma read_word_letters:
  assumes "w \<noteq> []" "\<forall>c \<in> set w. \<not> white_space c" "tail = [] \<or> white_space (hd tail)"
  shows "read_word (w @ tail) = (w, tail)"
proof -
  have "dropWhile white_space (w @ tail) = w @ tail" using assms(1,2) by (cases w) auto
  moreover have "takeWhile (Not \<circ> white_space) (w @ tail) = w" "dropWhile (Not \<circ> white_space) (w @ tail) = tail"
    using assms(2,3) by (cases tail; auto simp: takeWhile_append dropWhile_append)+
  ultimately show ?thesis by (simp add: read_word_def)
qed

lemma decimal_small:
  "decimal 0 = ''0''" "decimal 1 = ''1''" "decimal 2 = ''2''" "decimal 3 = ''3''" "decimal 4 = ''4''"
  by (simp_all add: decimal_def decimal_nat.simps digit_char_def char_of_eq_iff)

lemma SeveyritString_upt: "[0..<length SeveyritString] = [0, 1, 2, 3, 4]"
  by (simp add: SeveyritString_def upt_rec)

text \<open>
  A level that is printed is read back, also from its number, and the stream is left
  behind the word; a level outside the enumeration prints nothing.
\<close>

theorem severity_roundtrip:
  assumes "decimal_cast lexcast" "level \<noteq> Undefined" "tail = [] \<or> white_space (hd tail)"
  shows "get_level lexcast (put_level [] level @ tail) = (level, tail) \<and>
    get_level lexcast (lexcast (int (level_value level)) @ tail) = (level, tail)"
proof -
  have lex: "lexcast = decimal" using assms(1) by (auto simp: decimal_cast_def)
  have "read_word (level_string level @ tail) = (level_string level, tail)"
    "read_word (decimal (int (level_value level)) @ tail) = (decimal (int (level_value level)), tail)"
    using assms(2,3)
    by (cases level; intro read_word_letters; simp add: level_string_def SeveyritString_def white_space_def decimal_small)+
  then show ?thesis
    unfolding get_level_def put_level_def lex SeveyritString_upt using assms(2)
    by (cases level) (simp_all add: level_string_def SeveyritString_def levels_def decimal_small)
qed

theorem severity_roundtrip_witness:
  "get_level decimal (put_level [] Warn @ '' x'') = (Warn, '' x'') \<and> get_level decimal (decimal (int 3) @ []) = (Error, [])"
  using severity_roundtrip [of decimal Warn "'' x''"] severity_roundtrip [of decimal Error "[]"]
  by (simp add: decimal_cast_def white_space_def)

end
