(* ===== verification/File_Handler.thy ===== *)
theory File_Handler
  imports Std_String
begin

text \<open>
  \<^verbatim>\<open>common/FileHandler.h\<close>, \<^verbatim>\<open>FileHandler.hpp\<close> and \<^verbatim>\<open>FileHandler.cpp\<close>: wildcards, searching a directory, and
  rewriting a file line by line. \<^verbatim>\<open>boost::replace_all\<close> and Boost.Xpressive are parameters: the
  hypotheses \<open>replaces_all\<close> and \<open>perl_regex\<close> state what their documentation says, \<open>subst_all\<close> and
  \<open>toy_xpressive\<close> satisfy them. A directory is the list of its entries in the order the iterator
  gives them.
\<close>

section \<open>Wildcards\<close>

record 'r xpressive =
  re_compile :: "string \<Rightarrow> 'r res"
  regex_search :: "string \<Rightarrow> 'r \<Rightarrow> bool"
  regex_replace :: "string \<Rightarrow> 'r \<Rightarrow> string \<Rightarrow> string"

abbreviation backslash :: char where "backslash \<equiv> CHR 0x5C"

definition regex_specials :: "char list" where
  "regex_specials = backslash # ''^.$|()[]*+?/''"

definition Wildcard2Regex ::
    "(string \<Rightarrow> string \<Rightarrow> string \<Rightarrow> string) \<Rightarrow> 'r xpressive \<Rightarrow> string \<Rightarrow> 'r res" where
  "Wildcard2Regex replace_all xp wildcardPattern =
     (let escaped = fold (\<lambda>c p. replace_all p [c] [backslash, c]) regex_specials wildcardPattern;
          p = replace_all escaped [backslash, CHR ''?''] ''.'';
          p = replace_all p [backslash, CHR ''*''] ''.*''
      in re_compile xp (p @ ''$''))"

section \<open>Directories\<close>

datatype entry = File | Special | Dir "(string \<times> entry) list"

fun is_directory :: "entry \<Rightarrow> bool" where
  "is_directory File = False"
| "is_directory Special = False"
| "is_directory (Dir es) = True"

fun subentries :: "entry \<Rightarrow> (string \<times> entry) list" where
  "subentries File = []"
| "subentries Special = []"
| "subentries (Dir es) = es"

text \<open>The path of an entry, \<^verbatim>\<open>dirPath / name\<close>.\<close>

definition join :: "string \<Rightarrow> string \<Rightarrow> string" where
  "join dirPath name =
     (if dirPath = [] \<or> last dirPath = CHR ''/'' then dirPath @ name else dirPath @ CHR ''/'' # name)"

lemma size_subentries:
  "size_list (size_prod (\<lambda>_. 0) size) (subentries e) \<le> size e"
  by (cases e) (auto simp: le_Suc_eq intro!: size_list_pointwise)

function FindFiles ::
    "(string \<Rightarrow> bool \<Rightarrow> bool) \<Rightarrow> string \<Rightarrow> (string \<times> entry) list \<Rightarrow> string list \<Rightarrow> string list" where
  "FindFiles filt dirPath [] out = out"
| "FindFiles filt dirPath ((name, e) # es) out =
     (let path = join dirPath name; isDir = is_directory e;
          out = (if filt path isDir
                 then (if isDir then FindFiles filt path (subentries e) (out @ [path]) else out @ [path])
                 else out)
      in FindFiles filt dirPath es out)"
  by pat_completeness auto
termination
  by (relation "measure (\<lambda>(filt, d, es, out). size_list (size_prod (\<lambda>_. 0) size) es)")
    (auto simp: less_Suc_eq_le intro!: le_SucI trans_le_add1 size_subentries)

definition FindFiles_regex ::
    "'r xpressive \<Rightarrow> string \<Rightarrow> (string \<times> entry) list \<Rightarrow> 'r \<Rightarrow> string list \<Rightarrow> string list" where
  "FindFiles_regex xp dirPath es pattern out =
     FindFiles (\<lambda>path isDir. isDir \<or> regex_search xp path pattern) dirPath es out"

definition FindFiles_pattern ::
    "'r xpressive \<Rightarrow> string \<Rightarrow> (string \<times> entry) list \<Rightarrow> string \<Rightarrow> string list \<Rightarrow> string list res" where
  "FindFiles_pattern xp dirPath es pattern out =
     andThen (re_compile xp pattern) (\<lambda>r. Inr (FindFiles_regex xp dirPath es r out))"

section \<open>Rewriting files\<close>

text \<open>\<^verbatim>\<open>SReplaceVisit\<close>; not returning is \<open>None\<close>.\<close>

partial_function (option) sreplace_loop ::
    "string \<Rightarrow> string \<Rightarrow> string \<Rightarrow> nat option \<Rightarrow> string option" where
  "sreplace_loop strFrom strTo strLine nIndex =
     (if nIndex = None then Some strLine
      else let strLine = str_replace (the nIndex) (length strFrom) strTo strLine
           in sreplace_loop strFrom strTo strLine (str_find strFrom strLine (the nIndex + length strTo)))"

definition SReplaceVisit :: "string \<Rightarrow> string \<Rightarrow> string \<Rightarrow> string res" where
  "SReplaceVisit strFrom strTo strLine =
     (case sreplace_loop strFrom strTo strLine (str_find strFrom strLine 0) of
        None \<Rightarrow> Inl Diverges | Some l \<Rightarrow> Inr l)"

definition ReplaceVisit :: "'r xpressive \<Rightarrow> 'r \<Rightarrow> string \<Rightarrow> string \<Rightarrow> string res" where
  "ReplaceVisit xp regFrom strTo strLine = Inr (regex_replace xp strLine regFrom strTo)"

text \<open>Files with their contents, and which paths can be opened, created and removed.\<close>

record file_system =
  fs_files :: "string \<Rightarrow> string option"
  fs_openable :: "string \<Rightarrow> bool"
  fs_creatable :: "string \<Rightarrow> bool"
  fs_removable :: "string \<Rightarrow> bool"

fun visit_lines :: "(string \<Rightarrow> string res) \<Rightarrow> string list \<Rightarrow> string res" where
  "visit_lines visit [] = Inr []"
| "visit_lines visit (l # ls) =
     andThen (visit l) (\<lambda>l. andThen (visit_lines visit ls) (\<lambda>out. Inr (l @ CHR 0x0A # out)))"

text \<open>
  A stream that could not be opened swallows what is written. \<^verbatim>\<open>remove\<close> and \<^verbatim>\<open>rename\<close> throw when they
  fail, \<^verbatim>\<open>rename\<close> when there is no file to rename.
\<close>

definition TraverseFile ::
    "string \<Rightarrow> (string \<Rightarrow> string res) \<Rightarrow> file_system \<Rightarrow> unit res \<times> file_system" where
  "TraverseFile filePath visit fs =
     (let pathTemp = filePath @ ''temp~''
      in case (fs_files fs filePath, fs_openable fs filePath) of
        (Some contents, True) \<Rightarrow>
          (let fs = (if fs_creatable fs pathTemp then fs\<lparr>fs_files := (fs_files fs)(pathTemp \<mapsto> [])\<rparr> else fs)
           in case visit_lines visit (getlines contents) of
             Inl e \<Rightarrow> (Inl e, fs)
           | Inr out \<Rightarrow>
               (let fs = (if fs_creatable fs pathTemp then fs\<lparr>fs_files := (fs_files fs)(pathTemp \<mapsto> out)\<rparr> else fs)
                in if \<not> fs_removable fs filePath then (Inl (Throws ''filesystem_error''), fs)
                   else (let fs = fs\<lparr>fs_files := (fs_files fs)(filePath := None)\<rparr>
                         in case fs_files fs pathTemp of
                              None \<Rightarrow> (Inl (Throws ''filesystem_error''), fs)
                            | Some t \<Rightarrow>
                                (Inr (), fs\<lparr>fs_files := (fs_files fs)(pathTemp := None, filePath \<mapsto> t)\<rparr>))))
      | _ \<Rightarrow> (Inl (Throws (''can not open file '' @ filePath)), fs))"

definition FindAndReplace :: "string \<Rightarrow> string \<Rightarrow> string \<Rightarrow> file_system \<Rightarrow> unit res \<times> file_system" where
  "FindAndReplace filePath strFrom strTo fs = TraverseFile filePath (SReplaceVisit strFrom strTo) fs"

definition FindAndReplace_regex ::
    "'r xpressive \<Rightarrow> string \<Rightarrow> 'r \<Rightarrow> string \<Rightarrow> file_system \<Rightarrow> unit res \<times> file_system" where
  "FindAndReplace_regex xp filePath regFrom strTo fs = TraverseFile filePath (ReplaceVisit xp regFrom strTo) fs"

section \<open>Replacing in a line\<close>

lemma sreplace_loop_subst:
  assumes "strFrom \<noteq> []"
  shows "sreplace_loop strFrom strTo (d @ s) (str_find strFrom (d @ s) (length d)) =
    Some (d @ subst_all strFrom strTo s)"
proof (induction "length s" arbitrary: d s rule: less_induct)
  case less
  show ?case
  proof (cases "str_find strFrom (d @ s) (length d)")
    case None
    have "\<not> prefix strFrom (drop j s)" if "j < length s" for j
    proof
      assume p: "prefix strFrom (drop j s)"
      then have "length d + j + length strFrom \<le> length (d @ s)"
        using prefix_length_le [OF p] that by simp
      then show False using str_find_None [OF None, of "length d + j"] p by simp
    qed
    then show ?thesis using None by (simp add: sreplace_loop.simps subst_all_absent)
  next
    case (Some i)
    note f = str_find_Some [OF Some]
    define a where "a = take (i - length d) s"
    from f obtain t where t: "drop i (d @ s) = strFrom @ t" by (auto simp: prefix_def)
    have len: "length a = i - length d" using f unfolding a_def by auto
    have s: "s = a @ strFrom @ t"
      using t f unfolding a_def by (metis append_take_drop_id drop_all drop_append append_Nil)
    have "\<not> prefix strFrom (drop j (a @ strFrom @ t))" if "j < length a" for j
      using f that len s by (auto dest: spec [of _ "length d + j"])
    then have "subst_all strFrom strTo s = a @ strTo @ subst_all strFrom strTo t"
      unfolding s by (intro subst_all_first assms) simp
    moreover have "str_replace i (length strFrom) strTo (d @ s) = (d @ a @ strTo) @ t"
      using f len s by (simp add: str_replace_def)
    moreover have "i + length strTo = length (d @ a @ strTo)" using f len by simp
    moreover have "sreplace_loop strFrom strTo ((d @ a @ strTo) @ t)
        (str_find strFrom ((d @ a @ strTo) @ t) (length (d @ a @ strTo))) =
        Some ((d @ a @ strTo) @ subst_all strFrom strTo t)"
      by (rule less.hyps) (use assms s in simp)
    ultimately show ?thesis using Some by (subst sreplace_loop.simps) (simp add: Let_def add.assoc)
  qed
qed

lemma sreplace_loop_empty: "i \<le> length l \<Longrightarrow> sreplace_loop [] strTo l (Some i) = None"
proof (rule ccontr)
  assume i: "i \<le> length l" and "sreplace_loop [] strTo l (Some i) \<noteq> None"
  then obtain r where "sreplace_loop [] strTo l (Some i) = Some r" by blast
  then have "[] = ([] :: string) \<longrightarrow> \<not> (\<exists>j. Some i = Some j \<and> j \<le> length l)"
  proof (rule sreplace_loop.raw_induct
      [where P = "\<lambda>strFrom strTo l n r. strFrom = [] \<longrightarrow> \<not> (\<exists>j. n = Some j \<and> j \<le> length l)", rotated])
    fix f strFrom strTo l n r
    assume IH: "\<And>strFrom strTo l n r. f strFrom strTo l n = Some r \<Longrightarrow>
        strFrom = [] \<longrightarrow> \<not> (\<exists>j. n = Some j \<and> j \<le> length l)"
      and step: "(if n = None then Some l
        else let l = str_replace (the n) (length strFrom) strTo l
             in f strFrom strTo l (str_find strFrom l (the n + length strTo))) = Some r"
    show "strFrom = [] \<longrightarrow> \<not> (\<exists>j. n = Some j \<and> j \<le> length l)"
    proof (intro impI notI)
      assume "strFrom = []" "\<exists>j. n = Some j \<and> j \<le> length l"
      then obtain j where j: "strFrom = []" "n = Some j" "j \<le> length l" by blast
      let ?l = "str_replace j 0 strTo l"
      have "j + length strTo \<le> length ?l" using j(3) by (simp add: str_replace_def)
      moreover from this have "str_find [] ?l (j + length strTo) = Some (j + length strTo)"
        by (subst str_find.simps) simp
      ultimately show False using IH [of "[]" strTo ?l] step j by (simp add: Let_def)
    qed
  qed
  then show False using i by simp
qed

lemma SReplaceVisit_subst:
  "SReplaceVisit strFrom strTo strLine =
     (if strFrom = [] then Inl Diverges else Inr (subst_all strFrom strTo strLine))"
proof (cases "strFrom = []")
  case True
  then have "str_find strFrom strLine 0 = Some 0" by (subst str_find.simps) simp
  then show ?thesis using True sreplace_loop_empty [of 0 strLine strTo] by (simp add: SReplaceVisit_def)
next
  case False
  then show ?thesis
    using sreplace_loop_subst [OF False, of strTo "[]" strLine] by (simp add: SReplaceVisit_def)
qed

text \<open>
  C38 Replacing in a line: for a string that is not empty the loop ends with every occurrence
  replaced from the left, also where the replacement contains the string; for the empty string it
  never ends.
\<close>

theorem sreplace_replaces_all:
  "SReplaceVisit strFrom strTo strLine =
     (if strFrom = [] then Inl Diverges else Inr (subst_all strFrom strTo strLine))"
  by (rule SReplaceVisit_subst)

section \<open>Wildcards as regular expressions\<close>

datatype wild = Lit char | AnyChar | AnyString

definition wildcard :: "string \<Rightarrow> wild list" where
  "wildcard = map (\<lambda>c. if c = CHR ''?'' then AnyChar else if c = CHR ''*'' then AnyString else Lit c)"

function glob :: "wild list \<Rightarrow> string \<Rightarrow> bool" where
  "glob [] s = (s = [])"
| "glob (Lit c # ts) s = (s \<noteq> [] \<and> hd s = c \<and> glob ts (tl s))"
| "glob (AnyChar # ts) s = (s \<noteq> [] \<and> glob ts (tl s))"
| "glob (AnyString # ts) s = (glob ts s \<or> (if s = [] then False else glob (AnyString # ts) (tl s)))"
  by pat_completeness auto
termination by (relation "measures [\<lambda>(ts, s). length ts, \<lambda>(ts, s). length s]") auto

fun regex_text :: "wild \<Rightarrow> string" where
  "regex_text (Lit c) = (if c \<in> set regex_specials then [backslash, c] else [c])"
| "regex_text AnyChar = ''.''"
| "regex_text AnyString = ''.*''"

text \<open>What the documentation of the two libraries says of the calls made here.\<close>

definition replaces_all :: "(string \<Rightarrow> string \<Rightarrow> string \<Rightarrow> string) \<Rightarrow> bool" where
  "replaces_all replace_all \<longleftrightarrow> (\<forall>s pat to. pat \<noteq> [] \<longrightarrow> replace_all s pat to = subst_all pat to s)"

definition perl_regex :: "'r xpressive \<Rightarrow> bool" where
  "perl_regex xp \<longleftrightarrow>
     (\<forall>ts. Lit (CHR ''{'') \<notin> set ts \<and> Lit (CHR ''}'') \<notin> set ts \<longrightarrow>
       (\<exists>r. re_compile xp (concat (map regex_text ts) @ ''$'') = Inr r \<and>
         (\<forall>path. CHR 0x0A \<notin> set path \<longrightarrow>
           regex_search xp path r = (\<exists>tail. suffix tail path \<and> glob ts tail))))"

lemma concat_map_concat_map: "concat (map g (concat (map f s))) = concat (map (\<lambda>x. concat (map g (f x))) s)"
  by (induction s) simp_all

text \<open>Escaping one character after the other escapes every special character once.\<close>

lemma escape_each:
  assumes "distinct cs" "backslash \<notin> set cs"
  shows "fold (\<lambda>c p. subst_all [c] [backslash, c] p) cs (concat (map f s)) =
    concat (map (\<lambda>x. concat (map (\<lambda>y. if y \<in> set cs then [backslash, y] else [y]) (f x))) s)"
  using assms
proof (induction cs arbitrary: f)
  case Nil
  have "concat (map (\<lambda>y. [y]) l) = l" for l :: string by (induction l) simp_all
  then show ?case by simp
next
  case (Cons c cs)
  have "concat (map (\<lambda>y. if y \<in> set cs then [backslash, y] else [y])
      (concat (map (\<lambda>y. if y = c then [backslash, c] else [y]) l))) =
    concat (map (\<lambda>y. if y \<in> set (c # cs) then [backslash, y] else [y]) l)" for l
    using Cons.prems by (induction l) auto
  then show ?case using Cons by (simp add: subst_all_char concat_map_concat_map)
qed

lemma escape_specials:
  "fold (\<lambda>c p. subst_all [c] [backslash, c] p) regex_specials s =
     concat (map (\<lambda>x. if x \<in> set regex_specials then [backslash, x] else [x]) s)"
proof -
  let ?cs = "''^.$|()[]*+?/''"
  have cs: "distinct ?cs" "backslash \<notin> set ?cs" by simp_all
  have "concat (map (\<lambda>y. if y \<in> set ?cs then [backslash, y] else [y])
      (if x = backslash then [backslash, backslash] else [x])) =
      (if x \<in> set regex_specials then [backslash, x] else [x])" for x
    using cs(2) by (auto simp: regex_specials_def)
  then show ?thesis
    using escape_each [OF cs, of "\<lambda>x. if x = backslash then [backslash, backslash] else [x]" s]
    by (simp add: regex_specials_def subst_all_char)
qed

text \<open>An escaped character is replaced as a unit: a backslash never belongs to the next one.\<close>

lemma subst_escaped:
  assumes "c \<noteq> backslash"
    and tok: "\<And>x. (\<exists>a. f x = [a] \<and> a \<noteq> backslash \<and> a \<noteq> c) \<or> (\<exists>b. f x = [backslash, b])"
  shows "subst_all [backslash, c] to (concat (map f s)) =
    concat (map (\<lambda>x. if f x = [backslash, c] then to else f x) s)"
proof (induction s)
  case (Cons x s)
  have start: "concat (map f s) \<noteq> c # t" for t
    by (cases s) (use tok [of "hd s"] assms(1) in auto)
  show ?case
  proof (cases "\<exists>a. f x = [a] \<and> a \<noteq> backslash \<and> a \<noteq> c")
    case True
    then show ?thesis using Cons by (auto simp: subst_all_skip)
  next
    case False
    then obtain b where b: "f x = [backslash, b]" using tok by blast
    show ?thesis
    proof (cases "b = c")
      case True
      then show ?thesis using Cons b subst_all_hit [of "[backslash, c]" to "concat (map f s)"] by simp
    next
      case False
      moreover have "\<not> prefix [backslash, c] (b # concat (map f s))"
        using start by (auto simp: prefix_def)
      ultimately show ?thesis using Cons b by (simp add: subst_all_skip)
    qed
  qed
qed simp

lemma wildcard_text:
  assumes "replaces_all replace_all"
  shows "Wildcard2Regex replace_all xp ws = re_compile xp (concat (map regex_text (wildcard ws)) @ ''$'')"
proof -
  let ?e1 = "\<lambda>x. if x \<in> set regex_specials then [backslash, x] else [x]"
  let ?e2 = "\<lambda>x. if ?e1 x = [backslash, CHR ''?''] then ''.'' else ?e1 x"
  have bs: "backslash \<in> set regex_specials" "CHR ''?'' \<in> set regex_specials" "CHR ''*'' \<in> set regex_specials"
    by (simp_all add: regex_specials_def)
  have "fold (\<lambda>c p. replace_all p [c] [backslash, c]) regex_specials ws = concat (map ?e1 ws)"
    using assms by (simp add: replaces_all_def escape_specials)
  moreover have "replace_all (concat (map ?e1 ws)) [backslash, CHR ''?''] ''.'' = concat (map ?e2 ws)"
    using assms bs by (subst subst_escaped [of "CHR ''?''" ?e1 "''.''" ws, symmetric]) (auto simp: replaces_all_def)
  moreover have "replace_all (concat (map ?e2 ws)) [backslash, CHR ''*''] ''.*'' =
      concat (map (\<lambda>x. if ?e2 x = [backslash, CHR ''*''] then ''.*'' else ?e2 x) ws)"
    using assms bs by (subst subst_escaped [of "CHR ''*''" ?e2 "''.*''" ws, symmetric]) (auto simp: replaces_all_def)
  moreover have "(if ?e2 x = [backslash, CHR ''*''] then ''.*'' else ?e2 x) =
      regex_text (if x = CHR ''?'' then AnyChar else if x = CHR ''*'' then AnyString else Lit x)" for x
    using bs by auto
  ultimately show ?thesis by (simp add: Wildcard2Regex_def wildcard_def Let_def comp_def)
qed

lemma wildcard_search:
  assumes "replaces_all replace_all" "perl_regex xp" "CHR ''{'' \<notin> set ws" "CHR ''}'' \<notin> set ws"
  shows "\<exists>r. Wildcard2Regex replace_all xp ws = Inr r \<and>
    (\<forall>path. CHR 0x0A \<notin> set path \<longrightarrow>
      regex_search xp path r = (\<exists>tail. suffix tail path \<and> glob (wildcard ws) tail))"
proof -
  have "Lit (CHR ''{'') \<notin> set (wildcard ws)" "Lit (CHR ''}'') \<notin> set (wildcard ws)"
    using assms(3,4) by (auto simp: wildcard_def split: if_splits)
  then show ?thesis using assms(2) unfolding wildcard_text [OF assms(1)] perl_regex_def by blast
qed

text \<open>
  C37 A wildcard without braces becomes a regular expression that accepts exactly the paths with
  a tail the wildcard matches, where \<^verbatim>\<open>?\<close> stands for one character, \<^verbatim>\<open>*\<close> for any number and
  every other character for itself.
\<close>

theorem wildcard_accepts:
  assumes "replaces_all replace_all" "perl_regex xp" "CHR ''{'' \<notin> set ws" "CHR ''}'' \<notin> set ws"
  shows "\<exists>r. Wildcard2Regex replace_all xp ws = Inr r \<and>
    (\<forall>path. CHR 0x0A \<notin> set path \<longrightarrow>
      regex_search xp path r = (\<exists>tail. suffix tail path \<and> glob (wildcard ws) tail))"
  using assms by (rule wildcard_search)

text \<open>An implementation of the fragment, for which the hypotheses hold.\<close>

function parse_regex :: "string \<Rightarrow> wild list option" where
  "parse_regex s =
     (if s = [] then None
      else if hd s = CHR ''$'' then (if tl s = [] then Some [] else None)
      else if hd s = backslash then
        (if tl s = [] then None else map_option (Cons (Lit (hd (tl s)))) (parse_regex (tl (tl s))))
      else if hd s = CHR ''.'' then
        (if tl s \<noteq> [] \<and> hd (tl s) = CHR ''*'' then map_option (Cons AnyString) (parse_regex (tl (tl s)))
         else map_option (Cons AnyChar) (parse_regex (tl s)))
      else map_option (Cons (Lit (hd s))) (parse_regex (tl s)))"
  by pat_completeness auto
termination by (relation "measure length") (auto simp: neq_Nil_conv)

declare parse_regex.simps [simp del]

definition toy_xpressive :: "wild list xpressive" where
  "toy_xpressive =
     \<lparr>re_compile = (\<lambda>s. case parse_regex s of None \<Rightarrow> Inl (Throws ''regex_error'') | Some ts \<Rightarrow> Inr ts),
      regex_search = (\<lambda>path ts. list_ex (glob ts) (suffixes path)),
      regex_replace = (\<lambda>s ts to. s)\<rparr>"

lemma parse_regex_text: "parse_regex (concat (map regex_text ts) @ ''$'') = Some ts"
proof (induction ts)
  case Nil
  then show ?case by (simp add: parse_regex.simps)
next
  case (Cons t ts)
  have "hd (concat (map regex_text ts) @ ''$'') \<noteq> CHR ''*''" "concat (map regex_text ts) @ ''$'' \<noteq> []"
    by (cases ts; cases "hd ts"; simp add: regex_specials_def)+
  moreover have "CHR ''.'' \<in> set regex_specials" "CHR ''$'' \<in> set regex_specials" "backslash \<in> set regex_specials"
    by (simp_all add: regex_specials_def)
  ultimately show ?case using Cons by (cases t; subst parse_regex.simps) auto
qed

lemma toy_perl_regex: "perl_regex toy_xpressive"
  by (auto simp: perl_regex_def toy_xpressive_def parse_regex_text list_ex_iff)

lemma subst_all_replaces_all: "replaces_all (\<lambda>s pat to. subst_all pat to s)"
  by (simp add: replaces_all_def)

theorem wildcard_accepts_witness:
  "\<exists>r. Wildcard2Regex (\<lambda>s pat to. subst_all pat to s) toy_xpressive ''*_log.c?nf'' = Inr r \<and>
    regex_search toy_xpressive ''conf/a_log.conf'' r \<and> \<not> regex_search toy_xpressive ''conf/a.conf'' r"
proof -
  have "list_ex (glob (wildcard ''*_log.c?nf'')) (suffixes ''conf/a_log.conf'')"
    "\<not> list_ex (glob (wildcard ''*_log.c?nf'')) (suffixes ''conf/a.conf'')" by code_simp+
  then have "\<exists>tail. suffix tail ''conf/a_log.conf'' \<and> glob (wildcard ''*_log.c?nf'') tail"
    "\<not> (\<exists>tail. suffix tail ''conf/a.conf'' \<and> glob (wildcard ''*_log.c?nf'') tail)"
    by (auto simp: list_ex_iff simp del: suffixes.simps)
  then show ?thesis
    using wildcard_accepts [OF subst_all_replaces_all toy_perl_regex, of "''*_log.c?nf''"] by auto
qed

section \<open>Searching a directory\<close>

text \<open>Everything below a directory, a directory before what it holds.\<close>

function tree_entries :: "string \<Rightarrow> (string \<times> entry) list \<Rightarrow> (string \<times> bool) list" where
  "tree_entries dirPath [] = []"
| "tree_entries dirPath ((name, e) # es) =
     (join dirPath name, is_directory e) # tree_entries (join dirPath name) (subentries e) @ tree_entries dirPath es"
  by pat_completeness auto
termination
  by (relation "measure (\<lambda>(d, es). size_list (size_prod (\<lambda>_. 0) size) es)")
    (auto simp: less_Suc_eq_le intro!: le_SucI trans_le_add1 size_subentries)

lemma FindFiles_filter:
  assumes "\<And>p. filt p True"
  shows "FindFiles filt dirPath es out = out @ map fst (filter (\<lambda>(p, d). filt p d) (tree_entries dirPath es))"
proof (induction dirPath es arbitrary: out rule: tree_entries.induct)
  case (2 dirPath name e es)
  then show ?case using assms by (cases e) (simp_all add: Let_def)
qed simp

text \<open>
  Searching a directory with a pattern gives every directory below it, whether it matches or
  not, and every file whose path the pattern accepts, in the order of a walk from the top.
\<close>

theorem find_files_pattern:
  "FindFiles_regex xp dirPath es pattern out =
     out @ map fst (filter (\<lambda>(path, isDir). isDir \<or> regex_search xp path pattern) (tree_entries dirPath es))"
  unfolding FindFiles_regex_def by (rule FindFiles_filter) simp

section \<open>Rewriting a file\<close>

text \<open>What \<^verbatim>\<open>TraverseFile\<close> asks of a visitor, and what it does with one.\<close>

locale line_visitor =
  fixes visit :: "string \<Rightarrow> string res" and change :: "string \<Rightarrow> string"
  assumes visit_line: "visit l = Inr (change l)"
begin

lemma visit_lines_change: "visit_lines visit ls = Inr (concat (map (\<lambda>l. change l @ [CHR 0x0A]) ls))"
  by (induction ls) (simp_all add: visit_line)

lemma traverse_rewrites:
  assumes "fs_files fs filePath = Some contents" "fs_openable fs filePath"
    and "fs_creatable fs (filePath @ ''temp~'')" "fs_removable fs filePath"
  shows "TraverseFile filePath visit fs =
    (Inr (), fs\<lparr>fs_files := (fs_files fs)
      (filePath @ ''temp~'' := None, filePath \<mapsto> concat (map (\<lambda>l. change l @ [CHR 0x0A]) (getlines contents)))\<rparr>)"
  using assms by (simp add: TraverseFile_def Let_def fun_upd_twist visit_lines_change)

lemma traverse_loses:
  assumes "fs_files fs filePath = Some contents" "fs_openable fs filePath" "fs_removable fs filePath"
    and "\<not> fs_creatable fs (filePath @ ''temp~'')" "fs_files fs (filePath @ ''temp~'') = None"
  shows "TraverseFile filePath visit fs =
    (Inl (Throws ''filesystem_error''), fs\<lparr>fs_files := (fs_files fs)(filePath := None)\<rparr>)"
  using assms by (simp add: TraverseFile_def Let_def visit_lines_change)

end

interpretation sreplace: line_visitor "SReplaceVisit (c # cs) strTo" "subst_all (c # cs) strTo" for c cs strTo
  by unfold_locales (simp add: SReplaceVisit_subst)

interpretation rreplace: line_visitor "ReplaceVisit xp regFrom strTo" "\<lambda>l. regex_replace xp l regFrom strTo"
  for xp regFrom strTo
  by unfold_locales (simp add: ReplaceVisit_def)

text \<open>
  C39 \<^verbatim>\<open>FindAndReplace\<close> on a file it can open, with the temporary file beside it writable: every
  occurrence in every line is replaced, every line ends in a newline, the temporary file is
  gone, and no other file changes.
\<close>

theorem find_and_replace_file:
  assumes "fs_files fs filePath = Some contents" "fs_openable fs filePath"
    and "fs_creatable fs (filePath @ ''temp~'')" "fs_removable fs filePath" "strFrom \<noteq> []"
  shows "FindAndReplace filePath strFrom strTo fs =
    (Inr (), fs\<lparr>fs_files := (fs_files fs)
      (filePath @ ''temp~'' := None,
       filePath \<mapsto> concat (map (\<lambda>l. subst_all strFrom strTo l @ [CHR 0x0A]) (getlines contents)))\<rparr>)"
  using sreplace.traverse_rewrites [OF assms(1-4), of "hd strFrom" "tl strFrom" strTo] assms(5)
  by (simp add: FindAndReplace_def)

theorem find_and_replace_file_witness:
  "FindAndReplace ''a.txt'' ''x'' ''xy'' \<lparr>fs_files = [''a.txt'' \<mapsto> ''axbx''], fs_openable = (\<lambda>_. True),
      fs_creatable = (\<lambda>_. True), fs_removable = (\<lambda>_. True)\<rparr> =
    (Inr (), \<lparr>fs_files = [''a.txt'' \<mapsto> ''axybxy'' @ [CHR 0x0A]], fs_openable = (\<lambda>_. True),
      fs_creatable = (\<lambda>_. True), fs_removable = (\<lambda>_. True)\<rparr>)"
proof -
  have "getlines ''axbx'' = [''axbx'']" "subst_all ''x'' ''xy'' ''axbx'' = ''axybxy''" by code_simp+
  then show ?thesis
    using find_and_replace_file [of "\<lparr>fs_files = [''a.txt'' \<mapsto> ''axbx''], fs_openable = (\<lambda>_. True),
        fs_creatable = (\<lambda>_. True), fs_removable = (\<lambda>_. True)\<rparr>" "''a.txt''" "''axbx''" "''x''" "''xy''"]
    by (simp add: fun_upd_idem)
qed

text \<open>
  When the temporary file cannot be created, what would have been written is lost, and the
  original is removed before the rename fails; this holds for both kinds of replacement.
\<close>

theorem find_and_replace_loses_file:
  assumes "fs_files fs filePath = Some contents" "fs_openable fs filePath" "fs_removable fs filePath"
    and "\<not> fs_creatable fs (filePath @ ''temp~'')" "fs_files fs (filePath @ ''temp~'') = None"
  shows "FindAndReplace filePath (c # cs) strTo fs =
      (Inl (Throws ''filesystem_error''), fs\<lparr>fs_files := (fs_files fs)(filePath := None)\<rparr>)"
    and "FindAndReplace_regex xp filePath regFrom strTo fs =
      (Inl (Throws ''filesystem_error''), fs\<lparr>fs_files := (fs_files fs)(filePath := None)\<rparr>)"
  using sreplace.traverse_loses [OF assms] rreplace.traverse_loses [OF assms]
  by (simp_all add: FindAndReplace_def FindAndReplace_regex_def)

end
