(* ===== verification/Log_Manager.thy ===== *)
theory Log_Manager
  imports Log_Common File_Handler "HOL-Library.AList"
begin

text \<open>
  \<^verbatim>\<open>log/LogManager.h\<close> and \<^verbatim>\<open>LogManager.cpp\<close>: loading loggers and sinks from settings, the identifiers of
  loggers, and looking a logger up. The tree \<open>settings_section\<close> is what \<^verbatim>\<open>logging::parse_settings\<close> gives, whose
  section names have no dots. Boost.Log is the parameter \<open>boost_log\<close>: parsing of settings and
  filters, construction of a sink, and \<^verbatim>\<open>boost::split\<close> at commas. Loggers and sinks live in heaps, their
  pointers are addresses. The mutex is not modelled: operations are atomic.
\<close>

section \<open>Settings\<close>

datatype settings_section = Section string "(string \<times> settings_section) list"

primrec children :: "settings_section \<Rightarrow> (string \<times> settings_section) list" where
  "children (Section d cs) = cs"

primrec data :: "settings_section \<Rightarrow> string" where
  "data (Section d cs) = d"

definition sec_count :: "string \<Rightarrow> settings_section \<Rightarrow> nat" where
  "sec_count name sec = length (filter (\<lambda>(n, s). n = name) (children sec))"

definition sec_empty :: "settings_section \<Rightarrow> bool" where
  "sec_empty sec = (children sec = [])"

definition sec_sub :: "settings_section \<Rightarrow> string \<Rightarrow> settings_section option" where
  "sec_sub sec name = map_of (children sec) name"

definition sec_get :: "settings_section \<Rightarrow> string \<Rightarrow> string option" where
  "sec_get sec name = map_option data (sec_sub sec name)"

lemma sec_sub_size: "sec_sub sec name = Some s \<Longrightarrow> size s < size sec"
proof (cases sec)
  case (Section d cs)
  assume "sec_sub sec name = Some s"
  then have "(name, s) \<in> set cs" by (simp add: sec_sub_def Section map_of_SomeD)
  then have "size s < size_list (size_prod (\<lambda>_. 0) size) cs"
    by (induction cs) auto
  then show ?thesis by (simp add: Section)
qed

record boost_log =
  parse_settings :: "string \<Rightarrow> settings_section res"
  parse_filter :: "string \<Rightarrow> log_filter res"
  construct_sink_from_settings :: "settings_section \<Rightarrow> nat res"
  split_commas :: "string \<Rightarrow> string list"

section \<open>State\<close>

record log_manager =
  mLoggerInfos :: "(string \<times> ptr) list"
  mSinks :: "(string \<times> ptr) list"
  mIdMap :: "(string \<times> u64) list"
  infos :: "ptr \<Rightarrow> logger_info"
  sinks :: "ptr \<Rightarrow> sink_info"
  next_ptr :: ptr
  mIds :: "u32 list"
  mIdMultiple :: "u64 list"
  mFileId :: u32
  mRootInfo :: "ptr option"
  core_sinks :: "nat list"
  core_params :: "settings_section list"

text \<open>The loop of the constructor, over \<open>i\<close>, with the running \<^verbatim>\<open>multiple\<close>.\<close>

definition init_ids :: "u32 list \<times> u64 list \<times> u64" where
  "init_ids = fold (\<lambda>i (ids, multiples, multiple).
       (ids[i := 1], multiples[MAX_LEVEL - i - 1 := multiple], multiple * push_bit LEVEL_BITS 1))
     [0..<MAX_LEVEL] (replicate MAX_LEVEL 0, replicate MAX_LEVEL 0, 1)"

definition LogManager :: "(ptr \<Rightarrow> logger_info) \<Rightarrow> (ptr \<Rightarrow> sink_info) \<Rightarrow> log_manager" where
  "LogManager li si =
     \<lparr>mLoggerInfos = [], mSinks = [], mIdMap = [], infos = li, sinks = si, next_ptr = 0,
      mIds = fst init_ids, mIdMultiple = fst (snd init_ids), mFileId = 0, mRootInfo = None,
      core_sinks = [], core_params = []\<rparr>"

definition unordered_insert :: "'k \<Rightarrow> 'v \<Rightarrow> ('k \<times> 'v) list \<Rightarrow> ('k \<times> 'v) list" where
  "unordered_insert k v m = (if map_of m k = None then m @ [(k, v)] else m)"

definition set_info :: "ptr \<Rightarrow> logger_info \<Rightarrow> log_manager \<Rightarrow> log_manager" where
  "set_info p info m = m\<lparr>infos := (infos m)(p := info)\<rparr>"

definition RootInfo :: "log_manager \<Rightarrow> ptr \<times> log_manager" where
  "RootInfo m =
     (case mRootInfo m of
        Some p \<Rightarrow> (p, m)
      | None \<Rightarrow> (let p = next_ptr m
                 in (p, set_info p (LoggerInfo\<lparr>li_Id := 0, li_Level := 0, li_Log := None\<rparr>)
                          (m\<lparr>next_ptr := Suc p, mRootInfo := Some p\<rparr>))))"

definition GetId :: "string \<Rightarrow> u8 \<Rightarrow> u64 \<Rightarrow> log_manager \<Rightarrow> (u64 \<times> log_manager) res" where
  "GetId name level parentId m =
     (case map_of (mIdMap m) name of
        Some i \<Rightarrow> Inr (i, m)
      | None \<Rightarrow>
          if length (mIds m) \<le> unat level then Inl OutOfBounds
          else let i = ucast (mIds m ! unat level);
                   i = i * mIdMultiple m ! unat level + parentId
               in Inr (i, m\<lparr>mIds := (mIds m)[unat level := mIds m ! unat level + 1],
                            mIdMap := mIdMap m @ [(name, i)]\<rparr>))"

section \<open>Loading\<close>

definition add_sink :: "(int \<Rightarrow> string) \<Rightarrow> boost_log \<Rightarrow> settings_section \<Rightarrow> string \<Rightarrow> log_manager \<Rightarrow> log_manager res" where
  "add_sink lexcast lib sinkSec strName m =
     (if map_of (mSinks m) strName \<noteq> None
      then Inl (Throws (''Double initialize '' @ strName @ '' doesn't allowed.''))
      else let name = strName @ lexcast (uint (mFileId m))
      in andThen (construct_sink_from_settings lib sinkSec) (\<lambda>pSink.
         let p = next_ptr m; s = SinkInfo name pSink
         in andThen (case sec_get sinkSec ''Filter'' of
                       None \<Rightarrow> Inr s
                     | Some f \<Rightarrow> andThen (parse_filter lib f) (\<lambda>filt. Inr (s\<lparr>InitFilter := filt\<rparr>)))
            (\<lambda>s. Inr (m\<lparr>sinks := (sinks m)(p := s), next_ptr := Suc p,
                         mSinks := unordered_insert name p (mSinks m)\<rparr>))))"

function LoadSink :: "(int \<Rightarrow> string) \<Rightarrow> boost_log \<Rightarrow> settings_section \<Rightarrow> string \<Rightarrow> log_manager \<Rightarrow> log_manager res"
  and LoadSinks :: "(int \<Rightarrow> string) \<Rightarrow> boost_log \<Rightarrow> settings_section \<Rightarrow> string \<Rightarrow> (string \<times> settings_section) list
    \<Rightarrow> log_manager \<Rightarrow> log_manager res" where
  "LoadSink lexcast lib sinkSec strName m =
     (if sec_count ''Destination'' sinkSec = 1 then add_sink lexcast lib sinkSec strName m
      else LoadSinks lexcast lib sinkSec (if strName \<noteq> [] then strName @ ''.'' else strName)
             (children sinkSec) m)"
| "LoadSinks lexcast lib sinkSec childName [] m = Inr m"
| "LoadSinks lexcast lib sinkSec childName ((name, childSec) # its) m =
     (case sec_sub sinkSec name of
        Some childRef \<Rightarrow>
          if \<not> sec_empty childSec
          then andThen (LoadSink lexcast lib childRef (childName @ name) m)
                 (\<lambda>m. LoadSinks lexcast lib sinkSec childName its m)
          else LoadSinks lexcast lib sinkSec childName its m
      | None \<Rightarrow> LoadSinks lexcast lib sinkSec childName its m)"
  by pat_completeness auto
termination
  by (relation "measures [\<lambda>x. case x of Inl (_, _, s, _) \<Rightarrow> size s | Inr (_, _, s, _) \<Rightarrow> size s,
      \<lambda>x. case x of Inl (_, _, s, _) \<Rightarrow> Suc (length (children s)) | Inr (_, _, s, _, its, _) \<Rightarrow> length its]")
    (auto dest: sec_sub_size)

text \<open>The two halves of loading a logger: its information, and what the section says of it.\<close>

definition new_info :: "u8 \<Rightarrow> string \<Rightarrow> u64 \<Rightarrow> log_manager \<Rightarrow> (ptr \<times> log_manager) res" where
  "new_info nLevel strName parentId m =
     (if strName = ''Root''
      then let (p, m) = RootInfo m
           in if li_FileId (infos m p) \<noteq> 0
              then Inl (Throws ''Double initialize Root logger doesn't allowed.'') else Inr (p, m)
      else if map_of (mLoggerInfos m) strName \<noteq> None
      then Inl (Throws (''Double initialize Logger '' @ strName @ '' doesn't allowed.''))
      else let p = next_ptr m
           in andThen (GetId strName nLevel parentId (m\<lparr>next_ptr := Suc p\<rparr>)) (\<lambda>(i, m).
              Inr (p, set_info p (LoggerInfo\<lparr>li_Id := i, li_Level := nLevel\<rparr>) m)))"

definition fill_info :: "boost_log \<Rightarrow> settings_section \<Rightarrow> logger_info \<Rightarrow> logger_info res" where
  "fill_info lib sec info =
     (let info = (case sec_get sec ''Sinks'' of None \<Rightarrow> info | Some names \<Rightarrow> info\<lparr>li_SinkNames := names\<rparr>)
      in case sec_get sec ''Filter'' of
           None \<Rightarrow> Inr info
         | Some f \<Rightarrow> andThen (parse_filter lib f) (\<lambda>filt. Inr (info\<lparr>li_Filter := filt\<rparr>)))"

definition add_logger ::
    "boost_log \<Rightarrow> settings_section \<Rightarrow> u8 \<Rightarrow> string \<Rightarrow> u64 \<Rightarrow> log_manager \<times> ptr list
      \<Rightarrow> (log_manager \<times> ptr list) res" where
  "add_logger lib sec nLevel strName parentId ml =
     (let (m, loggers) = ml
      in andThen (new_info nLevel strName parentId m) (\<lambda>(p, m).
         andThen (fill_info lib sec ((infos m p)\<lparr>li_FileId := mFileId m\<rparr>)) (\<lambda>info.
         Inr ((set_info p info m)\<lparr>mLoggerInfos := unordered_insert strName p (mLoggerInfos m)\<rparr>, loggers @ [p]))))"

text \<open>\<^verbatim>\<open>nLevel\<close> is a byte: the recursion starts with -1, which is 255, and comes to 0 for the children.\<close>

function LoadLogger :: "boost_log \<Rightarrow> settings_section \<Rightarrow> u8 \<Rightarrow> string \<Rightarrow> u64 \<Rightarrow> log_manager \<times> ptr list
    \<Rightarrow> (log_manager \<times> ptr list) res"
  and LoadLoggers :: "boost_log \<Rightarrow> settings_section \<Rightarrow> u8 \<Rightarrow> string \<Rightarrow> u64 \<Rightarrow> (string \<times> settings_section) list
    \<Rightarrow> log_manager \<times> ptr list \<Rightarrow> (log_manager \<times> ptr list) res" where
  "LoadLogger lib sec nLevel strName parentId ml =
     (if sec_count ''Sinks'' sec = 1 then add_logger lib sec nLevel strName parentId ml
      else if \<not> sec_empty sec then
        (if strName \<noteq> []
         then andThen (GetId strName nLevel parentId (fst ml)) (\<lambda>(parentId, m).
                LoadLoggers lib sec nLevel (strName @ ''.'') parentId (children sec) (m, snd ml))
         else LoadLoggers lib sec nLevel strName parentId (children sec) ml)
      else Inr ml)"
| "LoadLoggers lib sec nLevel childName parentId [] ml = Inr ml"
| "LoadLoggers lib sec nLevel childName parentId ((name, childSec) # its) ml =
     (case sec_sub sec name of
        Some childRef \<Rightarrow>
          if \<not> sec_empty childSec
          then andThen (LoadLogger lib childRef (nLevel + 1) (childName @ name) parentId ml)
                 (\<lambda>ml. LoadLoggers lib sec nLevel childName parentId its ml)
          else LoadLoggers lib sec nLevel childName parentId its ml
      | None \<Rightarrow> LoadLoggers lib sec nLevel childName parentId its ml)"
  by pat_completeness auto
termination
  by (relation "measures [\<lambda>x. case x of Inl (_, s, _) \<Rightarrow> size s | Inr (_, s, _) \<Rightarrow> size s,
      \<lambda>x. case x of Inl (_, s, _) \<Rightarrow> Suc (length (children s)) | Inr (_, s, _, _, _, its, _) \<Rightarrow> length its]")
    (auto dest: sec_sub_size)

declare LoadSink.simps [simp del] LoadLogger.simps [simp del]

text \<open>A configuration file, \<open>None\<close> when it does not open; a sink the core already has is not added again.\<close>

definition core_add_sink :: "nat \<Rightarrow> nat list \<Rightarrow> nat list" where
  "core_add_sink s ss = (if s \<in> set ss then ss else ss @ [s])"

definition LoadConfig ::
    "(int \<Rightarrow> string) \<Rightarrow> boost_log \<Rightarrow> string option \<Rightarrow> log_manager \<times> ptr list \<Rightarrow> (log_manager \<times> ptr list) res" where
  "LoadConfig lexcast lib settingFile ml =
     (let (m, loggers) = ml
      in case settingFile of
        None \<Rightarrow> Inr (m, loggers)
      | Some text \<Rightarrow>
          let m = m\<lparr>mFileId := mFileId m + 1\<rparr>
          in andThen (parse_settings lib text) (\<lambda>setts.
             let m = (case sec_sub setts ''Core'' of None \<Rightarrow> m | Some c \<Rightarrow> m\<lparr>core_params := core_params m @ [c]\<rparr>)
             in andThen (case sec_sub setts ''Sinks'' of
                  None \<Rightarrow> Inr m
                | Some s \<Rightarrow> andThen (LoadSink lexcast lib s [] m) (\<lambda>m.
                    Inr (m\<lparr>core_sinks := fold (\<lambda>(n, p). core_add_sink (Sink (sinks m p))) (mSinks m) (core_sinks m)\<rparr>)))
                (\<lambda>m. case sec_sub setts ''Loggers'' of
                  None \<Rightarrow> Inr (m, loggers)
                | Some s \<Rightarrow> LoadLogger lib s (- 1) [] 0 (m, loggers))))"

definition link_logger :: "(int \<Rightarrow> string) \<Rightarrow> boost_log \<Rightarrow> ptr \<Rightarrow> log_manager \<Rightarrow> log_manager" where
  "link_logger lexcast lib p m =
     fold (\<lambda>sinkName m.
         case map_of (mSinks m) (sinkName @ lexcast (uint (li_FileId (infos m p)))) of
           None \<Rightarrow> m
         | Some s \<Rightarrow> set_info p ((infos m p)\<lparr>li_SinkInfos := li_SinkInfos (infos m p) @ [s]\<rparr>) m)
       (split_commas lib (li_SinkNames (infos m p))) m"

definition LinkLoggerWithSink :: "(int \<Rightarrow> string) \<Rightarrow> boost_log \<Rightarrow> ptr list \<Rightarrow> log_manager \<Rightarrow> log_manager" where
  "LinkLoggerWithSink lexcast lib loggers m = fold (link_logger lexcast lib) loggers m"

text \<open>The file system of \<^verbatim>\<open>Initialize\<close>: what a path is, what it holds when read, its absolute form.\<close>

record config_files =
  system_complete :: "string \<Rightarrow> string"
  path_entry :: "string \<Rightarrow> entry option"
  open_file :: "string \<Rightarrow> string option"

definition Initialize ::
    "(int \<Rightarrow> string) \<Rightarrow> boost_log \<Rightarrow> (string \<Rightarrow> string \<Rightarrow> string \<Rightarrow> string) \<Rightarrow> 'r xpressive \<Rightarrow> config_files
      \<Rightarrow> string \<Rightarrow> log_manager \<Rightarrow> (bool \<times> log_manager) res" where
  "Initialize lexcast lib replace_all xp cf strPath m =
     (let fullPath = system_complete cf (takeWhile (\<lambda>c. \<not> (CHR ''*'' = c \<or> CHR ''?'' = c)) strPath)
      in case path_entry cf fullPath of
        None \<Rightarrow> Inr (False, m)
      | Some Special \<Rightarrow> Inr (False, m)
      | Some e \<Rightarrow>
          andThen (case e of
              Dir es \<Rightarrow> andThen (Wildcard2Regex replace_all xp strPath) (\<lambda>pattern.
                Inr (FindFiles_regex xp fullPath es pattern []))
            | _ \<Rightarrow> Inr [fullPath])
          (\<lambda>configs. if configs = [] then Inr (False, m)
             else andThen (foldRes (\<lambda>config. LoadConfig lexcast lib (open_file cf config)) configs (m, []))
               (\<lambda>(m, loggers). Inr (True, LinkLoggerWithSink lexcast lib loggers m))))"

section \<open>Looking up\<close>

text \<open>The loop of \<^verbatim>\<open>GetLoggerInfo\<close>; not returning is \<open>None\<close>. \<^verbatim>\<open>lastPos - 1\<close> wraps to \<^verbatim>\<open>npos\<close> at 0.\<close>

definition known_logger :: "log_manager \<Rightarrow> string \<Rightarrow> ptr option" where
  "known_logger m key = (if map_of (mIdMap m) key \<noteq> None then map_of (mLoggerInfos m) key else None)"

partial_function (option) info_loop :: "log_manager \<Rightarrow> string \<Rightarrow> nat option \<Rightarrow> ptr option option" where
  "info_loop m name lastPos =
     (if lastPos = None then Some None
      else if known_logger m (take (the lastPos) name) \<noteq> None
      then Some (known_logger m (take (the lastPos) name))
      else info_loop m name
        (find_last_of (CHR ''.'') name (if the lastPos = 0 then None else Some (the lastPos - 1))))"

definition GetLoggerInfo :: "string \<Rightarrow> log_manager \<Rightarrow> (ptr \<times> log_manager) res" where
  "GetLoggerInfo name m =
     (case info_loop m name (Some (length name)) of
        None \<Rightarrow> Inl Diverges
      | Some None \<Rightarrow> Inr (RootInfo m)
      | Some (Some p) \<Rightarrow> Inr (p, m))"

definition GetLogger :: "string \<Rightarrow> log_manager \<Rightarrow> (ptr \<times> log_manager) res" where
  "GetLogger name m =
     andThen (GetLoggerInfo name m) (\<lambda>(p, m).
       if li_Log (infos m p) = None
       then let info = (infos m p)\<lparr>li_Log := Some (li_Id (infos m p))\<rparr>;
                m = set_info p info m
            in andThen (foldRes (\<lambda>s m. andThen (NextId info) (\<lambda>nextId.
                   Inr (m\<lparr>sinks := (sinks m)(s := AddFilter (is_in_range (li_Id info) nextId) (li_Filter info) (sinks m s))\<rparr>)))
                 (li_SinkInfos info) m) (\<lambda>m. Inr (p, m))
       else Inr (p, m))"

end
