(* ===== verification/Log_Names.thy ===== *)
theory Log_Names
  imports Log_Manager
begin

text \<open>
  Names of loggers as lists of segments joined by dots, which logger a name finds, and numbers
  with one digit for each level of a name, in which the numbers below a name are an interval.
\<close>

section \<open>Dotted names\<close>

fun dotted :: "string list \<Rightarrow> string" where
  "dotted [] = []"
| "dotted [s] = s"
| "dotted (s # t # ss) = s @ CHR ''.'' # dotted (t # ss)"

definition segment :: "string \<Rightarrow> bool" where
  "segment s \<longleftrightarrow> s \<noteq> [] \<and> CHR ''.'' \<notin> set s"

definition segments :: "string list \<Rightarrow> bool" where
  "segments cs \<longleftrightarrow> cs \<noteq> [] \<and> (\<forall>s \<in> set cs. segment s)"

definition dots :: "string \<Rightarrow> nat" where
  "dots name = length (filter (\<lambda>c. c = CHR ''.'') name)"

lemma dotted_snoc: "cs \<noteq> [] \<Longrightarrow> dotted (cs @ [s]) = dotted cs @ CHR ''.'' # s"
  by (induction cs rule: dotted.induct) simp_all

lemma dots_dotted: "\<forall>s \<in> set cs. CHR ''.'' \<notin> set s \<Longrightarrow> dots (dotted cs) = length cs - 1"
proof (induction cs rule: dotted.induct)
  case (2 s)
  then show ?case by (auto simp: dots_def filter_empty_conv)
next
  case (3 s t ss)
  have "filter (\<lambda>c. c = CHR ''.'') s = []" using 3 by (auto simp: filter_empty_conv)
  then show ?case using 3 by (simp add: dots_def)
qed (simp add: dots_def)


section \<open>Which logger a name finds\<close>

lemma find_last_of_Some:
  assumes "i < length s" "s ! i = c" "\<forall>p. pos = Some p \<longrightarrow> i \<le> p"
    and "\<And>j. i < j \<Longrightarrow> j < length s \<Longrightarrow> \<forall>p. pos = Some p \<longrightarrow> j \<le> p \<Longrightarrow> s ! j \<noteq> c"
  shows "find_last_of c s pos = Some i"
proof -
  let ?P = "\<lambda>i. s ! i = c \<and> (case pos of None \<Rightarrow> True | Some p \<Rightarrow> i \<le> p)"
  have split: "[0..<length s] = [0..<i] @ i # [Suc i..<length s]"
    using assms(1) upt_add_eq_append [of 0 i "length s - i"] by (simp add: upt_conv_Cons)
  have "\<not> ?P j" if "i < j" "j < length s" for j
    using assms(4) [OF that] by (auto split: option.splits)
  then have "filter ?P [Suc i..<length s] = []" by (simp add: filter_empty_conv)
  then have "filter ?P [0..<length s] = filter ?P [0..<i] @ [i]"
    unfolding split using assms(2,3) by (simp split: option.splits)
  then show ?thesis by (simp add: find_last_of_def Let_def)
qed

lemma find_last_of_None:
  assumes "\<And>j. j < length s \<Longrightarrow> \<forall>p. pos = Some p \<longrightarrow> j \<le> p \<Longrightarrow> s ! j \<noteq> c"
  shows "find_last_of c s pos = None"
proof -
  have "\<not> (s ! j = c \<and> (case pos of None \<Rightarrow> True | Some p \<Rightarrow> j \<le> p))" if "j < length s" for j
    using assms [OF that] by (auto split: option.splits)
  then show ?thesis by (simp add: find_last_of_def Let_def filter_empty_conv)
qed

lemma find_dot_before:
  assumes "CHR ''.'' \<notin> set s"
  shows "find_last_of (CHR ''.'') ((a @ CHR ''.'' # s) @ tail) (Some (length (a @ CHR ''.'' # s) - 1)) =
    Some (length a)"
proof (rule find_last_of_Some)
  fix j assume j: "length a < j" "\<forall>p. Some (length (a @ CHR ''.'' # s) - 1) = Some p \<longrightarrow> j \<le> p"
  then obtain k where "j = Suc (length a + k)" "k < length s"
    using less_imp_Suc_add [OF j(1)] by auto
  then have "((a @ CHR ''.'' # s) @ tail) ! j = s ! k" "k < length s" by (simp_all add: nth_append)
  then show "((a @ CHR ''.'' # s) @ tail) ! j \<noteq> CHR ''.''" using assms by (metis nth_mem)
qed (auto simp: nth_append)

text \<open>The reference: the longest prefix of segments that names a logger.\<close>

function nearest :: "log_manager \<Rightarrow> string list \<Rightarrow> ptr option" where
  "nearest m cs =
     (if cs = [] then None
      else case known_logger m (dotted cs) of Some p \<Rightarrow> Some p | None \<Rightarrow> nearest m (butlast cs))"
  by pat_completeness auto
termination by (relation "measure (\<lambda>(m, cs). length cs)") auto

declare nearest.simps [simp del]

lemma info_loop_nearest:
  assumes "cs \<noteq> []" "hd cs \<noteq> []" "\<forall>s \<in> set cs. CHR ''.'' \<notin> set s"
  shows "info_loop m (dotted cs @ tail) (Some (length (dotted cs))) = Some (nearest m cs)"
  using assms
proof (induction cs arbitrary: tail rule: rev_induct)
  case (snoc s cs)
  let ?name = "dotted (cs @ [s]) @ tail" and ?key = "dotted (cs @ [s])"
  show ?case
  proof (cases "known_logger m ?key")
    case (Some p)
    then show ?thesis by (simp add: info_loop.simps [of m ?name] nearest.simps [of m "cs @ [s]"])
  next
    case None
    then have step: "info_loop m ?name (Some (length ?key)) =
        info_loop m ?name (find_last_of (CHR ''.'') ?name (if ?key = [] then None else Some (length ?key - 1)))"
      by (subst info_loop.simps) simp
    have near: "nearest m (cs @ [s]) = nearest m cs"
      using None by (simp add: nearest.simps [of m "cs @ [s]"])
    show ?thesis
    proof (cases "cs = []")
      case True
      then have "find_last_of (CHR ''.'') ?name (Some (length ?key - 1)) = None"
        using snoc.prems
        by (intro find_last_of_None, cases s) (auto simp: nth_append nth_Cons' in_set_conv_nth)
      then show ?thesis using True snoc.prems step near by (simp add: info_loop.simps nearest.simps)
    next
      case False
      have "find_last_of (CHR ''.'') ?name (Some (length ?key - 1)) = Some (length (dotted cs))"
        using find_dot_before [of s "dotted cs" tail] snoc.prems False by (simp add: dotted_snoc)
      then show ?thesis
        using snoc.IH [of "CHR ''.'' # s @ tail"] snoc.prems False step near by (simp add: dotted_snoc)
    qed
  qed
qed simp

text \<open>
  C34 A name that does not start with a dot finds the logger of its longest prefix, in segments,
  that has been configured, and the root logger when there is none.
\<close>

theorem logger_found_nearest:
  assumes "cs \<noteq> []" "hd cs \<noteq> []" "\<forall>s \<in> set cs. CHR ''.'' \<notin> set s"
  shows "GetLoggerInfo (dotted cs) m =
    Inr (case nearest m cs of None \<Rightarrow> RootInfo m | Some p \<Rightarrow> (p, m))"
  using info_loop_nearest [OF assms, of m "[]"] by (simp add: GetLoggerInfo_def split: option.splits)

theorem logger_found_nearest_witness:
  "GetLoggerInfo ''A.B.c'' ((LogManager (\<lambda>p. LoggerInfo) (\<lambda>p. SinkInfo [] 0))
      \<lparr>mIdMap := [(''A'', 1), (''A.B'', 2)], mLoggerInfos := [(''A'', 5)]\<rparr>) =
    Inr (5, (LogManager (\<lambda>p. LoggerInfo) (\<lambda>p. SinkInfo [] 0))
      \<lparr>mIdMap := [(''A'', 1), (''A.B'', 2)], mLoggerInfos := [(''A'', 5)]\<rparr>)"
  using logger_found_nearest [of "[''A'', ''B'', ''c'']" "(LogManager (\<lambda>p. LoggerInfo) (\<lambda>p. SinkInfo [] 0))
      \<lparr>mIdMap := [(''A'', 1), (''A.B'', 2)], mLoggerInfos := [(''A'', 5)]\<rparr>"]
  by (simp add: nearest.simps known_logger_def)

lemma info_loop_diverges:
  assumes "\<forall>i. known_logger m (take i (CHR ''.'' # name)) = None"
  shows "info_loop m (CHR ''.'' # name) (Some i) = None"
proof (rule ccontr)
  assume "info_loop m (CHR ''.'' # name) (Some i) \<noteq> None"
  then obtain r where "info_loop m (CHR ''.'' # name) (Some i) = Some r" by blast
  then have "m = m \<and> CHR ''.'' # name = CHR ''.'' # name \<longrightarrow> Some i = None"
  proof (rule info_loop.raw_induct
      [where P = "\<lambda>m' n pos r. m' = m \<and> n = CHR ''.'' # name \<longrightarrow> pos = None", rotated])
    fix f m' n pos r
    assume IH: "\<And>m' n pos r. f m' n pos = Some r \<Longrightarrow> m' = m \<and> n = CHR ''.'' # name \<longrightarrow> pos = None"
      and step: "(if pos = None then Some None
        else if known_logger m' (take (the pos) n) \<noteq> None then Some (known_logger m' (take (the pos) n))
        else f m' n (find_last_of (CHR ''.'') n (if the pos = 0 then None else Some (the pos - 1)))) = Some r"
    have "next": "find_last_of (CHR ''.'') (CHR ''.'' # name) q \<noteq> None" for q
      by (auto simp: find_last_of_def Let_def filter_empty_conv split: option.splits
          intro!: bexI [of _ 0])
    show "m' = m \<and> n = CHR ''.'' # name \<longrightarrow> pos = None"
    proof (intro impI, rule ccontr)
      assume here: "m' = m \<and> n = CHR ''.'' # name" "pos \<noteq> None"
      then have "f m' n (find_last_of (CHR ''.'') n (if the pos = 0 then None else Some (the pos - 1))) = Some r"
        using step assms by (simp only: here if_False not_False_eq_True simp_thms)
      from IH [OF this] here "next" show False by simp
    qed
  qed
  then show False by simp
qed

text \<open>
  A name that starts with a dot and has no configured prefix is never answered: the position
  before the first character wraps around, and the search starts again at the end.
\<close>

theorem leading_dot_diverges:
  assumes "\<forall>i. known_logger m (take i (CHR ''.'' # name)) = None"
  shows "GetLogger (CHR ''.'' # name) m = Inl Diverges"
  using info_loop_diverges [OF assms] by (simp add: GetLogger_def GetLoggerInfo_def)

theorem leading_dot_diverges_witness:
  "GetLogger ''.x'' (LogManager (\<lambda>p. LoggerInfo) (\<lambda>p. SinkInfo [] 0)) = Inl Diverges"
  by (rule leading_dot_diverges) (simp add: known_logger_def LogManager_def)


section \<open>Names below a name\<close>

lemma dotted_dot: "cs \<noteq> [] \<Longrightarrow> dotted cs @ ''.'' = concat (map (\<lambda>s. s @ ''.'') cs)"
  by (induction cs rule: dotted.induct) simp_all

lemma prefix_dot:
  "CHR ''.'' \<notin> set s \<Longrightarrow> CHR ''.'' \<notin> set t \<Longrightarrow>
     prefix (s @ CHR ''.'' # x) (t @ CHR ''.'' # y) \<longleftrightarrow> s = t \<and> prefix x y"
proof (induction s arbitrary: t)
  case Nil
  then show ?case by (cases t) auto
next
  case (Cons c s)
  then show ?case by (cases t) auto
qed

lemma prefix_terminated:
  "\<forall>s \<in> set cs. segment s \<Longrightarrow> \<forall>s \<in> set ds. segment s \<Longrightarrow>
     prefix (concat (map (\<lambda>s. s @ ''.'') cs)) (concat (map (\<lambda>s. s @ ''.'') ds)) \<longleftrightarrow> prefix cs ds"
proof (induction cs arbitrary: ds)
  case (Cons c cs)
  then show ?case by (cases ds) (auto simp: prefix_dot segment_def)
qed simp

lemma below_dotted:
  assumes "segments cs" "segments ds"
  shows "dotted ds = dotted cs \<or> prefix (dotted cs @ ''.'') (dotted ds) \<longleftrightarrow> prefix cs ds"
proof -
  have "prefix (dotted cs @ ''.'') (dotted ds @ ''.'') \<longleftrightarrow> prefix cs ds"
    using assms prefix_terminated [of cs ds] by (simp add: segments_def dotted_dot)
  then show ?thesis by (auto simp: prefix_snoc)
qed

lemma dotted_inject:
  assumes "segments cs" "segments ds"
  shows "dotted cs = dotted ds \<longleftrightarrow> cs = ds"
  using below_dotted [OF assms] below_dotted [OF assms(2,1)] by (metis prefix_order.antisym)

lemma segments_take: "segments cs \<Longrightarrow> 0 < n \<Longrightarrow> segments (take n cs)"
  by (auto simp: segments_def dest: in_set_takeD)

lemma segments_dots: "segments cs \<Longrightarrow> dots (dotted cs) = length cs - 1"
  by (rule dots_dotted) (auto simp: segments_def segment_def)

lemma dotted_Nil: "segments cs \<Longrightarrow> dotted cs \<noteq> []"
  by (cases cs rule: dotted.cases) (auto simp: segments_def segment_def)

section \<open>Numbers with one digit for each level\<close>

fun numeral256 :: "nat \<Rightarrow> nat list \<Rightarrow> nat" where
  "numeral256 n [] = 0"
| "numeral256 n (d # ds) = d * 256 ^ (n - 1) + numeral256 (n - 1) ds"

lemma numeral256_snoc:
  "numeral256 n (ds @ [d]) = numeral256 n ds + d * 256 ^ (n - 1 - length ds)"
  by (induction ds arbitrary: n) auto

lemma numeral256_fits:
  "length ds \<le> n \<Longrightarrow> \<forall>d \<in> set ds. d \<le> 255 \<Longrightarrow> numeral256 n ds + 256 ^ (n - length ds) \<le> 256 ^ n"
proof (induction ds arbitrary: n)
  case (Cons d ds)
  then obtain k where n: "n = Suc k" by (cases n) auto
  have "numeral256 k ds + 256 ^ (k - length ds) \<le> 256 ^ k" using Cons n by simp
  moreover have "d * 256 ^ k \<le> 255 * 256 ^ k" using Cons.prems(2) by simp
  ultimately have "d * 256 ^ k + numeral256 k ds + 256 ^ (k - length ds) \<le> 256 * 256 ^ k" by linarith
  then show ?case by (simp add: n)
qed simp

text \<open>With digits up to 254 the interval ends before the numbers do.\<close>

lemma numeral256_top:
  assumes "ds \<noteq> []" "length ds \<le> Suc n" "\<forall>d \<in> set ds. d \<le> 254"
  shows "numeral256 (Suc n) ds + 256 ^ (Suc n - length ds) < 256 ^ Suc n"
proof -
  obtain d es where ds: "ds = d # es" using assms(1) by (cases ds) auto
  have "numeral256 n es + 256 ^ (n - length es) \<le> 256 ^ n"
    using assms(2,3) ds by (intro numeral256_fits) auto
  moreover have "d * 256 ^ n \<le> 254 * 256 ^ n" "0 < (256 :: nat) ^ n" using assms(3) ds by simp_all
  ultimately have "d * 256 ^ n + numeral256 n es + 256 ^ (n - length es) < 256 * 256 ^ n" by linarith
  then show ?thesis by (simp add: ds)
qed

lemma numeral256_less:
  assumes "length ds \<le> n" "\<forall>d \<in> set ds. d \<le> 255"
  shows "numeral256 n ds < 256 ^ n"
proof -
  have "0 < (256 :: nat) ^ (n - length ds)" by simp
  with numeral256_fits [OF assms] show ?thesis by linarith
qed

lemma numeral256_range:
  assumes "length ds \<le> n" "length es \<le> n" "\<forall>d \<in> set ds. 1 \<le> d \<and> d \<le> 255" "\<forall>d \<in> set es. 1 \<le> d \<and> d \<le> 255"
  shows "numeral256 n ds \<le> numeral256 n es \<and> numeral256 n es < numeral256 n ds + 256 ^ (n - length ds)
    \<longleftrightarrow> prefix ds es"
  using assms
proof (induction ds arbitrary: n es)
  case Nil
  then show ?case using numeral256_less [of es n] by simp
next
  case (Cons d ds)
  then obtain k where n: "n = Suc k" by (cases n) auto
  have fits: "numeral256 k ds + 256 ^ (k - length ds) \<le> 256 ^ k"
    using Cons.prems(1,3) n by (intro numeral256_fits) auto
  show ?case
  proof (cases es)
    case Nil
    then show ?thesis using Cons.prems(3) n by simp
  next
    case (Cons e es')
    have small: "numeral256 k es' < 256 ^ k"
      using Cons.prems(2,4) Cons n by (intro numeral256_less) auto
    define B where "B = (256 :: nat) ^ k"
    have val: "numeral256 n (d # ds) = d * B + numeral256 k ds" "numeral256 n es = e * B + numeral256 k es'"
      "256 ^ (n - length (d # ds)) = (256 :: nat) ^ (k - length ds)"
      by (simp_all add: n Cons B_def)
    consider "d = e" | "d < e" | "e < d" by linarith
    then show ?thesis
    proof cases
      case 1
      then show ?thesis
        unfolding val using Cons.IH [of k es'] Cons.prems Cons n by simp
    next
      case 2
      then have "d * B + B \<le> e * B" by (metis Suc_leI mult_Suc mult_le_mono1 add.commute)
      then have "\<not> e * B + numeral256 k es' < d * B + numeral256 k ds + 256 ^ (k - length ds)"
        using fits unfolding B_def by linarith
      then show ?thesis unfolding val using 2 Cons by auto
    next
      case 3
      then have "e * B + B \<le> d * B" by (metis Suc_leI mult_Suc mult_le_mono1 add.commute)
      then have "\<not> d * B + numeral256 k ds \<le> e * B + numeral256 k es'"
        using small unfolding B_def by linarith
      then show ?thesis unfolding val using 3 Cons by auto
    qed
  qed
qed
end
