(* ===== verification/Log_Correct.thy ===== *)
theory Log_Correct
  imports Log_Names
begin

text \<open>
  The logging component over its life: the identifiers of loggers follow their names, so that
  the range a logger filters for holds exactly the loggers below it, and what a sink accepts once
  a logger has been asked for. \<open>log_reach\<close> are the states that configuration and lookups lead to.
\<close>

section \<open>The identifiers that were given\<close>

definition level_count :: "log_manager \<Rightarrow> nat \<Rightarrow> nat" where
  "level_count m l = length (filter (\<lambda>(n, i). dots n = l) (mIdMap m))"

text \<open>At most 254 names on a level: the numbers below the last one of a byte are left out, since \<^verbatim>\<open>NextId\<close> would wrap.\<close>

definition few :: "log_manager \<Rightarrow> bool" where
  "few m \<longleftrightarrow> (\<forall>l < 8. level_count m l \<le> 254)"

definition parent_id :: "(string \<times> u64) list \<Rightarrow> string list \<Rightarrow> u64 option" where
  "parent_id ids cs = (if length cs = 1 then Some 0 else map_of ids (dotted (butlast cs)))"

text \<open>\<open>k\<close> is the number a name got on its level.\<close>

definition numbered :: "(string \<Rightarrow> nat) \<Rightarrow> log_manager \<Rightarrow> string \<Rightarrow> u64 \<Rightarrow> bool" where
  "numbered k m n i \<longleftrightarrow>
     (\<exists>cs q. n = dotted cs \<and> segments cs \<and> length cs \<le> 8 \<and> parent_id (mIdMap m) cs = Some q \<and>
       i = of_nat (k n) * 2 ^ (8 * (8 - length cs)) + q \<and> 1 \<le> k n \<and> k n \<le> level_count m (length cs - 1))"

definition ids_ok :: "(string \<Rightarrow> nat) \<Rightarrow> log_manager \<Rightarrow> bool" where
  "ids_ok k m \<longleftrightarrow>
     mIdMultiple m = map (\<lambda>l. 2 ^ (8 * (7 - l))) [0..<8] \<and>
     length (mIds m) = 8 \<and> (\<forall>l < 8. mIds m ! l = of_nat (Suc (level_count m l))) \<and>
     (\<forall>n i. map_of (mIdMap m) n = Some i \<longrightarrow> numbered k m n i) \<and>
     (\<forall>n i n' i'. map_of (mIdMap m) n = Some i \<longrightarrow> map_of (mIdMap m) n' = Some i' \<longrightarrow>
       dots n = dots n' \<longrightarrow> k n = k n' \<longrightarrow> n = n')"

definition infos_ok :: "log_manager \<Rightarrow> bool" where
  "infos_ok m \<longleftrightarrow>
     (\<forall>p. mRootInfo m = Some p \<longrightarrow> p < next_ptr m) \<and>
     (\<forall>(n, p) \<in> set (mLoggerInfos m). n \<noteq> ''Root'' \<longrightarrow>
       map_of (mIdMap m) n = Some (li_Id (infos m p)) \<and> li_Level (infos m p) = of_nat (dots n) \<and>
       p < next_ptr m \<and> mRootInfo m \<noteq> Some p)"

definition log_ok :: "log_manager \<Rightarrow> bool" where
  "log_ok m \<longleftrightarrow> (\<exists>k. ids_ok k m) \<and> infos_ok m"

lemma init_ids: "init_ids = (replicate 8 1, map (\<lambda>l. 2 ^ (8 * (7 - l))) [0..<8], 0)"
  by code_simp

lemma log_ok_LogManager: "log_ok (LogManager li si)"
  by (auto simp: log_ok_def ids_ok_def infos_ok_def LogManager_def init_ids level_count_def)

section \<open>What does not touch the identifiers\<close>

definition same_ids :: "log_manager \<Rightarrow> log_manager \<Rightarrow> bool" where
  "same_ids m m' \<longleftrightarrow>
     mIdMap m' = mIdMap m \<and> mIds m' = mIds m \<and> mIdMultiple m' = mIdMultiple m \<and>
     mLoggerInfos m' = mLoggerInfos m \<and> next_ptr m \<le> next_ptr m' \<and>
     (mRootInfo m' = mRootInfo m \<or> mRootInfo m = None \<and> (\<exists>p \<ge> next_ptr m. p < next_ptr m' \<and> mRootInfo m' = Some p)) \<and>
     (\<forall>p < next_ptr m. li_Id (infos m' p) = li_Id (infos m p) \<and> li_Level (infos m' p) = li_Level (infos m p))"

lemma same_ids_refl [intro]: "same_ids m m"
  by (simp add: same_ids_def)

lemma same_ids_trans: "same_ids m m' \<Longrightarrow> same_ids m' m'' \<Longrightarrow> same_ids m m''"
  unfolding same_ids_def by (auto intro: le_trans less_le_trans)

lemma ids_ok_same: "same_ids m m' \<Longrightarrow> ids_ok k m' \<longleftrightarrow> ids_ok k m"
  by (simp add: ids_ok_def numbered_def same_ids_def level_count_def)

lemma infos_ok_same:
  assumes "same_ids m m'" "infos_ok m"
  shows "infos_ok m'"
proof -
  have root: "p < next_ptr m'" if "mRootInfo m' = Some p" for p
    using that assms unfolding same_ids_def infos_ok_def by (metis less_le_trans option.inject)
  have "map_of (mIdMap m') n = Some (li_Id (infos m' p)) \<and> li_Level (infos m' p) = of_nat (dots n) \<and>
      p < next_ptr m' \<and> mRootInfo m' \<noteq> Some p" if "(n, p) \<in> set (mLoggerInfos m')" "n \<noteq> ''Root''" for n p
  proof -
    have "map_of (mIdMap m) n = Some (li_Id (infos m p))" "li_Level (infos m p) = of_nat (dots n)"
      "p < next_ptr m" "mRootInfo m \<noteq> Some p"
      using that assms unfolding same_ids_def infos_ok_def by auto
    then show ?thesis using assms(1) unfolding same_ids_def by auto
  qed
  with root show ?thesis by (auto simp: infos_ok_def)
qed

lemma same_ids_ok: "same_ids m m' \<Longrightarrow> log_ok m \<Longrightarrow> log_ok m'"
  using ids_ok_same infos_ok_same by (auto simp: log_ok_def)

lemma same_ids_few: "same_ids m m' \<Longrightarrow> few m' \<longleftrightarrow> few m"
  by (simp add: same_ids_def few_def level_count_def)

lemma same_ids_RootInfo: "RootInfo m = (p, m') \<Longrightarrow> same_ids m m'"
  by (auto simp: RootInfo_def set_info_def same_ids_def Let_def split: option.splits)

lemma same_ids_add_sink: "add_sink lexcast lib sec name m = Inr m' \<Longrightarrow> same_ids m m'"
  by (auto simp: add_sink_def same_ids_def Let_def res_simps split: if_splits option.splits)

lemma same_ids_LoadSink:
  "LoadSink lexcast lib sec name m = Inr m' \<Longrightarrow> same_ids m m'"
  "LoadSinks lexcast lib sec name its m = Inr m' \<Longrightarrow> same_ids m m'"
proof (induction lexcast lib sec name m and lexcast lib sec name its m arbitrary: m' and m'
    rule: LoadSink_LoadSinks.induct)
  case (1 lexcast lib sec name m)
  then show ?case by (auto simp: LoadSink.simps [of lexcast lib sec] intro: same_ids_add_sink split: if_splits)
next
  case (2 lexcast lib sec name m)
  then show ?case by auto
next
  case (3 lexcast lib sec name n c its m)
  then show ?case
    by (auto simp: res_simps split: option.splits if_splits) (metis same_ids_trans)
qed

lemma same_ids_link: "same_ids m (LinkLoggerWithSink lexcast lib loggers m)"
proof -
  have one: "same_ids m (link_logger lexcast lib p m)" for p m
    unfolding link_logger_def
    by (rule fold_invariant [where P = "same_ids m" and Q = "\<lambda>_. True"])
      (auto simp: set_info_def same_ids_def split: option.splits)
  show ?thesis
    unfolding LinkLoggerWithSink_def
    by (rule fold_invariant [where P = "same_ids m" and Q = "\<lambda>_. True"])
      (auto intro: same_ids_trans one)
qed

lemma same_ids_GetLogger:
  assumes "GetLogger name m = Inr (p, m')"
  shows "same_ids m m'"
proof -
  obtain m1 where m1: "GetLoggerInfo name m = Inr (p, m1)"
    using assms by (auto simp: GetLogger_def res_simps Let_def split: if_splits)
  then have same: "same_ids m m1"
    by (auto simp: GetLoggerInfo_def split: option.splits intro: same_ids_RootInfo)
  let ?info = "(infos m1 p)\<lparr>li_Log := Some (li_Id (infos m1 p))\<rparr>"
  have "same_ids m1 m'"
  proof (cases "li_Log (infos m1 p) = None")
    case True
    then have "foldRes (\<lambda>s m. andThen (NextId ?info) (\<lambda>nextId. Inr (m\<lparr>sinks := (sinks m)
        (s := AddFilter (is_in_range (li_Id ?info) nextId) (li_Filter ?info) (sinks m s))\<rparr>)))
        (li_SinkInfos ?info) (set_info p ?info m1) = Inr m'"
      using assms m1 by (auto simp: GetLogger_def res_simps Let_def)
    moreover have "same_ids m1 (set_info p ?info m1)" by (auto simp: same_ids_def set_info_def)
    ultimately show ?thesis
      by (rule foldRes_invariant) (auto simp: res_simps same_ids_def)
  next
    case False
    then show ?thesis using assms m1 by (auto simp: GetLogger_def)
  qed
  with same show ?thesis by (rule same_ids_trans)
qed


section \<open>Giving identifiers\<close>

definition extends :: "log_manager \<Rightarrow> log_manager \<Rightarrow> bool" where
  "extends m m' \<longleftrightarrow> (\<exists>new. mIdMap m' = mIdMap m @ new)"

lemma extends_refl [intro]: "extends m m"
  by (simp add: extends_def)

lemma extends_trans: "extends m m' \<Longrightarrow> extends m' m'' \<Longrightarrow> extends m m''"
  by (auto simp: extends_def)

lemma extends_few: "extends m m' \<Longrightarrow> few m' \<Longrightarrow> few m"
  by (fastforce simp: extends_def few_def level_count_def)

lemma extends_map_of: "extends m m' \<Longrightarrow> map_of (mIdMap m) n = Some i \<Longrightarrow> map_of (mIdMap m') n = Some i"
  by (auto simp: extends_def map_add_def split: option.splits)

lemma extends_same: "same_ids m m' \<Longrightarrow> extends m m'"
  by (simp add: same_ids_def extends_def)

lemma extends_GetId: "GetId name level parentId m = Inr (i, m') \<Longrightarrow> extends m m'"
  by (auto simp: GetId_def extends_def Let_def split: option.splits if_splits)

lemma extends_add_logger:
  assumes "add_logger lib sec level name parentId (m, ls) = Inr (m', ls')"
  shows "extends m m'"
  using assms extends_same [OF same_ids_RootInfo]
  by (auto simp: add_logger_def new_info_def extends_def set_info_def Let_def res_simps split: if_splits option.splits prod.splits
      dest!: extends_GetId)

lemma extends_LoadLogger:
  "LoadLogger lib sec level name parentId (m, ls) = Inr (m', ls') \<Longrightarrow> extends m m'"
  "LoadLoggers lib sec level name parentId its (m, ls) = Inr (m', ls') \<Longrightarrow> extends m m'"
proof (induction lib sec level name parentId "(m, ls)" and lib sec level name parentId its "(m, ls)"
    arbitrary: m ls m' ls' and m ls m' ls' rule: LoadLogger_LoadLoggers.induct)
  case (1 lib sec level name parentId)
  then show ?case
    by (auto simp: LoadLogger.simps [of lib sec] res_simps split: if_splits
        intro: extends_add_logger extends_trans [OF extends_GetId])
next
  case (2 lib sec level name parentId)
  then show ?case by auto
next
  case (3 lib sec level name parentId n c its)
  then show ?case
    by (auto simp: res_simps split: option.splits if_splits) (metis extends_trans)
qed


lemma level_count_GetId:
  "mIdMap m' = mIdMap m @ [(name, i)] \<Longrightarrow>
     level_count m' l = level_count m l + (if dots name = l then 1 else 0)"
  by (simp add: level_count_def)

lemma GetId_ok:
  assumes "GetId (dotted cs) level parentId m = Inr (i, m')" "ids_ok k m" "few m'"
    and "segments cs" "length cs \<le> 9" "level = of_nat (length cs - 1)" "parent_id (mIdMap m) cs = Some parentId"
  obtains k' where "ids_ok k' m'" "map_of (mIdMap m') (dotted cs) = Some i" "length cs \<le> 8"
proof (cases "map_of (mIdMap m) (dotted cs)")
  case (Some j)
  then have "m' = m" "i = j" using assms(1) by (simp_all add: GetId_def)
  moreover have "numbered k m (dotted cs) j" using assms(2) Some by (simp add: ids_ok_def)
  then have "length cs \<le> 8" using dotted_inject assms(4) by (auto simp: numbered_def)
  ultimately show thesis using that assms(2) Some by blast
next
  case None
  let ?l = "length cs - 1"
  let ?c = "level_count m ?l"
  let ?k = "k(dotted cs := Suc ?c)"
  have level: "unat level = ?l" using assms(5,6) by (simp add: unat_of_nat)
  have ok: "mIdMultiple m = map (\<lambda>l. 2 ^ (8 * (7 - l))) [0..<8]" "length (mIds m) = 8"
    "\<And>l. l < 8 \<Longrightarrow> mIds m ! l = of_nat (Suc (level_count m l))"
    "\<And>n i. map_of (mIdMap m) n = Some i \<Longrightarrow> numbered k m n i"
    "\<And>n i n' i'. map_of (mIdMap m) n = Some i \<Longrightarrow> map_of (mIdMap m) n' = Some i' \<Longrightarrow>
      dots n = dots n' \<Longrightarrow> k n = k n' \<Longrightarrow> n = n'"
    using assms(2) unfolding ids_ok_def by blast+
  have small: "?l < 8" "length cs \<le> 8" and m': "m' = m\<lparr>mIds := (mIds m)[?l := mIds m ! ?l + 1], mIdMap := mIdMap m @ [(dotted cs, i)]\<rparr>"
    and i: "i = ucast (mIds m ! ?l) * mIdMultiple m ! ?l + parentId"
    using assms(1,4) None level ok(2) by (auto simp: GetId_def Let_def split: if_splits)
  note count = level_count_GetId [of m' m "dotted cs" i]
  have dots: "dots (dotted cs) = ?l" by (rule segments_dots [OF assms(4)])
  have c: "Suc ?c \<le> 254" using assms(3) small(1) count dots m' by (force simp: few_def)
  have "ids_ok ?k m'"
    unfolding ids_ok_def
  proof (intro conjI allI impI)
    fix l assume "l < (8 :: nat)"
    then show "mIds m' ! l = of_nat (Suc (level_count m' l))"
      using ok(2,3) m' count dots small(1) by (cases "l = ?l") simp_all
  next
    fix n j assume n: "map_of (mIdMap m') n = Some j"
    show "numbered ?k m' n j"
    proof (cases "n = dotted cs")
      case True
      then have "j = i" using n None m' by (auto simp: map_add_def split: option.splits)
      have "ucast (of_nat (Suc ?c) :: u32) = (of_nat (Suc ?c) :: u64)"
        using c by (simp add: unsigned_of_nat take_bit_nat_eq_self del: of_nat_Suc)
      moreover have "7 - ?l = 8 - length cs" using assms(4) by (cases cs) (auto simp: segments_def)
      ultimately have "i = of_nat (Suc ?c) * 2 ^ (8 * (8 - length cs)) + parentId"
        using i ok(1,3) small by (simp del: of_nat_Suc)
      moreover have "parent_id (mIdMap m') cs = Some parentId"
        using assms(7) m' by (auto simp: parent_id_def map_add_def split: if_splits option.splits)
      ultimately show ?thesis
        unfolding numbered_def using True \<open>j = i\<close> assms(4) small(2) count dots m'
        by (intro exI [of _ cs] exI [of _ parentId]) simp
    next
      case False
      then have "map_of (mIdMap m) n = Some j" using n m' by (auto simp: map_add_def split: option.splits)
      from ok(4) [OF this] obtain ds q where ds: "n = dotted ds" "segments ds" "length ds \<le> 8"
        "parent_id (mIdMap m) ds = Some q" "j = of_nat (k n) * 2 ^ (8 * (8 - length ds)) + q"
        "1 \<le> k n" "k n \<le> level_count m (length ds - 1)" unfolding numbered_def by blast
      moreover have "parent_id (mIdMap m') ds = Some q"
        using ds(4) m' None by (auto simp: parent_id_def map_add_def split: if_splits option.splits)
      moreover have "k n \<le> level_count m' (length ds - 1)" using ds(7) count m' by simp
      ultimately show ?thesis
        unfolding numbered_def using False by (intro exI [of _ ds] exI [of _ q]) simp
    qed
  next
    fix n j n' j'
    assume n: "map_of (mIdMap m') n = Some j" "map_of (mIdMap m') n' = Some j'" "dots n = dots n'" "?k n = ?k n'"
    have old: "k n \<le> level_count m (dots n)" if "map_of (mIdMap m) n = Some j" for n j
      using ok(4) [OF that] by (auto simp: numbered_def segments_dots)
    have "map_of (mIdMap m) n = Some j" if "n \<noteq> dotted cs" using n(1) m' that by (auto simp: map_add_def split: option.splits)
    moreover have "map_of (mIdMap m) n' = Some j'" if "n' \<noteq> dotted cs" using n(2) m' that by (auto simp: map_add_def split: option.splits)
    ultimately show "n = n'"
      using n(3,4) ok(5) old [of n j] old [of n' j'] dots by (auto split: if_splits)
  qed (use m' ok in simp_all)
  then show thesis using that None small(2) m' by (simp add: map_add_def)
qed

section \<open>Loading keeps the identifiers\<close>

text \<open>The arguments a logger and the children of a section are loaded with.\<close>

definition logger_args :: "log_manager \<Rightarrow> string \<Rightarrow> u8 \<Rightarrow> u64 \<Rightarrow> bool" where
  "logger_args m name level parentId \<longleftrightarrow>
     name = [] \<and> level = - 1 \<and> parentId = 0 \<or>
     (\<exists>cs. name = dotted cs \<and> segments cs \<and> length cs \<le> 9 \<and> level = of_nat (length cs - 1) \<and>
       parent_id (mIdMap m) cs = Some parentId)"

definition child_args :: "log_manager \<Rightarrow> string \<Rightarrow> u8 \<Rightarrow> u64 \<Rightarrow> bool" where
  "child_args m childName level parentId \<longleftrightarrow>
     childName = [] \<and> level = - 1 \<and> parentId = 0 \<or>
     (\<exists>cs. childName = dotted cs @ ''.'' \<and> segments cs \<and> length cs \<le> 8 \<and> level = of_nat (length cs - 1) \<and>
       map_of (mIdMap m) (dotted cs) = Some parentId)"

lemma child_args_extends: "extends m m' \<Longrightarrow> child_args m c level i \<Longrightarrow> child_args m' c level i"
  using extends_map_of unfolding child_args_def by blast

lemma child_args_child:
  assumes "child_args m childName level parentId" "segment name"
  shows "logger_args m (childName @ name) (level + 1) parentId"
  using assms(1) unfolding child_args_def
proof (elim disjE exE conjE)
  assume "childName = []" "level = - 1" "parentId = 0"
  then show ?thesis
    using assms(2) unfolding logger_args_def
    by (intro disjI2 exI [of _ "[name]"]) (simp add: segments_def parent_id_def)
next
  fix cs assume cs: "childName = dotted cs @ ''.''" "segments cs" "length cs \<le> 8" "level = of_nat (length cs - 1)"
    "map_of (mIdMap m) (dotted cs) = Some parentId"
  then have "cs \<noteq> []" by (simp add: segments_def)
  moreover from this have "level + 1 = of_nat (length cs)" using cs(4) by (cases cs) (auto simp: add.commute)
  ultimately show ?thesis
    using cs assms(2) unfolding logger_args_def
    by (intro disjI2 exI [of _ "cs @ [name]"]) (auto simp: segments_def parent_id_def dotted_snoc)
qed

lemma GetId_args:
  assumes "GetId name level parentId m = Inr (i, m')" "logger_args m name level parentId" "ids_ok k m" "few m'"
  obtains k' cs where "ids_ok k' m'" "name = dotted cs" "segments cs" "length cs \<le> 8" "level = of_nat (length cs - 1)"
    "map_of (mIdMap m') name = Some i"
proof -
  have "name \<noteq> []"
  proof
    assume empty: "name = []"
    then have "level = - 1 \<or> (\<exists>cs. segments cs \<and> dotted cs = [])"
      using assms(2) by (auto simp: logger_args_def)
    then have "level = - 1" using dotted_Nil by blast
    moreover have "map_of (mIdMap m) [] = None"
    proof (rule ccontr)
      assume "map_of (mIdMap m) [] \<noteq> None"
      then obtain j where "numbered k m [] j" using assms(3) by (auto simp: ids_ok_def)
      then show False unfolding numbered_def using dotted_Nil by metis
    qed
    moreover have "length (mIds m) = 8" using assms(3) by (simp add: ids_ok_def)
    moreover have "unat (- 1 :: u8) = 255" by code_simp
    ultimately show False using assms(1) empty by (simp add: GetId_def)
  qed
  then obtain cs where cs: "name = dotted cs" "segments cs" "length cs \<le> 9" "level = of_nat (length cs - 1)"
    "parent_id (mIdMap m) cs = Some parentId" using assms(2) by (auto simp: logger_args_def)
  show thesis
    by (rule GetId_ok [OF assms(1) [unfolded cs(1)] assms(3,4) cs(2-5)]) (use that cs in auto)
qed

lemma infos_ok_new:
  assumes "infos_ok m" "extends m m2" "mLoggerInfos m2 = mLoggerInfos m" "mRootInfo m2 = mRootInfo m"
    and "next_ptr m2 = Suc (next_ptr m)" "infos m2 = (infos m)(next_ptr m := info)"
    and "map_of (mIdMap m2) name = Some (li_Id info)" "li_Level info = of_nat (dots name)"
  shows "infos_ok (m2\<lparr>mLoggerInfos := unordered_insert name (next_ptr m) (mLoggerInfos m2)\<rparr>)"
proof -
  have old: "map_of (mIdMap m2) n = Some (li_Id (infos m2 p)) \<and> li_Level (infos m2 p) = of_nat (dots n) \<and>
      p < next_ptr m2 \<and> mRootInfo m2 \<noteq> Some p" if "(n, p) \<in> set (mLoggerInfos m)" "n \<noteq> ''Root''" for n p
    using that assms(1,4-6) extends_map_of [OF assms(2)] by (fastforce simp: infos_ok_def)
  have root: "p < next_ptr m" if "mRootInfo m = Some p" for p using assms(1) that by (simp add: infos_ok_def)
  have "mRootInfo m2 \<noteq> Some (next_ptr m)" using root assms(4) by auto
  then have new: "map_of (mIdMap m2) name = Some (li_Id (infos m2 (next_ptr m))) \<and>
      li_Level (infos m2 (next_ptr m)) = of_nat (dots name) \<and> next_ptr m < next_ptr m2 \<and> mRootInfo m2 \<noteq> Some (next_ptr m)"
    using assms(5-8) by simp
  have "set (unordered_insert name (next_ptr m) (mLoggerInfos m2)) \<subseteq> insert (name, next_ptr m) (set (mLoggerInfos m))"
    using assms(3) by (auto simp: unordered_insert_def)
  then have entries: "(n, p) \<in> set (mLoggerInfos m) \<or> n = name \<and> p = next_ptr m"
    if "(n, p) \<in> set (unordered_insert name (next_ptr m) (mLoggerInfos m2))" for n p using that by blast
  have "p < next_ptr m2" if "mRootInfo m2 = Some p" for p using root that assms(4,5) by fastforce
  then show ?thesis unfolding infos_ok_def using old new entries by fastforce
qed

lemma infos_ok_root:
  "infos_ok m \<Longrightarrow> infos_ok (m\<lparr>mLoggerInfos := unordered_insert ''Root'' p (mLoggerInfos m)\<rparr>)"
  by (auto simp: infos_ok_def unordered_insert_def)

lemma ids_ok_loggers: "ids_ok k (m\<lparr>mLoggerInfos := x\<rparr>) = ids_ok k m"
  by (simp add: ids_ok_def numbered_def level_count_def)

text \<open>What the last part of \<^verbatim>\<open>LoadLogger\<close> makes of the information on a logger.\<close>

lemma add_logger_cases:
  assumes "add_logger lib sec level name parentId (m, ls) = Inr (m', ls')"
  obtains
    (root) p m1 info where "name = ''Root''" "RootInfo m = (p, m1)"
      "li_Id info = li_Id (infos m1 p)" "li_Level info = li_Level (infos m1 p)"
      "m' = (set_info p info m1)\<lparr>mLoggerInfos := unordered_insert name p (mLoggerInfos m1)\<rparr>"
  | (new) i m1 info where "name \<noteq> ''Root''" "GetId name level parentId (m\<lparr>next_ptr := Suc (next_ptr m)\<rparr>) = Inr (i, m1)"
      "li_Id info = i" "li_Level info = level"
      "m' = (set_info (next_ptr m) info m1)\<lparr>mLoggerInfos := unordered_insert name (next_ptr m) (mLoggerInfos m1)\<rparr>"
proof -
  obtain p m1 info where h: "new_info level name parentId m = Inr (p, m1)"
    "fill_info lib sec ((infos m1 p)\<lparr>li_FileId := mFileId m1\<rparr>) = Inr info"
    "m' = (set_info p info m1)\<lparr>mLoggerInfos := unordered_insert name p (mLoggerInfos m1)\<rparr>"
    using assms by (auto simp: add_logger_def res_simps)
  have fill: "li_Id info = li_Id (infos m1 p)" "li_Level info = li_Level (infos m1 p)"
    using h(2) by (auto simp: fill_info_def Let_def res_simps split: option.splits)
  show thesis
  proof (cases "name = ''Root''")
    case True
    then have "RootInfo m = (p, m1)" using h(1) by (auto simp: new_info_def split: prod.splits if_splits)
    then show thesis by (rule root [OF True]) (use fill h(3) in auto)
  next
    case False
    then obtain i m2 where "GetId name level parentId (m\<lparr>next_ptr := Suc (next_ptr m)\<rparr>) = Inr (i, m2)"
      "p = next_ptr m" "m1 = set_info p (LoggerInfo\<lparr>li_Id := i, li_Level := level\<rparr>) m2"
      using h(1) by (auto simp: new_info_def Let_def res_simps split: if_splits)
    then show thesis
      using new [OF False, of i m2 info] fill h(3) by (simp add: set_info_def)
  qed
qed

lemma GetId_frame:
  assumes "GetId name level parentId m = Inr (i, m')"
  shows "mLoggerInfos m' = mLoggerInfos m" "mRootInfo m' = mRootInfo m" "next_ptr m' = next_ptr m"
    "infos m' = infos m"
  using assms by (auto simp: GetId_def Let_def split: option.splits if_splits)

lemma add_logger_ok:
  assumes "add_logger lib sec level name parentId (m, ls) = Inr (m', ls')"
    and "logger_args m name level parentId" "log_ok m" "few m'"
  shows "log_ok m'"
  using assms(1)
proof (cases rule: add_logger_cases)
  case (root p m1 info)
  have "same_ids m m1" by (rule same_ids_RootInfo [OF root(2)])
  moreover have "same_ids m1 (set_info p info m1)"
    using root(3,4) by (auto simp: same_ids_def set_info_def)
  ultimately have "log_ok (set_info p info m1)" using same_ids_ok assms(3) by blast
  then show ?thesis
    using infos_ok_root [of "set_info p info m1" p] root(1,5)
    by (auto simp: log_ok_def ids_ok_loggers set_info_def)
next
  case (new i m1 info)
  let ?m = "m\<lparr>next_ptr := Suc (next_ptr m)\<rparr>" and ?m2 = "set_info (next_ptr m) info m1"
  obtain k where k: "ids_ok k m" and infos: "infos_ok m" using assms(3) by (auto simp: log_ok_def)
  have k': "ids_ok k ?m" using k by (simp add: ids_ok_def numbered_def level_count_def)
  have few: "few m1" using assms(4) new(5) by (simp add: few_def level_count_def set_info_def)
  have args: "logger_args ?m name level parentId" using assms(2) by (simp add: logger_args_def)
  obtain k2 cs where g: "ids_ok k2 m1" "name = dotted cs" "segments cs" "level = of_nat (length cs - 1)"
    "map_of (mIdMap m1) name = Some i"
    using GetId_args [OF new(2) args k' few] by blast
  have "extends m ?m2" using extends_GetId [OF new(2)] by (auto simp: extends_def set_info_def)
  then have "infos_ok (?m2\<lparr>mLoggerInfos := unordered_insert name (next_ptr m) (mLoggerInfos ?m2)\<rparr>)"
    by (rule infos_ok_new [OF infos])
      (use GetId_frame [OF new(2)] new(3,4) g in \<open>auto simp: set_info_def segments_dots\<close>)
  moreover have "ids_ok k2 ?m2" using g(1) by (simp add: ids_ok_def numbered_def level_count_def set_info_def)
  ultimately show ?thesis unfolding new(5) log_ok_def by (auto simp: ids_ok_loggers set_info_def)
qed

text \<open>Every section of the settings is named by one segment.\<close>

primrec names_ok :: "settings_section \<Rightarrow> bool" where
  "names_ok (Section d cs) = list_all (\<lambda>(n, ok). segment n \<and> ok) (map (map_prod id names_ok) cs)"

lemma names_ok_children: "names_ok sec \<Longrightarrow> (n, s) \<in> set (children sec) \<Longrightarrow> segment n \<and> names_ok s"
  by (cases sec) (force simp: list_all_iff)

lemma names_ok_sub: "names_ok sec \<Longrightarrow> sec_sub sec n = Some s \<Longrightarrow> names_ok s"
  using names_ok_children by (fastforce simp: sec_sub_def dest: map_of_SomeD)

lemma LoadLogger_ok:
  "LoadLogger lib sec level name parentId (m, ls) = Inr (m', ls') \<Longrightarrow> logger_args m name level parentId \<Longrightarrow>
     names_ok sec \<Longrightarrow> log_ok m \<Longrightarrow> few m' \<Longrightarrow> log_ok m'"
  "LoadLoggers lib sec level name parentId its (m, ls) = Inr (m', ls') \<Longrightarrow> child_args m name level parentId \<Longrightarrow>
     names_ok sec \<Longrightarrow> set its \<subseteq> set (children sec) \<Longrightarrow> log_ok m \<Longrightarrow> few m' \<Longrightarrow> log_ok m'"
proof (induction lib sec level name parentId "(m, ls)" and lib sec level name parentId its "(m, ls)"
    arbitrary: m ls m' ls' and m ls m' ls' rule: LoadLogger_LoadLoggers.induct)
  case (1 lib sec level name parentId m ls)
  consider (leaf) "sec_count ''Sinks'' sec = 1" | (empty) "sec_count ''Sinks'' sec \<noteq> 1" "sec_empty sec"
    | (top) "sec_count ''Sinks'' sec \<noteq> 1" "\<not> sec_empty sec" "name = []"
    | (inner) "sec_count ''Sinks'' sec \<noteq> 1" "\<not> sec_empty sec" "name \<noteq> []" by blast
  then show ?case
  proof cases
    case leaf
    then show ?thesis using 1 add_logger_ok by (simp add: LoadLogger.simps [of lib sec])
  next
    case empty
    then show ?thesis using 1 by (simp add: LoadLogger.simps [of lib sec])
  next
    case top
    have "child_args m name level parentId"
      using "1.prems"(2) top dotted_Nil unfolding logger_args_def child_args_def by metis
    then show ?thesis
      using "1.hyps"(2) [OF top(1,2)] "1.prems" top by (simp add: LoadLogger.simps [of lib sec])
  next
    case inner
    then obtain i m1 where g: "GetId name level parentId m = Inr (i, m1)"
      "LoadLoggers lib sec level (name @ ''.'') i (children sec) (m1, ls) = Inr (m', ls')"
      using "1.prems"(1) by (auto simp: LoadLogger.simps [of lib sec] res_simps)
    obtain k where k: "ids_ok k m" using "1.prems"(4) by (auto simp: log_ok_def)
    have few: "few m1" by (rule extends_few [OF extends_LoadLogger(2) [OF g(2)] "1.prems"(5)])
    obtain k2 cs where cs: "ids_ok k2 m1" "name = dotted cs" "segments cs" "length cs \<le> 8"
      "level = of_nat (length cs - 1)" "map_of (mIdMap m1) name = Some i"
      using GetId_args [OF g(1) "1.prems"(2) k few] by blast
    have "infos_ok m1"
      using "1.prems"(4) GetId_frame [OF g(1)] extends_map_of [OF extends_GetId [OF g(1)]]
      by (fastforce simp: log_ok_def infos_ok_def)
    then have "log_ok m1" using cs(1) by (auto simp: log_ok_def)
    moreover have "child_args m1 (name @ ''.'') level i" using cs by (auto simp: child_args_def)
    ultimately show ?thesis using "1.hyps"(1) [OF inner] g "1.prems"(3,5) by simp
  qed
next
  case (2 lib sec level name parentId)
  then show ?case by simp
next
  case (3 lib sec level name parentId n c its m ls)
  then obtain s where s: "sec_sub sec n = Some s" by (cases "sec_sub sec n") (auto simp: sec_sub_def map_of_eq_None_iff image_iff)
  show ?case
  proof (cases "sec_empty c")
    case True
    show ?thesis by (rule "3.hyps"(4) [OF s]) (use "3.prems" True s in auto)
  next
    case False
    then obtain m1 ls1 where l: "LoadLogger lib s (level + 1) (name @ n) parentId (m, ls) = Inr (m1, ls1)"
      "LoadLoggers lib sec level name parentId its (m1, ls1) = Inr (m', ls')"
      using "3.prems"(1) s by (auto simp: res_simps)
    have few: "few m1" by (rule extends_few [OF extends_LoadLogger(2) [OF l(2)] "3.prems"(6)])
    have "segment n" using names_ok_children "3.prems"(3,4) by auto
    then have "log_ok m1"
      using "3.hyps"(2) [OF s False] l(1) child_args_child names_ok_sub [OF _ s] "3.prems" few by blast
    moreover have "child_args m1 name level parentId"
      by (rule child_args_extends [OF extends_LoadLogger(1) [OF l(1)] "3.prems"(2)])
    ultimately show ?thesis using "3.hyps"(3) [OF s False] l(2) "3.prems" by simp
  qed
qed

section \<open>The life of the manager\<close>

text \<open>The parser makes no section with an empty name or a dot in its name.\<close>

definition plain_names :: "boost_log \<Rightarrow> bool" where
  "plain_names lib \<longleftrightarrow> (\<forall>text s. parse_settings lib text = Inr s \<longrightarrow> names_ok s)"

inductive log_reach ::
    "(int \<Rightarrow> string) \<Rightarrow> boost_log \<Rightarrow> (string \<Rightarrow> string \<Rightarrow> string \<Rightarrow> string) \<Rightarrow> 'r xpressive \<Rightarrow> log_manager \<Rightarrow> bool"
  for lexcast lib replace_all xp where
  fresh: "log_reach lexcast lib replace_all xp (LogManager li si)"
| config: "log_reach lexcast lib replace_all xp m \<Longrightarrow>
    Initialize lexcast lib replace_all xp cf strPath m = Inr (ok, m') \<Longrightarrow>
    log_reach lexcast lib replace_all xp m'"
| logger: "log_reach lexcast lib replace_all xp m \<Longrightarrow> GetLogger name m = Inr (p, m') \<Longrightarrow>
    log_reach lexcast lib replace_all xp m'"

lemma LoadConfig_ok:
  assumes "LoadConfig lexcast lib setting (m, ls) = Inr (m', ls')" "plain_names lib"
  shows "extends m m' \<and> (log_ok m \<longrightarrow> few m' \<longrightarrow> log_ok m')"
proof (cases setting)
  case None
  then show ?thesis using assms by (auto simp: LoadConfig_def)
next
  case (Some contents)
  let ?m = "m\<lparr>mFileId := mFileId m + 1\<rparr>"
  obtain setts where setts: "parse_settings lib contents = Inr setts"
    using assms(1) Some by (auto simp: LoadConfig_def Let_def res_simps)
  let ?m1 = "case sec_sub setts ''Core'' of None \<Rightarrow> ?m | Some c \<Rightarrow> ?m\<lparr>core_params := core_params ?m @ [c]\<rparr>"
  obtain m2 where m2: "(case sec_sub setts ''Sinks'' of None \<Rightarrow> Inr ?m1
      | Some s \<Rightarrow> andThen (LoadSink lexcast lib s [] ?m1) (\<lambda>m. Inr (m\<lparr>core_sinks :=
          fold (\<lambda>(n, p). core_add_sink (Sink (sinks m p))) (mSinks m) (core_sinks m)\<rparr>))) = Inr m2"
    "(case sec_sub setts ''Loggers'' of None \<Rightarrow> Inr (m2, ls)
      | Some s \<Rightarrow> LoadLogger lib s (- 1) [] 0 (m2, ls)) = Inr (m', ls')"
    using assms(1) Some setts by (auto simp: LoadConfig_def res_simps Let_def)
  have "same_ids m ?m1" by (auto simp: same_ids_def split: option.splits)
  moreover have "same_ids ?m1 m2"
  proof (cases "sec_sub setts ''Sinks''")
    case None
    then show ?thesis using m2(1) by auto
  next
    case (Some s)
    then obtain m3 where "LoadSink lexcast lib s [] ?m1 = Inr m3" "m2 = m3\<lparr>core_sinks :=
        fold (\<lambda>(n, p). core_add_sink (Sink (sinks m3 p))) (mSinks m3) (core_sinks m3)\<rparr>"
      using m2(1) by (auto simp: res_simps)
    then show ?thesis using same_ids_LoadSink(1) by (auto simp: same_ids_def)
  qed
  ultimately have same: "same_ids m m2" by (rule same_ids_trans)
  show ?thesis
  proof (cases "sec_sub setts ''Loggers''")
    case None
    then show ?thesis using m2(2) same same_ids_ok extends_same by auto
  next
    case (Some s)
    then have l: "LoadLogger lib s (- 1) [] 0 (m2, ls) = Inr (m', ls')" using m2(2) by simp
    have "names_ok s" using names_ok_sub [OF _ Some] assms(2) setts by (simp add: plain_names_def)
    moreover have "logger_args m2 [] (- 1) 0" by (simp add: logger_args_def)
    ultimately have "log_ok m2 \<longrightarrow> few m' \<longrightarrow> log_ok m'" using LoadLogger_ok(1) [OF l] by blast
    then show ?thesis
      using same_ids_ok [OF same] extends_trans [OF extends_same [OF same] extends_LoadLogger(1) [OF l]] by blast
  qed
qed

lemma LoadConfigs_ok:
  assumes "foldRes (\<lambda>config. LoadConfig lexcast lib (f config)) configs (m, ls) = Inr (m', ls')" "plain_names lib"
  shows "extends m m' \<and> (log_ok m \<longrightarrow> few m' \<longrightarrow> log_ok m')"
  using assms(1)
proof (induction configs arbitrary: m ls)
  case (Cons c cs)
  then obtain m1 ls1 where l: "LoadConfig lexcast lib (f c) (m, ls) = Inr (m1, ls1)"
    "foldRes (\<lambda>config. LoadConfig lexcast lib (f config)) cs (m1, ls1) = Inr (m', ls')" by (auto simp: res_simps)
  note first = LoadConfig_ok [OF l(1) assms(2)] and others = Cons.IH [OF l(2)]
  from first others have "extends m m'" by (blast intro: extends_trans)
  moreover have "few m1" if "few m'" using others that extends_few by blast
  ultimately show ?case using first others by blast
qed auto

lemma log_reach_ok:
  assumes "log_reach lexcast lib replace_all xp m" "plain_names lib" "few m"
  shows "log_ok m"
  using assms(1,3)
proof (induction rule: log_reach.induct)
  case (fresh li si)
  show ?case by (rule log_ok_LogManager)
next
  case (config m cf strPath ok m')
  show ?case
  proof (cases "m' = m")
    case True
    then show ?thesis using config by simp
  next
    case False
    then obtain configs m1 loggers where c:
      "foldRes (\<lambda>config. LoadConfig lexcast lib (open_file cf config)) configs (m, []) = Inr (m1, loggers)"
      "m' = LinkLoggerWithSink lexcast lib loggers m1"
      using config.hyps(2) by (auto simp: Initialize_def Let_def res_simps simp del: foldRes.simps
          split: option.splits entry.splits if_splits)
    have link: "same_ids m1 m'" unfolding c(2) by (rule same_ids_link)
    then have "few m1" using same_ids_few config.prems by blast
    then show ?thesis
      using LoadConfigs_ok [OF c(1) assms(2)] same_ids_ok [OF link] extends_few config.IH by blast
  qed
next
  case (logger m name p m')
  then show ?case using same_ids_GetLogger same_ids_ok same_ids_few by blast
qed

section \<open>Identifiers as numbers\<close>

definition digits :: "(string \<Rightarrow> nat) \<Rightarrow> string list \<Rightarrow> nat list" where
  "digits k cs = map (\<lambda>i. k (dotted (take (Suc i) cs))) [0..<length cs]"

lemma digits_snoc: "digits k (cs @ [s]) = digits k cs @ [k (dotted (cs @ [s]))]"
  by (simp add: digits_def)

lemma nth_digits: "i < length cs \<Longrightarrow> digits k cs ! i = k (dotted (take (Suc i) cs))"
  by (simp add: digits_def)

lemma length_digits [simp]: "length (digits k cs) = length cs"
  by (simp add: digits_def)

text \<open>The identifier of a name spells the numbers its prefixes got on their levels.\<close>

lemma id_digits:
  assumes "ids_ok k m" "few m" "segments cs" "map_of (mIdMap m) (dotted cs) = Some i"
  shows "i = of_nat (numeral256 8 (digits k cs)) \<and> length cs \<le> 8 \<and> (\<forall>d \<in> set (digits k cs). 1 \<le> d \<and> d \<le> 254) \<and>
    (\<forall>n \<in> {1..length cs}. map_of (mIdMap m) (dotted (take n cs)) \<noteq> None)"
  using assms(3,4)
proof (induction cs arbitrary: i rule: rev_induct)
  case Nil
  then show ?case by (simp add: segments_def)
next
  case (snoc s cs)
  let ?n = "dotted (cs @ [s])"
  have "numbered k m ?n i" using assms(1) snoc.prems(2) by (simp add: ids_ok_def)
  then obtain q where q: "length (cs @ [s]) \<le> 8" "parent_id (mIdMap m) (cs @ [s]) = Some q"
    "i = of_nat (k ?n) * 2 ^ (8 * (8 - length (cs @ [s]))) + q" "1 \<le> k ?n" "k ?n \<le> level_count m (length cs)"
    unfolding numbered_def using dotted_inject snoc.prems(1) by fastforce
  have k: "k ?n \<le> 254" using q(1,5) assms(2) by (auto simp: few_def intro: le_trans)
  have pow: "(2 :: u64) ^ (8 * (7 - length cs)) = of_nat (256 ^ (7 - length cs))" by (simp add: power_mult)
  have registered: "map_of (mIdMap m) (dotted (take n (cs @ [s]))) \<noteq> None"
    if "\<forall>n \<in> {1..length cs}. map_of (mIdMap m) (dotted (take n cs)) \<noteq> None" "n \<in> {1..Suc (length cs)}" for n
    using that snoc.prems(2) by (cases "n = Suc (length cs)") auto
  show ?case
  proof (cases "cs = []")
    case True
    then show ?thesis
      using q k pow registered by (simp add: parent_id_def digits_def)
  next
    case False
    then have "segments cs" "map_of (mIdMap m) (dotted cs) = Some q"
      using snoc.prems(1) q(2) by (auto simp: segments_def parent_id_def)
    from snoc.IH [OF this] show ?thesis
      using q k pow registered by (auto simp: digits_snoc numeral256_snoc)
  qed
qed

lemma prefix_digits:
  assumes "ids_ok k m" "few m" "segments cs" "segments ds"
    and "map_of (mIdMap m) (dotted cs) = Some i" "map_of (mIdMap m) (dotted ds) = Some j"
  shows "prefix (digits k cs) (digits k ds) \<longleftrightarrow> prefix cs ds"
proof
  assume "prefix cs ds"
  then obtain es where "ds = cs @ es" by (auto simp: prefix_def)
  then have "digits k ds = digits k cs @ map (\<lambda>i. k (dotted (take (Suc i) ds))) [length cs..<length ds]"
    by (auto simp: digits_def upt_add_eq_append [of 0] intro!: nth_equalityI)
  then show "prefix (digits k cs) (digits k ds)" by simp
next
  assume p: "prefix (digits k cs) (digits k ds)"
  define n where "n = length cs"
  have n: "0 < n" "n \<le> length ds" using assms(3) prefix_length_le [OF p] by (auto simp: n_def segments_def)
  obtain n' where n': "n = Suc n'" using n(1) by (cases n) auto
  have "digits k cs ! n' = digits k ds ! n'" using p n n' by (auto simp: prefix_def nth_append n_def)
  moreover have "digits k cs ! n' = k (dotted cs)" "digits k ds ! n' = k (dotted (take n ds))"
    using n n' n_def by (simp_all add: nth_digits)
  ultimately have "k (dotted cs) = k (dotted (take n ds))" by simp
  moreover have "segments (take n ds)" using assms(4) n(1) by (rule segments_take)
  moreover from this have "dots (dotted cs) = dots (dotted (take n ds))"
    using segments_dots [OF assms(3)] segments_dots n by (simp add: n_def)
  moreover obtain j' where "map_of (mIdMap m) (dotted (take n ds)) = Some j'"
    using id_digits [OF assms(1,2,4,6)] n by fastforce
  ultimately have "dotted cs = dotted (take n ds)" using assms(1,5) unfolding ids_ok_def by blast
  then have "cs = take n ds" using dotted_inject assms(3) \<open>segments (take n ds)\<close> by blast
  then show "prefix cs ds" by (metis take_is_prefix)
qed

lemma id_range:
  assumes "ids_ok k m" "few m" "segments cs" "segments ds"
    and "map_of (mIdMap m) (dotted cs) = Some i" "map_of (mIdMap m) (dotted ds) = Some j"
  shows "i \<le> j \<and> j < i + push_bit (8 * (8 - length cs)) 1 \<longleftrightarrow> prefix cs ds"
proof -
  let ?v = "numeral256 8 (digits k cs)" and ?w = "numeral256 8 (digits k ds)" and ?s = "256 ^ (8 - length cs) :: nat"
  note I = id_digits [OF assms(1,2,3,5)] and J = id_digits [OF assms(1,2,4,6)]
  have len: "length cs \<le> 8" "length ds \<le> 8" using I J by simp_all
  have digs: "1 \<le> d \<and> d \<le> 255" if "d \<in> set (digits k cs) \<union> set (digits k ds)" for d
  proof -
    have "1 \<le> d \<and> d \<le> 254" using that I J by blast
    then show ?thesis by simp
  qed
  have v: "?v + ?s < 256 ^ 8"
    using numeral256_top [of "digits k cs" 7] I assms(3) by (auto simp: digits_def segments_def)
  have w: "?w < 256 ^ 8" using J by (intro numeral256_less) auto
  have big: "(256 :: nat) ^ 8 = 2 ^ 64" by simp
  have "unat i = ?v" "unat j = ?w" using I J v w big by (simp_all add: unat_of_nat)
  moreover have "push_bit (8 * (8 - length cs)) 1 = (of_nat ?s :: u64)"
    by (simp add: push_bit_eq_mult power_mult)
  moreover have "i + of_nat ?s = of_nat (?v + ?s)" using I by simp
  then have "unat (i + of_nat ?s) = ?v + ?s" using v big by (simp add: unat_of_nat del: of_nat_add)
  ultimately have "i \<le> j \<and> j < i + push_bit (8 * (8 - length cs)) 1 \<longleftrightarrow> ?v \<le> ?w \<and> ?w < ?v + ?s"
    by (simp add: word_le_nat_alt word_less_nat_alt)
  also have "\<dots> \<longleftrightarrow> prefix (digits k cs) (digits k ds)"
    using numeral256_range [of "digits k cs" 8 "digits k ds"] len(1,2) digs by simp
  finally show ?thesis using prefix_digits [OF assms] by simp
qed

lemma ranges_nest:
  assumes "log_reach lexcast lib replace_all xp m" "plain_names lib" "few m"
    and "(n, p) \<in> set (mLoggerInfos m)" "(n', p') \<in> set (mLoggerInfos m)" "n \<noteq> ''Root''" "n' \<noteq> ''Root''"
  shows "\<exists>nextId. NextId (infos m p) = Inr nextId \<and>
    is_in_range (li_Id (infos m p)) nextId \<lparr>LoggerId = Some (li_Id (infos m p')), Severity = s\<rparr> =
      (n' = n \<or> prefix (n @ ''.'') n')"
proof -
  obtain k where k: "ids_ok k m" and infos: "infos_ok m"
    using log_reach_ok [OF assms(1-3)] by (auto simp: log_ok_def)
  have known: "map_of (mIdMap m) n = Some (li_Id (infos m p))" "li_Level (infos m p) = of_nat (dots n)"
    "map_of (mIdMap m) n' = Some (li_Id (infos m p'))"
    using infos assms(4-7) by (auto simp: infos_ok_def)
  obtain cs where cs: "n = dotted cs" "segments cs" "length cs \<le> 8"
    using k known(1) by (force simp: ids_ok_def numbered_def)
  obtain ds where ds: "n' = dotted ds" "segments ds"
    using k known(3) by (force simp: ids_ok_def numbered_def)
  have "cs \<noteq> []" using cs(2) by (simp add: segments_def)
  then have "uint (li_Level (infos m p)) = int (length cs) - 1"
    using cs known(2) by (cases cs) (simp_all add: segments_dots unsigned_of_nat take_bit_nat_eq_self)
  then have "NextId (infos m p) = Inr (li_Id (infos m p) + push_bit (8 * (8 - length cs)) 1)"
    using cs(3) \<open>cs \<noteq> []\<close> by (simp add: NextId_def LEVEL_BITS_def MAX_LEVEL_def Let_def nat_mult_distrib nat_diff_distrib diff_mult_distrib2)
  moreover have "is_in_range (li_Id (infos m p)) (li_Id (infos m p) + push_bit (8 * (8 - length cs)) 1)
      \<lparr>LoggerId = Some (li_Id (infos m p')), Severity = s\<rparr> = prefix cs ds"
    unfolding is_in_range_def using id_range [OF k assms(3) cs(2) ds(2)] known(1,3) cs(1) ds(1) by simp
  ultimately show ?thesis using below_dotted [OF cs(2) ds(2)] cs(1) ds(1) by simp
qed

text \<open>
  C32 The range of identifiers a logger filters for holds the identifiers of exactly the loggers
  named below it and its own, in every state configuration files and lookups lead to, as
  long as no level has more than 254 names.
\<close>

theorem logger_ranges_nest:
  assumes "log_reach lexcast lib replace_all xp m" "plain_names lib" "few m"
    and "(n, p) \<in> set (mLoggerInfos m)" "(n', p') \<in> set (mLoggerInfos m)" "n \<noteq> ''Root''" "n' \<noteq> ''Root''"
  shows "\<exists>nextId. NextId (infos m p) = Inr nextId \<and>
    is_in_range (li_Id (infos m p)) nextId \<lparr>LoggerId = Some (li_Id (infos m p')), Severity = s\<rparr> =
      (n' = n \<or> prefix (n @ ''.'') n')"
  using assms by (rule ranges_nest)

text \<open>A configuration with two loggers below \<^verbatim>\<open>A\<close> that write to the same sink.\<close>

definition sample_settings :: settings_section where
  "sample_settings = Section []
     [(''Sinks'', Section [] [(''Con'', Section [] [(''Destination'', Section ''Console'' [])])]),
      (''Loggers'', Section [] [(''A'', Section []
        [(''B'', Section [] [(''Sinks'', Section ''Con'' [])]),
         (''C'', Section [] [(''Sinks'', Section ''Con'' [])])])])]"

definition sample_lib :: boost_log where
  "sample_lib = \<lparr>parse_settings = (\<lambda>contents. Inr sample_settings), parse_filter = (\<lambda>f. Inr (\<lambda>values. True)),
     construct_sink_from_settings = (\<lambda>s. Inr 0), split_commas = (\<lambda>s. [s])\<rparr>"

definition sample_files :: config_files where
  "sample_files = \<lparr>system_complete = (\<lambda>p. p), path_entry = (\<lambda>p. Some File), open_file = (\<lambda>p. Some [])\<rparr>"

lemma sample_run:
  "\<exists>m. Initialize decimal sample_lib (\<lambda>s pat to. s) toy_xpressive sample_files ''log.conf''
      (LogManager (\<lambda>p. LoggerInfo) (\<lambda>p. SinkInfo [] 0)) = Inr (True, m) \<and>
    mLoggerInfos m = [(''A.B'', 1), (''A.C'', 2)] \<and> map fst (mIdMap m) = [''A'', ''A.B'', ''A.C''] \<and>
    li_Log (infos m 1) = None \<and> li_Level (infos m 1) = 1"
  by (simp add: Initialize_def sample_files_def LoadConfig_def sample_lib_def sample_settings_def sec_sub_def
      LoadSink.simps LoadLogger.simps sec_count_def sec_empty_def add_sink_def add_logger_def new_info_def fill_info_def
      GetId_def LogManager_def init_ids set_info_def unordered_insert_def sec_get_def LinkLoggerWithSink_def link_logger_def
      decimal_small LoggerInfo_def Let_def)

theorem logger_ranges_nest_witness:
  "\<exists>m nextId. log_reach decimal sample_lib (\<lambda>s pat to. s) toy_xpressive m \<and> NextId (infos m 1) = Inr nextId \<and>
    is_in_range (li_Id (infos m 1)) nextId \<lparr>LoggerId = Some (li_Id (infos m 1)), Severity = None\<rparr> \<and>
    \<not> is_in_range (li_Id (infos m 1)) nextId \<lparr>LoggerId = Some (li_Id (infos m 2)), Severity = None\<rparr>"
proof -
  obtain m where run: "Initialize decimal sample_lib (\<lambda>s pat to. s) toy_xpressive sample_files ''log.conf''
      (LogManager (\<lambda>p. LoggerInfo) (\<lambda>p. SinkInfo [] 0)) = Inr (True, m)"
    and m: "mLoggerInfos m = [(''A.B'', 1), (''A.C'', 2)]" "map fst (mIdMap m) = [''A'', ''A.B'', ''A.C'']"
      "li_Log (infos m 1) = None" "li_Level (infos m 1) = 1"
    using sample_run by (elim exE conjE) (rule that)
  have reach: "log_reach decimal sample_lib (\<lambda>s pat to. s) toy_xpressive m"
    by (rule log_reach.config [OF log_reach.fresh run])
  have plain: "plain_names sample_lib"
    by (simp add: plain_names_def sample_lib_def sample_settings_def segment_def)
  have "length (mIdMap m) = 3" using arg_cong [OF m(2), of length] by simp
  then have "length (filter P (mIdMap m)) \<le> 254" for P using length_filter_le [of P "mIdMap m"] by simp
  then have few: "few m" by (simp add: few_def level_count_def)
  have names: "(''A.B'', 1) \<in> set (mLoggerInfos m)" "(''A.C'', 2) \<in> set (mLoggerInfos m)" using m(1) by simp_all
  show ?thesis
    using logger_ranges_nest [OF reach plain few names(1) names(1), of None]
      logger_ranges_nest [OF reach plain few names(1) names(2), of None] reach by auto
qed

section \<open>What a sink accepts\<close>

lemma add_filters:
  "foldRes (\<lambda>s m. Inr (m\<lparr>sinks := (sinks m)(s := AddFilter f g (sinks m s))\<rparr>)) ps m =
     Inr (m\<lparr>sinks := fold (\<lambda>s ss. ss(s := AddFilter f g (ss s))) ps (sinks m)\<rparr>)"
  by (induction ps arbitrary: m) simp_all

lemma filters_added:
  "ReDirectFilter (fold (\<lambda>s ss. ss(s := AddFilter f g (ss s))) ps ss q) v \<longleftrightarrow>
     ReDirectFilter (ss q) v \<or> q \<in> set ps \<and> f v \<and> g v"
  "InitFilter (fold (\<lambda>s ss. ss(s := AddFilter f g (ss s))) ps ss q) = InitFilter (ss q)"
  by (induction ps arbitrary: ss) (auto simp: AddFilter_def)

lemma info_loop_same:
  assumes "known_logger m = known_logger m'"
  shows "info_loop m name pos = info_loop m' name pos"
proof -
  have one: "info_loop m' name pos = Some r"
    if "info_loop m name pos = Some r" "known_logger m = known_logger m'" for m m' name pos r
  proof -
    have "known_logger m = known_logger m' \<longrightarrow> info_loop m' name pos = Some r"
      using that(1)
    proof (rule info_loop.raw_induct
        [where P = "\<lambda>m name pos r. known_logger m = known_logger m' \<longrightarrow> info_loop m' name pos = Some r", rotated])
      fix f m name pos r
      let ?next = "find_last_of (CHR ''.'') name (if the pos = 0 then None else Some (the pos - 1))"
      assume IH: "\<And>m name pos r. f m name pos = Some r \<Longrightarrow>
          known_logger m = known_logger m' \<longrightarrow> info_loop m' name pos = Some r"
        and step: "(if pos = None then Some None
          else if known_logger m (take (the pos) name) \<noteq> None then Some (known_logger m (take (the pos) name))
          else f m name ?next) = Some r"
      show "known_logger m = known_logger m' \<longrightarrow> info_loop m' name pos = Some r"
      proof
        assume same: "known_logger m = known_logger m'"
        show "info_loop m' name pos = Some r"
        proof (cases "pos = None \<or> known_logger m (take (the pos) name) \<noteq> None")
          case True
          then show ?thesis using step same by (subst info_loop.simps) (auto split: if_splits)
        next
          case False
          then have "f m name ?next = Some r" using step by (simp only: if_False de_Morgan_disj simp_thms)
          then have "info_loop m' name ?next = Some r" using IH same by blast
          then show ?thesis using False same by (subst info_loop.simps) auto
        qed
      qed
    qed
    then show ?thesis using that(2) by blast
  qed
  show ?thesis
    using one [of m name pos _ m'] one [of m' name pos _ m] assms by (metis option.exhaust)
qed

text \<open>
  The first \<^verbatim>\<open>GetLogger\<close> of a logger connects it: each of its sinks then accepts what it
  accepted before and the records in the range of the logger that pass its filter, other sinks
  accept what they did, and asking again gives the same logger and changes nothing.
\<close>

theorem get_logger_routes:
  assumes "GetLoggerInfo name m = Inr (p, m1)" "li_Log (infos m1 p) = None" "NextId (infos m1 p) = Inr nextId"
  shows "\<exists>m'. GetLogger name m = Inr (p, m') \<and> li_Log (infos m' p) = Some (li_Id (infos m1 p)) \<and>
    (\<forall>q values. FiltFun (sinks m' q) values =
      (InitFilter (sinks m1 q) values \<and> (ReDirectFilter (sinks m1 q) values \<or> q \<in> set (li_SinkInfos (infos m1 p)) \<and>
         is_in_range (li_Id (infos m1 p)) nextId values \<and> li_Filter (infos m1 p) values))) \<and>
    GetLogger name m' = Inr (p, m')"
proof -
  let ?i = "infos m1 p"
  let ?info = "?i\<lparr>li_Log := Some (li_Id ?i)\<rparr>" and ?f = "is_in_range (li_Id ?i) nextId" and ?g = "li_Filter ?i"
  let ?m = "(set_info p ?info m1)\<lparr>sinks := fold (\<lambda>s ss. ss(s := AddFilter ?f ?g (ss s))) (li_SinkInfos ?i) (sinks m1)\<rparr>"
  have "NextId ?info = Inr nextId" using assms(3) by (auto simp: NextId_def Let_def split: if_splits)
  then have get: "GetLogger name m = Inr (p, ?m)"
    using assms(1,2) add_filters [of ?f ?g "li_SinkInfos ?i" "set_info p ?info m1"]
    by (simp add: GetLogger_def Let_def set_info_def)
  have known: "known_logger ?m = known_logger m"
    using assms(1) by (auto simp: GetLoggerInfo_def known_logger_def set_info_def RootInfo_def Let_def split: option.splits)
  have "GetLoggerInfo name ?m = Inr (p, ?m)"
    using assms(1) unfolding GetLoggerInfo_def info_loop_same [OF known]
    by (auto simp: RootInfo_def set_info_def Let_def split: option.splits)
  then have "GetLogger name ?m = Inr (p, ?m)" by (simp add: GetLogger_def set_info_def)
  then show ?thesis
    using get filters_added [of ?f ?g "li_SinkInfos ?i" "sinks m1"]
    by (intro exI [of _ ?m]) (auto simp: FiltFun_def set_info_def)
qed

theorem get_logger_routes_witness:
  "\<exists>m m'. log_reach decimal sample_lib (\<lambda>s pat to. s) toy_xpressive m \<and> GetLogger ''A.B.x'' m = Inr (1, m') \<and>
    li_Log (infos m' 1) = Some (li_Id (infos m 1)) \<and> GetLogger ''A.B.x'' m' = Inr (1, m')"
proof -
  obtain m where run: "Initialize decimal sample_lib (\<lambda>s pat to. s) toy_xpressive sample_files ''log.conf''
      (LogManager (\<lambda>p. LoggerInfo) (\<lambda>p. SinkInfo [] 0)) = Inr (True, m)"
    and m: "mLoggerInfos m = [(''A.B'', 1), (''A.C'', 2)]" "map fst (mIdMap m) = [''A'', ''A.B'', ''A.C'']"
      "li_Log (infos m 1) = None" "li_Level (infos m 1) = 1"
    using sample_run by (elim exE conjE) (rule that)
  have reach: "log_reach decimal sample_lib (\<lambda>s pat to. s) toy_xpressive m"
    by (rule log_reach.config [OF log_reach.fresh run])
  have known: "map_of (mIdMap m) ''A.B'' \<noteq> None" "map_of (mIdMap m) ''A.B.x'' = None"
    using m(2) by (simp_all add: map_of_eq_None_iff del: map_map flip: set_map)
  then have "nearest m [''A'', ''B'', ''x''] = Some 1"
    using m(1) by (simp add: nearest.simps known_logger_def)
  then have "GetLoggerInfo ''A.B.x'' m = Inr (1, m)"
    using info_loop_nearest [of "[''A'', ''B'', ''x'']" m "[]"] by (simp add: GetLoggerInfo_def)
  moreover have "NextId (infos m 1) = Inr (li_Id (infos m 1) + push_bit 48 1)"
    using m(4) by (simp add: NextId_def LEVEL_BITS_def MAX_LEVEL_def)
  ultimately show ?thesis using get_logger_routes [OF _ m(3)] reach by blast
qed

end
