(* ===== verification/Singleton.thy ===== *)
theory Singleton
  imports Simulation
begin

text \<open>
  \<^verbatim>\<open>common/Singleton.h\<close>: \<^verbatim>\<open>Instance()\<close> with its two function-local statics. \<^verbatim>\<open>boost::call_once\<close> runs the
  lambda unless an earlier run of it has returned; an exception out of it leaves the flag as it was.
  \<open>new_T\<close> is \<^verbatim>\<open>new T()\<close>. Callers change the object through the reference they get, which is
  what \<open>on_instance\<close> does.
\<close>

record 'a singleton =
  gpInstance :: "'a option"
  init_instance :: bool

definition no_instance :: "'a singleton" where
  "no_instance = \<lparr>gpInstance = None, init_instance = False\<rparr>"

definition Instance :: "'a res \<Rightarrow> 'a singleton \<Rightarrow> ('a \<times> 'a singleton) res" where
  "Instance new_T s =
     andThen (if init_instance s then Inr s
              else andThen new_T (\<lambda>x. Inr \<lparr>gpInstance = Some x, init_instance = True\<rparr>))
       (\<lambda>s. case gpInstance s of None \<Rightarrow> Inl NullPointer | Some x \<Rightarrow> Inr (x, s))"

definition on_instance :: "'a res \<Rightarrow> ('a \<Rightarrow> ('b \<times> 'a) res) \<Rightarrow> 'a singleton \<Rightarrow> ('b \<times> 'a singleton) res" where
  "on_instance new_T f s =
     andThen (Instance new_T s) (\<lambda>(x, s). andThen (f x) (\<lambda>(y, x). Inr (y, s\<lparr>gpInstance := Some x\<rparr>)))"

text \<open>A series of calls, each with its answer.\<close>

fun call_all :: "('s \<Rightarrow> ('b \<times> 's) res) list \<Rightarrow> 's \<Rightarrow> ('b list \<times> 's) res" where
  "call_all [] s = Inr ([], s)"
| "call_all (f # fs) s =
     andThen (f s) (\<lambda>(y, s). andThen (call_all fs s) (\<lambda>(ys, s). Inr (y # ys, s)))"

lemma Instance_ready: "Instance new_T \<lparr>gpInstance = Some x, init_instance = True\<rparr> =
    Inr (x, \<lparr>gpInstance = Some x, init_instance = True\<rparr>)"
  by (simp add: Instance_def)

lemma Instance_first: "Instance new_T no_instance =
    andThen new_T (\<lambda>x. Inr (x, \<lparr>gpInstance = Some x, init_instance = True\<rparr>))"
  by (cases new_T) (simp_all add: Instance_def no_instance_def)

lemma call_all_ready:
  "call_all (map (on_instance new_T) fs) \<lparr>gpInstance = Some x, init_instance = True\<rparr> =
     andThen (call_all fs x) (\<lambda>(ys, x). Inr (ys, \<lparr>gpInstance = Some x, init_instance = True\<rparr>))"
proof (induction fs arbitrary: x)
  case Nil
  show ?case by simp
next
  case (Cons f fs)
  show ?case
  proof (cases "f x")
    case (Inr yx)
    obtain y x' where yx: "yx = (y, x')" by (cases yx)
    show ?thesis using Inr yx Cons.IH [of x']
      by (cases "call_all fs x'") (auto simp: on_instance_def Instance_ready)
  qed (simp add: on_instance_def Instance_ready)
qed

text \<open>Once there is an instance, calls through it simulate the calls on the object.\<close>

definition has_instance :: "'a singleton \<Rightarrow> bool" where
  "has_instance s \<longleftrightarrow> init_instance s \<and> gpInstance s \<noteq> None"

interpretation instance_sim: simulation "on_instance new_T" "\<lambda>f x y x'. f x = Inr (y, x')"
  "\<lambda>s. the (gpInstance s)" has_instance for new_T
  by unfold_locales (auto simp: has_instance_def on_instance_def Instance_def res_simps split: option.splits if_splits)

text \<open>
  C36 Calls through \<^verbatim>\<open>Instance()\<close> are calls on one object: the first makes it, all of them work on
  it, and its constructor does not run again.
\<close>

theorem singleton_one_object:
  "call_all (map (on_instance new_T) (f # fs)) no_instance =
     andThen new_T (\<lambda>x. andThen (call_all (f # fs) x)
       (\<lambda>(ys, x). Inr (ys, \<lparr>gpInstance = Some x, init_instance = True\<rparr>)))"
proof (cases new_T)
  case (Inr x)
  have "call_all (map (on_instance new_T) (f # fs)) no_instance =
      call_all (map (on_instance new_T) (f # fs)) \<lparr>gpInstance = Some x, init_instance = True\<rparr>"
    using Inr by (simp add: on_instance_def Instance_first Instance_ready)
  then show ?thesis unfolding call_all_ready using Inr by simp
qed (simp add: on_instance_def Instance_first)

end
