(* ===== verification/Log_Routing.thy ===== *)
theory Log_Routing
  imports Log_Correct Singleton
begin

text \<open>
  The logging library as its users see it: the two functions at the end of \<^verbatim>\<open>log/LogManager.cpp\<close>, which call
  the one instance, and where the records of a logger end up once loggers have been asked for.
\<close>

section \<open>The functions on the instance\<close>

definition new_LogManager :: "(ptr \<Rightarrow> logger_info) \<Rightarrow> (ptr \<Rightarrow> sink_info) \<Rightarrow> log_manager res" where
  "new_LogManager li si = Inr (LogManager li si)"

definition ConfigLog where
  "ConfigLog lexcast lib replace_all xp li si cf path s =
     andThen (on_instance (new_LogManager li si) (Initialize lexcast lib replace_all xp cf path) s)
       (\<lambda>(ok, s). Inr s)"

definition GetLogger_global where
  "GetLogger_global li si name s = on_instance (new_LogManager li si) (GetLogger name) s"

datatype log_call = Config config_files string | Ask string

fun log_call_step where
  "log_call_step lexcast lib replace_all xp li si (Config cf path) s =
     ConfigLog lexcast lib replace_all xp li si cf path s"
| "log_call_step lexcast lib replace_all xp li si (Ask name) s =
     andThen (GetLogger_global li si name s) (\<lambda>(p, s). Inr s)"

definition instance_reached where
  "instance_reached lexcast lib replace_all xp s \<longleftrightarrow> init_instance s = (gpInstance s \<noteq> None) \<and>
     (\<forall>m. gpInstance s = Some m \<longrightarrow> log_reach lexcast lib replace_all xp m)"

lemma Instance_reached:
  assumes "instance_reached lexcast lib replace_all xp s" "Instance (new_LogManager li si) s = Inr (m, s')"
  shows "log_reach lexcast lib replace_all xp m \<and> init_instance s'"
  using assms log_reach.fresh [of lexcast lib replace_all xp li si]
  by (auto simp: Instance_def new_LogManager_def instance_reached_def res_simps split: if_splits option.splits)

lemma log_call_reached:
  assumes "instance_reached lexcast lib replace_all xp s"
    and "log_call_step lexcast lib replace_all xp li si c s = Inr s'"
  shows "instance_reached lexcast lib replace_all xp s'"
proof (cases c)
  case (Config cf path)
  then obtain m s1 ok m' where "Instance (new_LogManager li si) s = Inr (m, s1)"
    "Initialize lexcast lib replace_all xp cf path m = Inr (ok, m')" "s' = s1\<lparr>gpInstance := Some m'\<rparr>"
    using assms(2) by (auto simp: ConfigLog_def on_instance_def res_simps)
  then show ?thesis
    using Instance_reached [OF assms(1)] log_reach.config by (fastforce simp: instance_reached_def)
next
  case (Ask name)
  then obtain m s1 p m' where "Instance (new_LogManager li si) s = Inr (m, s1)"
    "GetLogger name m = Inr (p, m')" "s' = s1\<lparr>gpInstance := Some m'\<rparr>"
    using assms(2) by (auto simp: GetLogger_global_def on_instance_def res_simps)
  then show ?thesis
    using Instance_reached [OF assms(1)] log_reach.logger by (fastforce simp: instance_reached_def)
qed

lemma log_calls_reached:
  assumes "foldRes (log_call_step lexcast lib replace_all xp li si) cs no_instance = Inr s"
  shows "instance_reached lexcast lib replace_all xp s"
  using assms by (rule foldRes_invariant) (simp add: instance_reached_def no_instance_def, rule log_call_reached)

section \<open>Asking for loggers\<close>

definition ask_all :: "string list \<Rightarrow> log_manager \<Rightarrow> log_manager res" where
  "ask_all = foldRes (\<lambda>name m. andThen (GetLogger name m) (\<lambda>(p, m). Inr m))"

text \<open>What the range and the filter of a logger let through.\<close>

definition logger_accepts :: "logger_info \<Rightarrow> log_filter" where
  "logger_accepts info values \<longleftrightarrow>
     (case NextId info of Inl e \<Rightarrow> False | Inr nextId \<Rightarrow> is_in_range (li_Id info) nextId values) \<and>
     li_Filter info values"

text \<open>
  \<open>m0\<close> is configured and nobody has asked for a logger; the root logger is not configured.
  \<open>m\<close> is reached from it by lookups.
\<close>

definition unasked :: "log_manager \<Rightarrow> bool" where
  "unasked m0 \<longleftrightarrow> infos_ok m0 \<and> mRootInfo m0 = None \<and>
     (\<forall>(n, p) \<in> set (mLoggerInfos m0). n \<noteq> ''Root'' \<and> li_Log (infos m0 p) = None)"

definition asked_from :: "log_manager \<Rightarrow> log_manager \<Rightarrow> bool" where
  "asked_from m0 m \<longleftrightarrow> same_ids m0 m \<and>
     (\<forall>r. mRootInfo m = Some r \<longrightarrow> next_ptr m0 \<le> r \<and> li_SinkInfos (infos m r) = []) \<and>
     (\<forall>(n, p) \<in> set (mLoggerInfos m0). \<exists>g. infos m p = (infos m0 p)\<lparr>li_Log := g\<rparr>) \<and>
     (\<forall>q values. InitFilter (sinks m q) values = InitFilter (sinks m0 q) values \<and>
       ReDirectFilter (sinks m q) values = (ReDirectFilter (sinks m0 q) values \<or>
         (\<exists>(n, p) \<in> set (mLoggerInfos m0). li_Log (infos m p) \<noteq> None \<and>
           q \<in> set (li_SinkInfos (infos m0 p)) \<and> logger_accepts (infos m0 p) values)))"

lemma asked_from_start:
  assumes "unasked m0"
  shows "asked_from m0 m0"
  using assms
  unfolding asked_from_def
proof (intro conjI ballI allI impI)
  show "same_ids m0 m0" by (rule same_ids_refl)
  show "case x of (n, p) \<Rightarrow> \<exists>g. infos m0 p = (infos m0 p)\<lparr>li_Log := g\<rparr>" for x
    by (cases x) (auto intro: exI [of _ "li_Log (infos m0 (snd x))"])
qed (auto simp: unasked_def)

lemma GetLogger_found:
  assumes "GetLogger name m = Inr (p, m')" "GetLoggerInfo name m = Inr (p, m1)" "li_Log (infos m1 p) = None"
  shows "\<exists>g. infos m' = (infos m1)(p := (infos m1 p)\<lparr>li_Log := Some g\<rparr>) \<and> mRootInfo m' = mRootInfo m1 \<and>
    (\<forall>q values. InitFilter (sinks m' q) values = InitFilter (sinks m1 q) values \<and>
      ReDirectFilter (sinks m' q) values = (ReDirectFilter (sinks m1 q) values \<or>
        q \<in> set (li_SinkInfos (infos m1 p)) \<and> logger_accepts (infos m1 p) values))"
proof (cases "li_SinkInfos (infos m1 p) = []")
  case True
  then show ?thesis using assms by (auto simp: GetLogger_def Let_def set_info_def)
next
  case False
  let ?i = "infos m1 p"
  let ?info = "?i\<lparr>li_Log := Some (li_Id ?i)\<rparr>"
  have next': "NextId ?info = NextId ?i" by (simp add: NextId_def Let_def)
  obtain s ss where "li_SinkInfos ?i = s # ss" using False by (cases "li_SinkInfos ?i") auto
  then obtain nextId where n: "NextId ?i = Inr nextId"
    using assms next' by (auto simp: GetLogger_def Let_def res_simps)
  have "m' = (set_info p ?info m1)\<lparr>sinks := fold (\<lambda>s ss. ss(s := AddFilter (is_in_range (li_Id ?i) nextId) (li_Filter ?i) (ss s)))
      (li_SinkInfos ?i) (sinks m1)\<rparr>"
    using assms n next' add_filters [of "is_in_range (li_Id ?i) nextId" "li_Filter ?i" "li_SinkInfos ?i" "set_info p ?info m1"]
    by (simp add: GetLogger_def Let_def set_info_def)
  then show ?thesis
    using n filters_added [of "is_in_range (li_Id ?i) nextId" "li_Filter ?i" "li_SinkInfos ?i" "sinks m1"]
    by (auto simp: set_info_def logger_accepts_def)
qed

lemma info_loop_known:
  assumes "info_loop m name lastPos = Some (Some p)"
  shows "\<exists>n. known_logger m n = Some p"
proof -
  from assms have "Some p = Some p \<longrightarrow> (\<exists>n. known_logger m n = Some p)"
  proof (rule info_loop.raw_induct
      [where P = "\<lambda>m name pos r. r = Some p \<longrightarrow> (\<exists>n. known_logger m n = Some p)", rotated])
    fix f m name pos r
    assume IH: "\<And>m name pos r. f m name pos = Some r \<Longrightarrow> r = Some p \<longrightarrow> (\<exists>n. known_logger m n = Some p)"
      and step: "(if pos = None then Some None
        else if known_logger m (take (the pos) name) \<noteq> None then Some (known_logger m (take (the pos) name))
        else f m name (find_last_of (CHR ''.'') name (if the pos = 0 then None else Some (the pos - 1)))) = Some r"
    show "r = Some p \<longrightarrow> (\<exists>n. known_logger m n = Some p)"
      using step IH by (auto split: if_splits)
  qed
  then show ?thesis by simp
qed

lemma logger_accepts_log [simp]: "logger_accepts (info\<lparr>li_Log := g\<rparr>) = logger_accepts info"
  by (simp add: logger_accepts_def fun_eq_iff NextId_def Let_def)

lemma asked_from_known:
  assumes af: "asked_from m0 m" and ask: "GetLogger name m = Inr (p, m')" "GetLoggerInfo name m = Inr (p, m)"
    and n: "(n, p) \<in> set (mLoggerInfos m0)" "p < next_ptr m0"
  shows "asked_from m0 m'"
proof (cases "li_Log (infos m p) = None")
  case True
  obtain g where g: "infos m' = (infos m)(p := (infos m p)\<lparr>li_Log := Some g\<rparr>)" "mRootInfo m' = mRootInfo m"
    "\<And>q values. InitFilter (sinks m' q) values = InitFilter (sinks m q) values \<and>
      ReDirectFilter (sinks m' q) values = (ReDirectFilter (sinks m q) values \<or>
        q \<in> set (li_SinkInfos (infos m p)) \<and> logger_accepts (infos m p) values)"
    using GetLogger_found [OF ask True] by blast
  obtain g0 where p: "infos m p = (infos m0 p)\<lparr>li_Log := g0\<rparr>" using af n unfolding asked_from_def by blast
  have same: "same_ids m0 m'"
    using af same_ids_GetLogger [OF ask(1)] same_ids_trans by (auto simp: asked_from_def)
  have root: "next_ptr m0 \<le> r \<and> li_SinkInfos (infos m' r) = []" if "mRootInfo m' = Some r" for r
    using that af g(1,2) n(2) by (auto simp: asked_from_def)
  have infos: "\<exists>g. infos m' c = (infos m0 c)\<lparr>li_Log := g\<rparr>" if "(k, c) \<in> set (mLoggerInfos m0)" for k c
    using that af g(1) p by (auto simp: asked_from_def)
  have "(\<exists>(k, c) \<in> set (mLoggerInfos m0). li_Log (infos m' c) \<noteq> None \<and> P c) \<longleftrightarrow>
      (\<exists>(k, c) \<in> set (mLoggerInfos m0). li_Log (infos m c) \<noteq> None \<and> P c) \<or> P p" for P
    using n(1) g(1) by auto
  then show ?thesis
    using af same root infos g(3) p unfolding asked_from_def by auto
next
  case False
  then show ?thesis using assms by (auto simp: GetLogger_def)
qed

lemma asked_from_root:
  assumes un: "unasked m0" and af: "asked_from m0 m"
    and ask: "GetLogger name m = Inr (p, m')" "GetLoggerInfo name m = Inr (p, m1)" "RootInfo m = (p, m1)"
  shows "asked_from m0 m'"
proof -
  have next0: "next_ptr m0 \<le> next_ptr m" using af by (simp add: asked_from_def same_ids_def)
  have p: "next_ptr m0 \<le> p" "mRootInfo m1 = Some p" "li_SinkInfos (infos m1 p) = []"
    "\<And>c. c \<noteq> p \<Longrightarrow> infos m1 c = infos m c" "sinks m1 = sinks m"
    using ask(3) af next0
    by (auto simp: RootInfo_def set_info_def asked_from_def LoggerInfo_def Let_def split: option.splits)
  have m': "sinks m' = sinks m1" "mRootInfo m' = Some p" "li_SinkInfos (infos m' p) = []"
    "\<And>c. c \<noteq> p \<Longrightarrow> infos m' c = infos m1 c"
    using ask(1,2) p(2,3) by (auto simp: GetLogger_def Let_def set_info_def split: if_splits)
  have same: "same_ids m0 m'"
    using af same_ids_GetLogger [OF ask(1)] same_ids_trans by (auto simp: asked_from_def)
  have infos: "infos m' c = infos m c" if "(n, c) \<in> set (mLoggerInfos m0)" for n c
    using that un p(1,4) m'(4) by (fastforce simp: unasked_def infos_ok_def)
  have "(\<exists>(k, c) \<in> set (mLoggerInfos m0). li_Log (infos m' c) \<noteq> None \<and> P c) \<longleftrightarrow>
      (\<exists>(k, c) \<in> set (mLoggerInfos m0). li_Log (infos m c) \<noteq> None \<and> P c)" for P
    by (rule bex_cong [OF refl]) (use infos in auto)
  then show ?thesis
    using af same p m' infos unfolding asked_from_def by auto
qed

lemma asked_from_GetLogger:
  assumes un: "unasked m0" and af: "asked_from m0 m" and ask: "GetLogger name m = Inr (p, m')"
  shows "asked_from m0 m'"
proof -
  obtain m1 where m1: "GetLoggerInfo name m = Inr (p, m1)"
    using ask by (auto simp: GetLogger_def res_simps Let_def split: if_splits)
  then consider "RootInfo m = (p, m1)" | "m1 = m" "info_loop m name (Some (length name)) = Some (Some p)"
    by (auto simp: GetLoggerInfo_def split: option.splits)
  then show ?thesis
  proof cases
    case 1
    show ?thesis by (rule asked_from_root [OF un af ask m1 1])
  next
    case 2
    then obtain n where "known_logger m n = Some p" using info_loop_known by blast
    then have n: "(n, p) \<in> set (mLoggerInfos m0)"
      using af by (auto simp: known_logger_def asked_from_def same_ids_def split: if_splits dest: map_of_SomeD)
    then have "p < next_ptr m0" using un by (auto simp: unasked_def infos_ok_def)
    with n show ?thesis using asked_from_known [OF af ask] m1 2(1) by simp
  qed
qed

lemma ask_all_from:
  assumes "unasked m0" "ask_all ns m0 = Inr m"
  shows "asked_from m0 m"
  using assms(2) unfolding ask_all_def
  by (rule foldRes_invariant) (auto simp: res_simps intro: asked_from_start assms(1) asked_from_GetLogger [OF assms(1)])

text \<open>
  C33 Where a record goes. In a configuration without a \<^verbatim>\<open>Root\<close> logger, with at most 254 names on each
  level, of which no logger has been asked for, let loggers be asked for by any names. Then a
  sink lets a record of the logger \<open>n'\<close> through exactly when the filter of the sink does and one of
  the loggers asked for writes to the sink, is \<open>n'\<close> itself or one above it by name, and
  lets the record through its own filter.
\<close>

theorem records_reach_sinks:
  assumes "log_reach lexcast lib replace_all xp m0" "plain_names lib" "few m0"
    and "mRootInfo m0 = None" "\<forall>(n, p) \<in> set (mLoggerInfos m0). n \<noteq> ''Root'' \<and> li_Log (infos m0 p) = None"
    and "\<forall>values. \<not> ReDirectFilter (sinks m0 q) values"
    and "ask_all names m0 = Inr m" "(n', p') \<in> set (mLoggerInfos m0)"
    and "values = \<lparr>LoggerId = Some (li_Id (infos m p')), Severity = s\<rparr>"
  shows "FiltFun (sinks m q) values \<longleftrightarrow> InitFilter (sinks m0 q) values \<and>
    (\<exists>(n, p) \<in> set (mLoggerInfos m0). li_Log (infos m p) \<noteq> None \<and> q \<in> set (li_SinkInfos (infos m0 p)) \<and>
      (n' = n \<or> prefix (n @ ''.'') n') \<and> li_Filter (infos m0 p) values)"
proof -
  have "infos_ok m0" using log_reach_ok [OF assms(1-3)] by (simp add: log_ok_def)
  then have "unasked m0" using assms(4,5) by (simp add: unasked_def)
  from ask_all_from [OF this assms(7)] have af: "asked_from m0 m" .
  have vals: "values = \<lparr>LoggerId = Some (li_Id (infos m0 p')), Severity = s\<rparr>"
    using af assms(8,9) by (fastforce simp: asked_from_def)
  have "logger_accepts (infos m0 p) values \<longleftrightarrow> (n' = n \<or> prefix (n @ ''.'') n') \<and> li_Filter (infos m0 p) values"
    if n: "(n, p) \<in> set (mLoggerInfos m0)" for n p
  proof -
    have "n \<noteq> ''Root''" "n' \<noteq> ''Root''" using n assms(5,8) by auto
    from ranges_nest [OF assms(1-3) n assms(8) this, of s]
    show ?thesis unfolding logger_accepts_def vals by auto
  qed
  then have "(\<exists>(n, p) \<in> set (mLoggerInfos m0). li_Log (infos m p) \<noteq> None \<and> q \<in> set (li_SinkInfos (infos m0 p)) \<and>
      logger_accepts (infos m0 p) values) \<longleftrightarrow>
    (\<exists>(n, p) \<in> set (mLoggerInfos m0). li_Log (infos m p) \<noteq> None \<and> q \<in> set (li_SinkInfos (infos m0 p)) \<and>
      (n' = n \<or> prefix (n @ ''.'') n') \<and> li_Filter (infos m0 p) values)"
    by fastforce
  then show ?thesis using af assms(6) by (simp add: asked_from_def FiltFun_def)
qed

lemma sample_routing:
  "\<exists>m m'. Initialize decimal sample_lib (\<lambda>s pat to. s) toy_xpressive sample_files ''log.conf''
      (LogManager (\<lambda>p. LoggerInfo) (\<lambda>p. SinkInfo [] 0)) = Inr (True, m) \<and>
    mLoggerInfos m = [(''A.B'', 1), (''A.C'', 2)] \<and> map fst (mIdMap m) = [''A'', ''A.B'', ''A.C''] \<and>
    mRootInfo m = None \<and> li_Log (infos m 1) = None \<and> li_Log (infos m 2) = None \<and>
    li_SinkInfos (infos m 1) = [0] \<and> li_Filter (infos m 1) = (\<lambda>values. True) \<and> sinks m 0 = SinkInfo ''Con1'' 0 \<and>
    ask_all [''A.B''] m = Inr m' \<and> li_Log (infos m' 1) \<noteq> None \<and> li_Log (infos m' 2) = None"
  by (simp add: Initialize_def sample_files_def LoadConfig_def sample_lib_def sample_settings_def sec_sub_def
      LoadSink.simps LoadLogger.simps sec_count_def sec_empty_def add_sink_def add_logger_def new_info_def fill_info_def
      GetId_def LogManager_def init_ids set_info_def unordered_insert_def sec_get_def LinkLoggerWithSink_def link_logger_def
      decimal_small LoggerInfo_def Let_def ask_all_def GetLogger_def GetLoggerInfo_def info_loop.simps known_logger_def
      NextId_def LEVEL_BITS_def MAX_LEVEL_def)

theorem records_reach_sinks_witness:
  "\<exists>m m'. log_reach decimal sample_lib (\<lambda>s pat to. s) toy_xpressive m \<and> ask_all [''A.B''] m = Inr m' \<and>
    FiltFun (sinks m' 0) \<lparr>LoggerId = Some (li_Id (infos m' 1)), Severity = None\<rparr> \<and>
    \<not> FiltFun (sinks m' 0) \<lparr>LoggerId = Some (li_Id (infos m' 2)), Severity = None\<rparr>"
proof -
  obtain m m' where run: "Initialize decimal sample_lib (\<lambda>s pat to. s) toy_xpressive sample_files ''log.conf''
      (LogManager (\<lambda>p. LoggerInfo) (\<lambda>p. SinkInfo [] 0)) = Inr (True, m)"
    and m: "mLoggerInfos m = [(''A.B'', 1), (''A.C'', 2)]" "map fst (mIdMap m) = [''A'', ''A.B'', ''A.C'']"
      "mRootInfo m = None" "li_Log (infos m 1) = None" "li_Log (infos m 2) = None"
      "li_SinkInfos (infos m 1) = [0]" "li_Filter (infos m 1) = (\<lambda>values. True)" "sinks m 0 = SinkInfo ''Con1'' 0"
    and m': "ask_all [''A.B''] m = Inr m'" "li_Log (infos m' 1) \<noteq> None" "li_Log (infos m' 2) = None"
    using sample_routing by (elim exE conjE) (rule that)
  have reach: "log_reach decimal sample_lib (\<lambda>s pat to. s) toy_xpressive m"
    by (rule log_reach.config [OF log_reach.fresh run])
  have plain: "plain_names sample_lib"
    by (simp add: plain_names_def sample_lib_def sample_settings_def segment_def)
  have "length (mIdMap m) = 3" using arg_cong [OF m(2), of length] by simp
  then have "length (filter P (mIdMap m)) \<le> 254" for P using length_filter_le [of P "mIdMap m"] by simp
  then have few: "few m" by (simp add: few_def level_count_def)
  have fresh: "\<forall>(n, p) \<in> set (mLoggerInfos m). n \<noteq> ''Root'' \<and> li_Log (infos m p) = None"
    "\<forall>values. \<not> ReDirectFilter (sinks m 0) values" using m by (simp_all add: SinkInfo_def)
  have names: "(''A.B'', 1) \<in> set (mLoggerInfos m)" "(''A.C'', 2) \<in> set (mLoggerInfos m)" using m(1) by simp_all
  note routes = records_reach_sinks [OF reach plain few m(3) fresh m'(1) _ refl, of _ _ None]
  have "FiltFun (sinks m' 0) \<lparr>LoggerId = Some (li_Id (infos m' 1)), Severity = None\<rparr>"
    unfolding routes [OF names(1)] using m m'(2) by (simp add: SinkInfo_def)
  moreover have "\<not> FiltFun (sinks m' 0) \<lparr>LoggerId = Some (li_Id (infos m' 2)), Severity = None\<rparr>"
    unfolding routes [OF names(2)] using m m'(3) by simp
  ultimately show ?thesis using reach m'(1) by blast
qed

end
