(* ===== verification/Log_Test.thy ===== *)
theory Log_Test
  imports Log_Routing
begin

text \<open>
  The program of \<^verbatim>\<open>test/LogTest.cpp\<close> with the two configuration files beside it, \<^verbatim>\<open>conf/Core_log.conf\<close> and
  \<^verbatim>\<open>conf/Feeder_log.conf\<close>: configuration, lookups and records put together. A \<^verbatim>\<open>Logger\<close> is the attribute it
  was made with, and \<^verbatim>\<open>auto lg = GetLogger(...)\<close> copies it. \<open>core\<close> is what the settings of the logging core
  let through; \<open>put_record\<close> is \<^verbatim>\<open>BOOST_LOG_SEV\<close> as Boost.Log documents it, a record goes to every sink
  of the core whose filter lets it through; every entry of \<^verbatim>\<open>mSinks\<close> is a sink of its own. Its output
  is pairs of the name of a sink and a message.
\<close>

section \<open>The program\<close>

type_synonym core_filter = "settings_section list \<Rightarrow> log_filter"

definition put_record ::
    "core_filter \<Rightarrow> log_manager \<Rightarrow> u64 option \<Rightarrow> SeverityLevel \<times> string \<Rightarrow> (string \<times> string) list" where
  "put_record core m lg rec =
     (let values = \<lparr>LoggerId = lg, Severity = Some (fst rec)\<rparr>
      in if core (core_params m) values
         then map (\<lambda>(n, p). (n, snd rec))
           (filter (\<lambda>(n, p). Sink (sinks m p) \<in> set (core_sinks m) \<and> FiltFun (sinks m p) values) (mSinks m))
         else [])"

text \<open>\<^verbatim>\<open>auto lg = GetLogger(name)\<close> and the records written to \<^verbatim>\<open>lg\<close>.\<close>

definition log_section where
  "log_section core li si name records s =
     andThen (GetLogger_global li si name s) (\<lambda>(p, s).
     case gpInstance s of
       None \<Rightarrow> Inl NullPointer
     | Some m \<Rightarrow> Inr (concat (map (put_record core m (li_Log (infos m p))) records), s))"

definition feed_records :: "(SeverityLevel \<times> string) list" where
  "feed_records = [(Info, ''FeedSource INFO''), (Debug, ''FeedSource debug''), (Warn, '' FeedSource warn''),
     (Error, ''FeedSource error''), (Fatal, ''FeedSource fatal'')]"

definition manager_records :: "(SeverityLevel \<times> string) list" where
  "manager_records = [(Info, ''Manager INFO''), (Debug, ''Manager debug''), (Warn, '' Manager warn''),
     (Error, ''Manager error''), (Fatal, ''Manager fatal'')]"

definition ewma_records :: "(SeverityLevel \<times> string) list" where
  "ewma_records = [(Info, ''EWMA INFO''), (Debug, ''EWMA debug''), (Warn, '' EWMA warn''),
     (Error, ''EWMA error''), (Fatal, ''EWMA fatal'')]"

definition last_records :: "(SeverityLevel \<times> string) list" where
  "last_records = [(Fatal, ''It'' @ [CHR 0x27] @ ''s ok'' @ [CHR 0x0A])]"

definition LogTest_main where
  "LogTest_main lexcast lib replace_all xp core li si cf =
     andThen (ConfigLog lexcast lib replace_all xp li si cf ''conf/*_log.conf'' no_instance) (\<lambda>s.
     andThen (log_section core li si ''Feeder.FeedSource'' feed_records s) (\<lambda>(out1, s).
     andThen (log_section core li si ''Manager'' manager_records s) (\<lambda>(out2, s).
     andThen (log_section core li si ''Core.Indicator.EWMA'' ewma_records s) (\<lambda>(out3, s).
     andThen (log_section core li si ''Manager'' last_records s) (\<lambda>(out4, s).
     Inr (out1 @ out2 @ out3 @ out4))))))"

section \<open>The configuration\<close>

text \<open>The two files as Boost.Log's parser of settings reads them.\<close>

definition leaf :: "string \<Rightarrow> settings_section" where
  "leaf value = Section value []"

definition core_settings :: settings_section where
  "core_settings = Section [] [(''DisableLogging'', leaf ''false'')]"

definition console_sink :: settings_section where
  "console_sink = Section [] [(''Destination'', leaf ''Console''),
     (''Format'', leaf ''<%TimeStamp%>[%ThreadId%][%Severity%]--[%Message%]'')]"

definition file_sink :: "string \<Rightarrow> settings_section" where
  "file_sink name = Section [] [(''Destination'', leaf ''TextFile''), (''FileName'', leaf name),
     (''Format'', leaf ''<%TimeStamp%>[%ThreadId%][%Severity%]--[%Message%]'')]"

definition core_conf :: settings_section where
  "core_conf = Section [] [(''Core'', core_settings), (''Sinks'', Section [] [(''Console'', console_sink)]),
     (''Loggers'', Section [] [(''Root'', Section [] [(''Sinks'', leaf ''Console'')])])]"

definition feeder_conf :: settings_section where
  "feeder_conf = Section []
     [(''Sinks'', Section [] [(''Console'', console_sink), (''FeederFile'', file_sink ''feedsource.log''),
        (''Manager'', file_sink ''manager.log'')]),
      (''Loggers'', Section []
        [(''Feeder'', Section [] [(''FeedSource'', Section [] [(''Sinks'', leaf ''Console,FeederFile''),
           (''Filter'', leaf ''%Severity% > 1'')])]),
         (''Manager'', Section [] [(''Sinks'', leaf ''Manager''), (''Filter'', leaf ''%Severity% >= ERROR'')])])]"

text \<open>
  A relation of filters compares the attribute with the constant, which is read by \<^verbatim>\<open>operator>>\<close>, and fails
  when the attribute is missing.
\<close>

definition severity_filter :: "(int \<Rightarrow> string) \<Rightarrow> (nat \<Rightarrow> nat \<Rightarrow> bool) \<Rightarrow> string \<Rightarrow> log_filter" where
  "severity_filter lexcast rel const values =
     (case Severity values of None \<Rightarrow> False
      | Some s \<Rightarrow> rel (level_value s) (level_value (fst (get_level lexcast const))))"

definition boost_log_documented :: "(int \<Rightarrow> string) \<Rightarrow> boost_log \<Rightarrow> (settings_section \<Rightarrow> nat) \<Rightarrow> string \<Rightarrow> string \<Rightarrow> bool" where
  "boost_log_documented lexcast lib new_sink core_text feeder_text \<longleftrightarrow>
     parse_settings lib core_text = Inr core_conf \<and> parse_settings lib feeder_text = Inr feeder_conf \<and>
     (\<forall>s. construct_sink_from_settings lib s = Inr (new_sink s)) \<and>
     split_commas lib ''Console'' = [''Console''] \<and> split_commas lib ''Manager'' = [''Manager''] \<and>
     split_commas lib ''Console,FeederFile'' = [''Console'', ''FeederFile''] \<and>
     parse_filter lib ''%Severity% > 1'' = Inr (severity_filter lexcast (\<lambda>a b. a > b) ''1'') \<and>
     parse_filter lib ''%Severity% >= ERROR'' = Inr (severity_filter lexcast (\<lambda>a b. a \<ge> b) ''ERROR'')"

text \<open>The directory of the test, in which the program finds both files.\<close>

definition test_directory :: "config_files \<Rightarrow> string \<Rightarrow> string \<Rightarrow> string \<Rightarrow> bool" where
  "test_directory cf cwd core_text feeder_text \<longleftrightarrow> CHR 0x0A \<notin> set cwd \<and>
     system_complete cf ''conf/'' = cwd @ ''/conf/'' \<and>
     path_entry cf (cwd @ ''/conf/'') = Some (Dir [(''Core_log.conf'', File), (''Feeder_log.conf'', File)]) \<and>
     open_file cf (cwd @ ''/conf/Core_log.conf'') = Some core_text \<and>
     open_file cf (cwd @ ''/conf/Feeder_log.conf'') = Some feeder_text"

lemma test_files_found:
  assumes "replaces_all replace_all" "perl_regex xp" "CHR 0x0A \<notin> set cwd"
  obtains r where "Wildcard2Regex replace_all xp ''conf/*_log.conf'' = Inr r"
    "FindFiles_regex xp (cwd @ ''/conf/'') [(''Core_log.conf'', File), (''Feeder_log.conf'', File)] r [] =
      [cwd @ ''/conf/Core_log.conf'', cwd @ ''/conf/Feeder_log.conf'']"
proof -
  obtain r where r: "Wildcard2Regex replace_all xp ''conf/*_log.conf'' = Inr r"
    "\<And>path. CHR 0x0A \<notin> set path \<Longrightarrow>
      regex_search xp path r = (\<exists>tail. suffix tail path \<and> glob (wildcard ''conf/*_log.conf'') tail)"
    using wildcard_search [OF assms(1,2), of "''conf/*_log.conf''"] by auto
  have "glob (wildcard ''conf/*_log.conf'') ''conf/Core_log.conf''"
    "glob (wildcard ''conf/*_log.conf'') ''conf/Feeder_log.conf''" by code_simp+
  moreover have "suffix ''conf/Core_log.conf'' (cwd @ ''/conf/Core_log.conf'')"
    "suffix ''conf/Feeder_log.conf'' (cwd @ ''/conf/Feeder_log.conf'')" by (simp_all add: suffix_def)
  ultimately have "regex_search xp (cwd @ ''/conf/Core_log.conf'') r" "regex_search xp (cwd @ ''/conf/Feeder_log.conf'') r"
    using assms(3) r(2) by auto
  then have "FindFiles_regex xp (cwd @ ''/conf/'') [(''Core_log.conf'', File), (''Feeder_log.conf'', File)] r [] =
      [cwd @ ''/conf/Core_log.conf'', cwd @ ''/conf/Feeder_log.conf'']"
    by (simp add: FindFiles_regex_def join_def)
  then show thesis using r(1) that by blast
qed

section \<open>What is configured\<close>

lemmas log_load = LoadConfig_def sec_sub_def LoadSink.simps LoadLogger.simps sec_count_def sec_empty_def add_sink_def
  add_logger_def new_info_def fill_info_def GetId_def LogManager_def init_ids set_info_def unordered_insert_def
  sec_get_def decimal_small LoggerInfo_def RootInfo_def leaf_def core_conf_def feeder_conf_def core_settings_def
  console_sink_def file_sink_def Let_def

lemmas log_lookup = GetLogger_def GetLoggerInfo_def info_loop.simps known_logger_def
  NextId_def LEVEL_BITS_def MAX_LEVEL_def find_last_of_def upt_rec

lemma filter_constants: "get_level decimal ''1'' = (Debug, [])" "get_level decimal ''ERROR'' = (Error, [])"
  by (simp_all add: get_level_def read_word_def white_space_def SeveyritString_upt decimal_small)
    (simp_all add: SeveyritString_def levels_def)

text \<open>What the two files and the lookups leave in the manager; \<open>g1\<close>, \<open>g5\<close> and \<open>g6\<close> say which loggers were asked for.\<close>

definition logger_row :: "log_manager \<Rightarrow> ptr \<Rightarrow> u64 \<Rightarrow> u8 \<Rightarrow> log_filter \<Rightarrow> ptr list \<Rightarrow> bool \<Rightarrow> bool" where
  "logger_row m p i level filt ss asked \<longleftrightarrow> li_Id (infos m p) = i \<and> li_Level (infos m p) = level \<and>
     li_Filter (infos m p) = filt \<and> li_SinkInfos (infos m p) = ss \<and>
     li_Log (infos m p) = (if asked then Some i else None)"

definition sink_row :: "log_manager \<Rightarrow> ptr \<Rightarrow> u64 \<Rightarrow> u64 \<Rightarrow> log_filter \<Rightarrow> bool \<Rightarrow> bool" where
  "sink_row m p lo hi filt asked \<longleftrightarrow> Sink (sinks m p) \<in> set (core_sinks m) \<and> InitFilter (sinks m p) = (\<lambda>_. True) \<and>
     ReDirectFilter (sinks m p) = (\<lambda>v. asked \<and> is_in_range lo hi v \<and> filt v)"

definition above_debug :: log_filter where "above_debug = severity_filter decimal (\<lambda>a b. a > b) ''1''"
definition from_error :: log_filter where "from_error = severity_filter decimal (\<lambda>a b. a \<ge> b) ''ERROR''"

definition test_state :: "log_manager \<Rightarrow> bool \<Rightarrow> bool \<Rightarrow> bool \<Rightarrow> bool" where
  "test_state m g1 g5 g6 \<longleftrightarrow> mLoggerInfos m = [(''Root'', 1), (''Feeder.FeedSource'', 5), (''Manager'', 6)] \<and>
     mSinks m = [(''Console1'', 0), (''Console2'', 2), (''FeederFile2'', 3), (''Manager2'', 4)] \<and>
     mIdMap m = [(''Feeder'', 0x100000000000000), (''Feeder.FeedSource'', 0x101000000000000), (''Manager'', 0x200000000000000)] \<and>
     mRootInfo m = Some 1 \<and> core_params m = [core_settings] \<and>
     logger_row m 1 0 0 (\<lambda>_. True) [0] g1 \<and>
     logger_row m 5 0x101000000000000 1 above_debug [2, 3] g5 \<and>
     logger_row m 6 0x200000000000000 0 from_error [4] g6 \<and>
     sink_row m 0 0 0x100000000000000 (\<lambda>_. True) g1 \<and>
     sink_row m 2 0x101000000000000 0x102000000000000 above_debug g5 \<and>
     sink_row m 3 0x101000000000000 0x102000000000000 above_debug g5 \<and>
     sink_row m 4 0x200000000000000 0x300000000000000 from_error g6"

lemma core_add_sink_set: "set (core_add_sink s ss) = insert s (set ss)"
  by (auto simp: core_add_sink_def)

lemma test_configured:
  assumes "boost_log_documented lexcast lib new_sink core_text feeder_text" "decimal_cast lexcast"
    "test_directory cf cwd core_text feeder_text" "replaces_all replace_all" "perl_regex xp"
  shows "\<exists>m. Initialize lexcast lib replace_all xp cf ''conf/*_log.conf'' (LogManager li si) = Inr (True, m) \<and>
    test_state m False False False"
proof -
  have lex: "lexcast = decimal" using assms(2) by (auto simp: decimal_cast_def)
  note lib = assms(1) [unfolded boost_log_documented_def lex, folded above_debug_def from_error_def]
  note dir = assms(3) [unfolded test_directory_def]
  then have cwd: "CHR 0x0A \<notin> set cwd" by blast
  obtain r where r: "Wildcard2Regex replace_all xp ''conf/*_log.conf'' = Inr r"
    "FindFiles_regex xp (cwd @ ''/conf/'') [(''Core_log.conf'', File), (''Feeder_log.conf'', File)] r [] =
      [cwd @ ''/conf/Core_log.conf'', cwd @ ''/conf/Feeder_log.conf'']"
    by (rule test_files_found [OF assms(4,5) cwd])
  show ?thesis using lib dir unfolding lex
    by (simp add: Initialize_def r log_load LinkLoggerWithSink_def link_logger_def test_state_def)
      (simp add: logger_row_def sink_row_def SinkInfo_def core_add_sink_set)
qed

section \<open>Lookups and records\<close>

lemma ask_feed:
  assumes "test_state m g1 g5 g6"
  shows "\<exists>m'. GetLogger ''Feeder.FeedSource'' m = Inr (5, m') \<and> test_state m' g1 True g6"
  using assms
  by (cases g5) (auto simp: test_state_def log_lookup logger_row_def sink_row_def set_info_def AddFilter_def Let_def
      fun_eq_iff)

lemma ask_manager:
  assumes "test_state m g1 g5 g6"
  shows "\<exists>m'. GetLogger ''Manager'' m = Inr (6, m') \<and> test_state m' g1 g5 True"
  using assms
  by (cases g6) (auto simp: test_state_def log_lookup logger_row_def sink_row_def set_info_def AddFilter_def Let_def
      fun_eq_iff)

lemma ask_root:
  assumes "test_state m g1 g5 g6"
  shows "\<exists>m'. GetLogger ''Core.Indicator.EWMA'' m = Inr (1, m') \<and> test_state m' True g5 g6"
  using assms
  by (cases g1) (auto simp: test_state_def log_lookup logger_row_def sink_row_def set_info_def AddFilter_def Let_def
      fun_eq_iff RootInfo_def)

lemma range_simps: "is_in_range lo hi \<lparr>LoggerId = Some i, Severity = s\<rparr> \<longleftrightarrow> lo \<le> i \<and> i < hi"
  by (simp add: is_in_range_def)

lemma above_debug_iff: "above_debug \<lparr>LoggerId = i, Severity = Some s\<rparr> \<longleftrightarrow> 1 < level_value s"
  by (simp add: above_debug_def severity_filter_def filter_constants)

lemma from_error_iff: "from_error \<lparr>LoggerId = i, Severity = Some s\<rparr> \<longleftrightarrow> 3 \<le> level_value s"
  by (simp add: from_error_def severity_filter_def filter_constants)

lemma put_records:
  assumes "test_state m g1 g5 g6" "core [core_settings] = (\<lambda>values. True)"
  shows "put_record core m (Some 0x101000000000000) rec =
      (if g5 \<and> 1 < level_value (fst rec) then [(''Console2'', snd rec), (''FeederFile2'', snd rec)] else [])"
    and "put_record core m (Some 0x200000000000000) rec =
      (if g6 \<and> 3 \<le> level_value (fst rec) then [(''Manager2'', snd rec)] else [])"
    and "put_record core m (Some 0) rec = (if g1 then [(''Console1'', snd rec)] else [])"
  using assms
  by (auto simp: test_state_def put_record_def sink_row_def FiltFun_def range_simps above_debug_iff from_error_iff)

lemma section_run:
  assumes "GetLogger name m = Inr (p, m')"
  shows "log_section core li si name records \<lparr>gpInstance = Some m, init_instance = True\<rparr> =
    Inr (concat (map (put_record core m' (li_Log (infos m' p))) records), \<lparr>gpInstance = Some m', init_instance = True\<rparr>)"
  using assms by (simp add: log_section_def GetLogger_global_def on_instance_def Instance_ready)

lemma asked_logs:
  assumes "test_state m g1 g5 g6"
  shows "g1 \<Longrightarrow> li_Log (infos m (Suc 0)) = Some 0" "g5 \<Longrightarrow> li_Log (infos m 5) = Some 0x101000000000000"
    "g6 \<Longrightarrow> li_Log (infos m 6) = Some 0x200000000000000"
  using assms by (simp_all add: test_state_def logger_row_def)

text \<open>What a sink has written.\<close>

definition written_to :: "string \<Rightarrow> (string \<times> string) list \<Rightarrow> string list" where
  "written_to name out = map snd (filter (\<lambda>(n, msg). n = name) out)"

text \<open>
  C20 What the logging program writes, with Boost.Log as documented: the console of the second file and the log
  of the feeder get the records of \<^verbatim>\<open>Feeder.FeedSource\<close> above DEBUG, the log of the manager those of
  \<^verbatim>\<open>Manager\<close> from ERROR, and the console of the first file, which is the root logger's, all of the
  logger nobody configured and nothing else.
\<close>

theorem log_test_output:
  assumes "boost_log_documented lexcast lib new_sink core_text feeder_text" "decimal_cast lexcast"
    "test_directory cf cwd core_text feeder_text" "replaces_all replace_all" "perl_regex xp"
    "core [core_settings] = (\<lambda>values. True)"
  shows "\<exists>out. LogTest_main lexcast lib replace_all xp core li si cf = Inr out \<and>
    (\<forall>name. written_to name out =
      (if name = ''Console1'' then [''EWMA INFO'', ''EWMA debug'', '' EWMA warn'', ''EWMA error'', ''EWMA fatal'']
       else if name = ''Console2'' \<or> name = ''FeederFile2''
       then ['' FeedSource warn'', ''FeedSource error'', ''FeedSource fatal'']
       else if name = ''Manager2''
       then [''Manager error'', ''Manager fatal'', ''It'' @ [CHR 0x27] @ ''s ok'' @ [CHR 0x0A]] else []))"
proof -
  obtain m where m: "Initialize lexcast lib replace_all xp cf ''conf/*_log.conf'' (LogManager li si) = Inr (True, m)"
    "test_state m False False False"
    using test_configured [OF assms(1-5)] by blast
  obtain m1 where m1: "GetLogger ''Feeder.FeedSource'' m = Inr (5, m1)" "test_state m1 False True False"
    using ask_feed [OF m(2)] by blast
  obtain m2 where m2: "GetLogger ''Manager'' m1 = Inr (6, m2)" "test_state m2 False True True"
    using ask_manager [OF m1(2)] by blast
  obtain m3 where m3: "GetLogger ''Core.Indicator.EWMA'' m2 = Inr (1, m3)" "test_state m3 True True True"
    using ask_root [OF m2(2)] by blast
  obtain m4 where m4: "GetLogger ''Manager'' m3 = Inr (6, m4)" "test_state m4 True True True"
    using ask_manager [OF m3(2)] by blast
  have "ConfigLog lexcast lib replace_all xp li si cf ''conf/*_log.conf'' no_instance =
      Inr \<lparr>gpInstance = Some m, init_instance = True\<rparr>"
    by (simp add: ConfigLog_def on_instance_def Instance_first new_LogManager_def m(1))
  moreover note puts = put_records [where core = core, OF _ assms(6)]
  ultimately show ?thesis
    unfolding LogTest_main_def
    by (simp add: section_run [OF m1(1)] section_run [OF m2(1)] section_run [OF m3(1)] section_run [OF m4(1)]
        asked_logs [OF m1(2)] asked_logs [OF m2(2)] asked_logs [OF m3(2)] asked_logs [OF m4(2)]
        puts [OF m1(2)] puts [OF m2(2)] puts [OF m3(2)] puts [OF m4(2)]
        feed_records_def manager_records_def ewma_records_def last_records_def written_to_def)
qed

definition test_lib :: boost_log where
  "test_lib = \<lparr>parse_settings = (\<lambda>t. Inr (if t = ''core'' then core_conf else feeder_conf)),
     parse_filter = (\<lambda>t. Inr (if t = ''%Severity% > 1'' then severity_filter decimal (\<lambda>a b. a > b) ''1''
       else severity_filter decimal (\<lambda>a b. a \<ge> b) ''ERROR'')),
     construct_sink_from_settings = (\<lambda>s. Inr 0),
     split_commas = (\<lambda>t. if t = ''Console,FeederFile'' then [''Console'', ''FeederFile''] else [t])\<rparr>"

definition test_files :: config_files where
  "test_files = \<lparr>system_complete = (\<lambda>p. ''/test/'' @ p),
     path_entry = (\<lambda>p. Some (Dir [(''Core_log.conf'', File), (''Feeder_log.conf'', File)])),
     open_file = (\<lambda>p. Some (if p = ''/test/conf/Core_log.conf'' then ''core'' else ''feeder''))\<rparr>"

theorem log_test_output_witness:
  "\<exists>out. LogTest_main decimal test_lib (\<lambda>s pat to. subst_all pat to s) toy_xpressive (\<lambda>ps values. True)
      (\<lambda>p. LoggerInfo) (\<lambda>p. SinkInfo [] 0) test_files = Inr out \<and>
    written_to ''FeederFile2'' out = ['' FeedSource warn'', ''FeedSource error'', ''FeedSource fatal'']"
proof -
  have "boost_log_documented decimal test_lib (\<lambda>s. 0) ''core'' ''feeder''"
    by (simp add: boost_log_documented_def test_lib_def)
  moreover have "decimal_cast decimal" by (simp add: decimal_cast_def)
  moreover have "test_directory test_files ''/test'' ''core'' ''feeder''"
    by (simp add: test_directory_def test_files_def)
  ultimately show ?thesis
    using log_test_output [of decimal test_lib "\<lambda>s. 0" "''core''" "''feeder''" test_files "''/test''"
      "\<lambda>s pat to. subst_all pat to s" toy_xpressive "\<lambda>ps values. True" "\<lambda>p. LoggerInfo" "\<lambda>p. SinkInfo [] 0",
      OF _ _ _ subst_all_replaces_all toy_perl_regex]
    by auto
qed

end
