(* ===== verification/Spec2Isabelle.thy ===== *)
theory Spec2Isabelle
  imports Byte_Order Md5_Object Sending_Buffers Server_Threads Lifetime_Programs Log_Test
begin

text \<open>
  A verification library for MemCachedClient, an asynchronous memcached client in C++ on top of
  Boost.Asio.

  \<^bold>\<open>The program.\<close> \<^verbatim>\<open>MemcachedClient\<close> (\<^verbatim>\<open>src/memcachedClient\<close>) builds a binary-protocol request for each call,
  registers it in \<^verbatim>\<open>mRequests\<close> under a fresh number and sends it to the server that \<^verbatim>\<open>ServerList\<close>
  (\<^verbatim>\<open>src/serverManager\<close>) chooses for the key. The choice is made by one of three distribution
  algorithms, of which the consistent ring hashes with \<^verbatim>\<open>MD5\<close> (\<^verbatim>\<open>src/utils\<close>). A \<^verbatim>\<open>ServerItem\<close> owns a
  \<^verbatim>\<open>TcpClient\<close> (\<^verbatim>\<open>src/network\<close>), which queues and writes buffers and reads replies, header first; the client
  finds the request of a reply by its opaque number, lets the \<^verbatim>\<open>MemResult\<close> offer the buffers for the
  body, and posts a task that tells the result and the callback. An error of a connection removes
  the server and fails its requests. Beside this stand a logging library (\<^verbatim>\<open>src/log\<close>) that routes
  records of named loggers to sinks, and file utilities (\<^verbatim>\<open>src/common\<close>).

  \<^bold>\<open>The theories, in the order of their imports.\<close>

  \<^item> \<open>Prelude\<close>: machine integers, the datatype \<open>fault\<close> of everything that keeps an operation from
    returning (assertion, null pointer, bad iterator, access outside a buffer, unwritten or freed
    memory, a loop without end, an exception), the result type \<open>res\<close>, \<open>andThen\<close> and \<open>foldRes\<close> with
    their lemmas, checked writes into memory.
  \<^item> \<open>Byte_Order\<close>: \<^verbatim>\<open>network/HostNetConversion\<close> for every build; the locale \<open>byte_codec\<close> of encodings.
    In which builds \<^verbatim>\<open>htonll\<close> produces the order of the wire, and the round trips.
  \<^item> \<open>Shared_Buffer\<close>: \<^verbatim>\<open>network/SharedBuffer.h\<close>, handles on buffers of a pool with their deleters, over a
    memory of blocks. When a deleter runs, that no block is leaked, freed twice or read after it is
    freed, and the round trip through header and body.
  \<^item> \<open>Md5\<close>, \<open>Md5_Correct\<close>, \<open>Md5_Object\<close>: \<^verbatim>\<open>utils/md5\<close> on 32-bit words with the object's buffer;
    equivalence with a reference written from RFC 1321, from which a digest of the test suite of the RFC is
    computed, independence of how the input is split, where a long input makes \<^verbatim>\<open>update\<close> loop, and
    the shape of the object under any use of its interface.
  \<^item> \<open>Std_Map\<close>, \<open>Std_Heap\<close>: what the code uses of \<^verbatim>\<open>std::map\<close> and of the heap algorithms of \<^verbatim>\<open>std\<close>.
  \<^item> \<open>Tcp_Client\<close>: \<^verbatim>\<open>network/TcpClient\<close> as a state machine, the completions of asio as inputs, \<open>enabled\<close> when
    asio can give them. Order of the bytes sent, at most one write under way, that everything
    submitted can be sent. The locale \<open>connection_user\<close> is the contract of the two read handlers.
  \<^item> \<open>Sending_Buffers\<close>: the write side of \<^verbatim>\<open>TcpClient\<close> with the handles its tasks and vectors keep, beside a
    program with handles of its own; that its run on bytes is the run on buffers.
  \<^item> \<open>Server_Item\<close>, \<open>Distribute\<close>, \<open>Memo_Distri\<close>, \<open>Consistent_Hash\<close>: \<^verbatim>\<open>serverManager/ServerItem\<close> and the
    three algorithms; the locale \<open>distribute_algorithm\<close> is the virtual interface, its extension
    the promise that \<^verbatim>\<open>Clear\<close> empties. Which server answers a key, what adding and removing moves.
  \<^item> \<open>Server_List\<close>: \<^verbatim>\<open>serverManager/ServerList\<close> over a heap of items and algorithm objects, its
    invariant \<open>sl_invar\<close>, and what every operation does on every branch.
  \<^item> \<open>Simulation\<close>: series of operations with their answers, and the locale \<open>simulation\<close>, by which one step
    that refines a specification gives the series; interpreted on the server list and on \<open>Instance()\<close>.
  \<^item> \<open>Server_Registry\<close>: a finite map as the specification of the list, and the simulation of every
    series of operations by it.
  \<^item> \<open>Monitor\<close>, \<open>Server_Threads\<close>: objects whose operations hold a mutex, called by any number of threads; the
    locale \<open>monitor_object\<close> makes of what they do a series of whole operations. The bodies of the
    list's operations step by step, what \<^verbatim>\<open>Items()\<close> can see, and slots that call back into the list.
  \<^item> \<open>Protocol\<close>: the bytes of every request; the header file of memcached is the parameter \<open>protocol\<close>
    with the hypothesis \<open>binary_protocol\<close>, and \<open>parse_request\<close> is a server's view of a stream. Which
    requests a server reads as they were meant, and what it reads for the others.
  \<^item> \<open>Mem_Result\<close>, \<open>Memcached_Client\<close>: \<^verbatim>\<open>MemResult\<close> with its subclasses, \<^verbatim>\<open>RequestItem\<close>, \<^verbatim>\<open>MemcachedClient\<close>
    and \<^verbatim>\<open>MemGet.cpp\<close> to \<^verbatim>\<open>MemVersion.cpp\<close>. Members that were never written are cells \<open>None\<close>.
  \<^item> \<open>Client_Correct\<close>: the client as a whole. \<open>client_run\<close> interleaves calls, completions of connections,
    servers that come and go, posted tasks, waiting threads and spurious wake-ups; the invariant
    \<open>client_inv\<close> is kept by each of them, and \<open>served_inv\<close>, by which no request is forgotten, by those that are
    given servers of the list. What losing a server does.
  \<^item> \<open>Client_Replies\<close>, \<open>Client_Requests\<close>: replies read from a byte stream through the connection into
    the result; a request from the call to the connection of the chosen server, buffers of the caller, flags.
  \<^item> \<open>Get_Programs\<close>: the programs of \<^verbatim>\<open>src/example\<close>, the whole library put together from the options to the
    printed value, and to the fault when the connection is lost after it.
  \<^item> \<open>Item_Lifetime\<close>, \<open>Lifetime_Programs\<close>: when an item and its connection are destroyed, as a refinement
    of the client with \<open>UseAfterFree\<close> where a destroyed item is used; a removed connection, a program
    that cannot connect, and a request overtaken by the loss of its server.
  \<^item> \<open>Std_String\<close>, \<open>File_Handler\<close>: \<^verbatim>\<open>common/FileHandler\<close>; wildcards against their meaning, replacing
    against a reference, directories and files. The locale \<open>line_visitor\<close> is what rewriting a
    file asks of a visitor.
  \<^item> \<open>Log_Common\<close>, \<open>Log_Manager\<close>: \<^verbatim>\<open>log/LogCommon\<close>, \<^verbatim>\<open>LoggerInfo\<close>, \<^verbatim>\<open>SinkInfo\<close>, \<^verbatim>\<open>LogManager\<close>.
  \<^item> \<open>Log_Names\<close>, \<open>Log_Correct\<close>: which logger a name finds; identifiers of loggers as numbers with one
    digit for each segment of a name, so that ranges of identifiers nest as names do; what a sink
    accepts. \<open>log_reach\<close> are the states configuration and lookups lead to.
  \<^item> \<open>Singleton\<close>, \<open>Log_Routing\<close>: \<^verbatim>\<open>common/Singleton.h\<close>, the functions on the instance at the end of
    \<^verbatim>\<open>LogManager.cpp\<close>, and to which sinks the records of a logger go once loggers have been asked for.
  \<^item> \<open>Log_Test\<close>: the program of \<^verbatim>\<open>test/LogTest.cpp\<close> with its two configuration files, down to what each sink
    is given.

  \<^bold>\<open>Conventions.\<close> A class is a record, its methods are functions that return the new record, in
  \<open>res\<close> when they can fail. Objects behind \<^verbatim>\<open>shared_ptr\<close> live in heaps, functions from addresses with a
  next free address. \<^verbatim>\<open>unordered_map\<close> is an association list with distinct keys. Loops that may not end
  are partial functions into \<open>option\<close> (the block loop of \<^verbatim>\<open>MD5::update\<close>, the replacement loop, the lookup
  of a logger), and their ends are theorems; all other recursion is total, so that no fuel is
  used. Library code that is not in the repository is a parameter (the protocol header,
  \<^verbatim>\<open>lexical_cast\<close>, name resolution, slots, iteration order, Boost.Log, Boost.Xpressive, the file
  system) with its documented behaviour as a named hypothesis and a concrete instance.

  \<^bold>\<open>Not modelled.\<close> Records the library itself writes and messages on the console, except those of the
  programs. Threads are modelled for the mutex of \<^verbatim>\<open>ServerList\<close>; elsewhere operations run one after
  another, and the data race on \<^verbatim>\<open>mRequests\<close>, which is undefined behaviour, is shown as an interleaving of the
  halves of \<^verbatim>\<open>Get\<close>. The client theories take a buffer as its bytes, which \<open>Sending_Buffers\<close> justifies for
  what is written; the buffers a reply is read into are bytes of the result. Wrapped objects outlive their
  buffers. Iterators into \<^verbatim>\<open>mRequests\<close> are not invalidated by a rehash. A configuration whose loading throws
  is dropped: the partly loaded states of \<^verbatim>\<open>LogManager\<close> after a caught exception are not followed. Export
  macros have no behaviour, and \<^verbatim>\<open>test/SharedBufferTest.cpp\<close> has an empty case.
\<close>

end
